(* ===== verification/Prelude.thy ===== *)
theory Prelude
  imports Main "HOL-Library.Word"
begin

text \<open>
  Shared vocabulary of the esdumanOS development: the C integer types at their widths, the
  error codes of \<^verbatim>\<open>include/errno.h\<close>, the effects a component has on the rest of the kernel
  (log records, wake-ups), and the generic facts on searches, lists and words that the
  component theories use.  A C routine that returns either a count or a negative error code
  is modelled by a sum \<open>errno + 'a\<close>; a C loop \<^verbatim>\<open>for (i = lo; i < hi; i++) if (P(i)) ...\<close>
  that stops at the first hit is \<open>find P [lo..<hi]\<close>.
\<close>

unbundle bit_operations_syntax

named_theorems os_inv \<open>one-step preservation of a component invariant\<close>
named_theorems os_abs \<open>an operation seen through its abstraction function\<close>

type_synonym u8 = "8 word"
type_synonym u16 = "16 word"
type_synonym u32 = "32 word"

subsection \<open>Error codes (include/errno.h)\<close>

datatype (plugins only: code size) errno =
    E_PERM | E_NOENT | E_SRCH | E_INTR | E_IO | E_NXIO | E_2BIG | E_NOEXEC | E_BADF
  | E_CHILD | E_AGAIN | E_NOMEM | E_ACCES | E_FAULT | E_BUSY | E_EXIST | E_XDEV | E_NODEV
  | E_NOTDIR | E_ISDIR | E_INVAL | E_NFILE | E_MFILE | E_NOTTY | E_FBIG | E_NOSPC | E_SPIPE
  | E_ROFS | E_MLINK | E_PIPE | E_NAMETOOLONG | E_NOSYS | E_NOTEMPTY

fun errno_val :: "errno \<Rightarrow> int" where
  "errno_val E_PERM = -1" | "errno_val E_NOENT = -2" | "errno_val E_SRCH = -3"
| "errno_val E_INTR = -4" | "errno_val E_IO = -5" | "errno_val E_NXIO = -6"
| "errno_val E_2BIG = -7" | "errno_val E_NOEXEC = -8" | "errno_val E_BADF = -9"
| "errno_val E_CHILD = -10" | "errno_val E_AGAIN = -11" | "errno_val E_NOMEM = -12"
| "errno_val E_ACCES = -13" | "errno_val E_FAULT = -14" | "errno_val E_BUSY = -16"
| "errno_val E_EXIST = -17" | "errno_val E_XDEV = -18" | "errno_val E_NODEV = -19"
| "errno_val E_NOTDIR = -20" | "errno_val E_ISDIR = -21" | "errno_val E_INVAL = -22"
| "errno_val E_NFILE = -23" | "errno_val E_MFILE = -24" | "errno_val E_NOTTY = -25"
| "errno_val E_FBIG = -27" | "errno_val E_NOSPC = -28" | "errno_val E_SPIPE = -29"
| "errno_val E_ROFS = -30" | "errno_val E_MLINK = -31" | "errno_val E_PIPE = -32"
| "errno_val E_NAMETOOLONG = -36" | "errno_val E_NOSYS = -38" | "errno_val E_NOTEMPTY = -39"

text \<open>A status: \<open>None\<close> is \<^verbatim>\<open>E_OK\<close>.\<close>

type_synonym status = "errno option"

text \<open>What the caller sees in the return register.\<close>

definition ret_val :: "errno + nat \<Rightarrow> int" where
  "ret_val r = (case r of Inl e \<Rightarrow> errno_val e | Inr n \<Rightarrow> int n)"

subsection \<open>Effects on the rest of the kernel\<close>

datatype log_level = Log_debug | Log_info | Log_warn | Log_error | Log_critical

datatype wait_reason = Wait_none | Wait_kbd | Wait_ipc | Wait_timer | Wait_mutex | Wait_child | Wait_pid

text \<open>A log record is kept as its level and module; its wording is not modelled.\<close>

datatype kevent = Klog log_level string | Wakeup_tasks wait_reason

subsection \<open>Searching an index range\<close>

lemma find_upt_None:
  "find P [lo..<hi] = None \<longleftrightarrow> (\<forall>i. lo \<le> i \<and> i < hi \<longrightarrow> \<not> P i)"
  by (auto simp: find_None_iff)

lemma find_upt_SomeD:
  assumes "find P [lo..<hi] = Some i"
  shows "lo \<le> i" "i < hi" "P i" "\<And>j. lo \<le> j \<Longrightarrow> j < i \<Longrightarrow> \<not> P j"
proof -
  from assms obtain k where k: "k < hi - lo" "P (lo + k)" "i = lo + k" "\<forall>j<k. \<not> P (lo + j)"
    by (auto simp: find_Some_iff)
  show "lo \<le> i" "i < hi" "P i" using k by auto
  fix j assume "lo \<le> j" "j < i"
  then have "j - lo < k" "lo + (j - lo) = j" using k(3) by auto
  then show "\<not> P j" using k(4) by metis
qed

lemma find_upt_SomeI:
  assumes "lo \<le> i" "i < hi" "P i"
  shows "\<exists>j. find P [lo..<hi] = Some j"
  using assms by (cases "find P [lo..<hi]") (auto simp: find_upt_None)

subsection \<open>Lists and words\<close>

lemma nth_list_update_if:
  "i < length xs \<Longrightarrow> xs[i := v] ! j = (if j = i then v else xs ! j)"
  by simp

lemma unat_sub_Suc:
  fixes a b :: "'a::len word"
  assumes "a \<noteq> b"
  shows "unat (b - a) = Suc (unat (b - (a + 1)))"
proof -
  have "b - a \<noteq> 0" using assms by simp
  then have "unat (b - a) = Suc (unat (b - a - 1))"
    by (simp add: unat_minus_one unat_gt_0)
  then show ?thesis by (simp add: algebra_simps)
qed

lemma u32_ones: "(0xFFFFFFFF :: u32) = -1"
  by transfer simp

lemma unat_add_1:
  fixes a :: "'a::len word"
  assumes "Suc (unat a) < 2 ^ LENGTH('a)"
  shows "unat (a + 1) = Suc (unat a)"
  using assms by (simp add: unat_plus_if')

lemma unat_add_mod_dvd:
  fixes a :: "'a::len word"
  assumes "m dvd 2 ^ LENGTH('a)"
  shows "unat (a + of_nat k) mod m = (unat a mod m + k) mod m"
proof -
  have "unat (a + of_nat k) = (unat a + k) mod 2 ^ LENGTH('a)"
    by (simp add: unat_word_ariths unat_of_nat mod_simps)
  then show ?thesis using assms by (simp add: mod_mod_cancel mod_simps)
qed

subsection \<open>Systems of steps\<close>

text \<open>
  The contract every stateful component is put under: the states it starts in satisfy the
  invariant, and every operation keeps it.  What holds of every reachable state is proved
  once, here.
\<close>

locale state_system =
  fixes init :: "'s \<Rightarrow> bool"
    and step :: "'s \<Rightarrow> 's \<Rightarrow> bool"
    and inv :: "'s \<Rightarrow> bool"
  assumes init_inv: "init s \<Longrightarrow> inv s"
    and step_inv: "inv s \<Longrightarrow> step s t \<Longrightarrow> inv t"
begin

lemma steps_inv: "step\<^sup>*\<^sup>* s t \<Longrightarrow> inv s \<Longrightarrow> inv t"
  by (induction rule: rtranclp_induct) (auto intro: step_inv)

lemma reach_inv: "init s \<Longrightarrow> step\<^sup>*\<^sup>* s t \<Longrightarrow> inv t"
  by (blast intro: init_inv steps_inv)

end

subsection \<open>Byte channels\<close>

text \<open>
  The contract of a bounded channel: an offer is accepted up to some length and appended, a
  request takes a prefix away.  A run of offers and requests is recorded as the elements
  accepted and the elements delivered.
\<close>

datatype 'a chan_op = Put "'a list" | Get nat

fun chan_run :: "('c \<Rightarrow> 'a list \<Rightarrow> nat \<times> 'c) \<Rightarrow> ('c \<Rightarrow> nat \<Rightarrow> 'a list \<times> 'c) \<Rightarrow>
  'c \<Rightarrow> 'a chan_op list \<Rightarrow> 'a list \<times> 'a list \<times> 'c" where
  "chan_run put get c [] = ([], [], c)"
| "chan_run put get c (Put xs # ops) =
     (let (n, c1) = put c xs; (sent, got, c2) = chan_run put get c1 ops
      in (take n xs @ sent, got, c2))"
| "chan_run put get c (Get n # ops) =
     (let (ys, c1) = get c n; (sent, got, c2) = chan_run put get c1 ops
      in (sent, ys @ got, c2))"

locale byte_channel =
  fixes content :: "'c \<Rightarrow> 'a list"
    and inv :: "'c \<Rightarrow> bool"
    and put :: "'c \<Rightarrow> 'a list \<Rightarrow> nat \<times> 'c"
    and get :: "'c \<Rightarrow> nat \<Rightarrow> 'a list \<times> 'c"
  assumes put_content: "inv c \<Longrightarrow> put c xs = (n, c') \<Longrightarrow> content c' = content c @ take n xs"
    and put_inv: "inv c \<Longrightarrow> put c xs = (n, c') \<Longrightarrow> inv c'"
    and get_content: "inv c \<Longrightarrow> get c k = (ys, c') \<Longrightarrow> content c = ys @ content c'"
    and get_inv: "inv c \<Longrightarrow> get c k = (ys, c') \<Longrightarrow> inv c'"
begin

lemma run_order:
  "inv c \<Longrightarrow> chan_run put get c ops = (sent, got, c') \<Longrightarrow>
   content c @ sent = got @ content c' \<and> inv c'"
proof (induction ops arbitrary: c sent got c')
  case Nil
  then show ?case by simp
next
  case (Cons op ops)
  show ?case
  proof (cases op)
    case (Put xs)
    obtain n c1 where pc: "put c xs = (n, c1)" by fastforce
    obtain s g c2 where r: "chan_run put get c1 ops = (s, g, c2)" by (metis prod_cases3)
    from Cons.IH [OF put_inv [OF Cons.prems(1) pc] r] put_content [OF Cons.prems(1) pc]
    show ?thesis using Cons.prems(2) Put pc r by auto
  next
    case (Get k)
    obtain ys c1 where gc: "get c k = (ys, c1)" by fastforce
    obtain s g c2 where r: "chan_run put get c1 ops = (s, g, c2)" by (metis prod_cases3)
    from Cons.IH [OF get_inv [OF Cons.prems(1) gc] r] get_content [OF Cons.prems(1) gc]
    show ?thesis using Cons.prems(2) Get gc r by auto
  qed
qed

end

lemma unat_ucast_u16_u32 [simp]: "unat (ucast (w :: u16) :: u32) = unat w"
proof -
  have "unat w < 2 ^ 32" using unsigned_less [of w, where ?'a = nat] by simp
  then show ?thesis by (simp add: unsigned_ucast_eq take_bit_nat_eq_self)
qed

lemma unat_u32_less: "unat (x :: u32) < 4294967296"
  using unsigned_less [of x, where 'a = nat] by simp

lemma unat_add_u32: "unat a + unat b < 4294967296 \<Longrightarrow> unat (a + b :: u32) = unat a + unat b"
  by (simp add: unat_word_ariths)

subsection \<open>Little-endian bytes\<close>

definition le16 :: "u16 \<Rightarrow> u8 list" where
  "le16 w = [ucast w, ucast (drop_bit 8 w)]"

definition le32 :: "u32 \<Rightarrow> u8 list" where
  "le32 w = [ucast w, ucast (drop_bit 8 w), ucast (drop_bit 16 w), ucast (drop_bit 24 w)]"

definition of_le16 :: "u8 list \<Rightarrow> u16" where
  "of_le16 bs = ucast (bs ! 0) OR push_bit 8 (ucast (bs ! 1))"

definition of_le32 :: "u8 list \<Rightarrow> u32" where
  "of_le32 bs = ucast (bs ! 0) OR push_bit 8 (ucast (bs ! 1)) OR push_bit 16 (ucast (bs ! 2)) OR
     push_bit 24 (ucast (bs ! 3))"

lemma length_le [simp]: "length (le16 w) = 2" "length (le32 v) = 4"
  by (simp_all add: le16_def le32_def)

lemma of_le16_le16 [simp]: "of_le16 (le16 w) = w"
  by (rule bit_eqI) (auto simp: of_le16_def le16_def bit_simps)

lemma of_le32_le32 [simp]: "of_le32 (le32 w) = w"
proof (rule bit_word_eqI)
  fix n assume "n < LENGTH(32)"
  then consider "n < 8" | "8 \<le> n" "n < 16" | "16 \<le> n" "n < 24" | "24 \<le> n" "n < 32" by fastforce
  then show "bit (of_le32 (le32 w)) n = bit w n"
    by cases (auto simp: of_le32_def le32_def bit_simps)
qed

text \<open>A C string is what an array holds before its first zero byte.\<close>

definition cstr :: "u8 list \<Rightarrow> u8 list" where
  "cstr bs = takeWhile (\<lambda>b. b \<noteq> 0) bs"

lemma cstr_no_zero: "0 \<notin> set bs \<Longrightarrow> cstr bs = bs"
  unfolding cstr_def takeWhile_eq_all_conv by auto

lemma cstr_append_zero: "0 \<notin> set bs \<Longrightarrow> cstr (bs @ 0 # xs) = bs"
  unfolding cstr_def by (subst takeWhile_append2) auto

lemma zero_notin_cstr: "0 \<notin> set (cstr bs)"
  unfolding cstr_def using set_takeWhileD by fastforce

end
