(* ===== verification/Pipe.thy ===== *)
theory Pipe
  imports Prelude
begin

text \<open>
  Inter-process pipes, \<^verbatim>\<open>kernel/proc/pipe.c\<close>.  A pipe is a 4096-byte ring whose \<^verbatim>\<open>head\<close> and
  \<^verbatim>\<open>tail\<close> are free-running 32-bit counters: they are reduced modulo the ring size only when the
  buffer is indexed, and their difference, taken modulo \<open>2 ^ 32\<close>, is the number of bytes held.
  A pointer into the static pool is an index; \<open>None\<close> is the null pointer.
\<close>

subsection \<open>One pipe\<close>

abbreviation PIPE_SIZE :: nat where
  "PIPE_SIZE \<equiv> 4096"

record pipe_t =
  buffer :: "u8 list"
  head :: u32
  tail :: u32
  read_refs :: int
  write_refs :: int
  broken_reported :: bool

fun pipe_read_loop :: "nat \<Rightarrow> pipe_t \<Rightarrow> u8 list \<times> pipe_t" where
  "pipe_read_loop 0 p = ([], p)"
| "pipe_read_loop (Suc n) p =
     (if head p = tail p then ([], p)
      else let c = buffer p ! (unat (head p) mod PIPE_SIZE);
               (bs, p') = pipe_read_loop n (p\<lparr>head := head p + 1\<rparr>)
           in (c # bs, p'))"

fun pipe_write_loop :: "u8 list \<Rightarrow> pipe_t \<Rightarrow> nat \<times> pipe_t" where
  "pipe_write_loop [] p = (0, p)"
| "pipe_write_loop (c # cs) p =
     (if unat (tail p - head p) < PIPE_SIZE
      then let (n, p') = pipe_write_loop cs
                 (p\<lparr>buffer := (buffer p)[unat (tail p) mod PIPE_SIZE := c], tail := tail p + 1\<rparr>)
           in (Suc n, p')
      else (0, p))"

text \<open>
  \<open>buf_ok\<close> says the caller's buffer pointer is not null.  A successful read returns the bytes
  it stored at the front of the buffer, so the C return value is their number.
\<close>

definition pipe_read ::
  "pipe_t \<Rightarrow> bool \<Rightarrow> int \<Rightarrow> (errno + u8 list) \<times> pipe_t \<times> kevent list" where
  "pipe_read p buf_ok sz =
     (if \<not> buf_ok \<or> sz \<le> 0 then (Inl E_INVAL, p, [])
      else if head p = tail p then
        (if write_refs p \<le> 0 then (Inr [], p, []) else (Inl E_AGAIN, p, []))
      else let (bs, p') = pipe_read_loop (nat sz) p
           in (Inr bs, p', [Wakeup_tasks Wait_ipc]))"

text \<open>\<open>bs\<close> is the caller's buffer, of which the first \<open>sz\<close> bytes are offered.\<close>

definition pipe_write ::
  "pipe_t \<Rightarrow> u8 list option \<Rightarrow> int \<Rightarrow> (errno + nat) \<times> pipe_t \<times> kevent list" where
  "pipe_write p buf sz =
     (case buf of None \<Rightarrow> (Inl E_INVAL, p, [])
      | Some bs \<Rightarrow>
        (if sz \<le> 0 then (Inl E_INVAL, p, [])
         else if read_refs p \<le> 0 then
           (if \<not> broken_reported p
            then (Inl E_PIPE, p\<lparr>broken_reported := True\<rparr>,
                  [Klog Log_warn ''PIPE''])
            else (Inl E_PIPE, p, []))
         else if unat (tail p - head p) \<ge> PIPE_SIZE then (Inl E_AGAIN, p, [])
         else let (n, p') = pipe_write_loop (take (nat sz) bs) p
              in (Inr n, p', [Wakeup_tasks Wait_ipc])))"

subsection \<open>The ring as a bounded queue\<close>

definition pipe_ok :: "pipe_t \<Rightarrow> bool" where
  "pipe_ok p \<longleftrightarrow> length (buffer p) = PIPE_SIZE \<and> unat (tail p - head p) \<le> PIPE_SIZE"

definition pipe_content :: "pipe_t \<Rightarrow> u8 list" where
  "pipe_content p =
     map (\<lambda>k. buffer p ! (unat (head p + of_nat k) mod PIPE_SIZE)) [0..<unat (tail p - head p)]"

lemma length_pipe_content [simp]: "length (pipe_content p) = unat (tail p - head p)"
  by (simp add: pipe_content_def)

lemma pipe_reported [simp]:
  "pipe_content (p\<lparr>broken_reported := b\<rparr>) = pipe_content p"
  "pipe_ok (p\<lparr>broken_reported := b\<rparr>) = pipe_ok p"
  by (simp_all add: pipe_content_def pipe_ok_def)

lemma pipe_content_empty: "pipe_content p = [] \<longleftrightarrow> head p = tail p"
  by (auto simp: pipe_content_def unat_eq_0)

lemma ring_index: "unat (h + of_nat k :: u32) mod PIPE_SIZE = (unat h mod PIPE_SIZE + k) mod PIPE_SIZE"
  by (rule unat_add_mod_dvd) simp

lemma ring_index_distinct:
  assumes "k < m" "m < PIPE_SIZE"
  shows "unat (h + of_nat k :: u32) mod PIPE_SIZE \<noteq> unat (h + of_nat m :: u32) mod PIPE_SIZE"
proof
  assume "unat (h + of_nat k :: u32) mod PIPE_SIZE = unat (h + of_nat m :: u32) mod PIPE_SIZE"
  then have "(unat h + k) mod PIPE_SIZE = (unat h + m) mod PIPE_SIZE"
    by (simp only: ring_index mod_simps)
  then have "PIPE_SIZE dvd (unat h + m) - (unat h + k)"
    using assms by (metis mod_eq_dvd_iff_nat nat_add_left_cancel_le less_imp_le)
  then show False using assms by (auto dest: dvd_imp_le)
qed

lemma pipe_content_Cons:
  assumes "head p \<noteq> tail p"
  shows "pipe_content p =
    buffer p ! (unat (head p) mod PIPE_SIZE) # pipe_content (p\<lparr>head := head p + 1\<rparr>)"
  using unat_sub_Suc [OF assms]
  by (simp add: pipe_content_def upt_conv_Cons map_Suc_upt [symmetric] add.assoc o_def
      del: upt_Suc map_Suc_upt)

lemma pipe_content_snoc:
  assumes "length (buffer p) = PIPE_SIZE" "unat (tail p - head p) < PIPE_SIZE"
  shows "pipe_content (p\<lparr>buffer := (buffer p)[unat (tail p) mod PIPE_SIZE := c], tail := tail p + 1\<rparr>)
    = pipe_content p @ [c]"
proof -
  let ?m = "unat (tail p - head p)"
  have m1: "unat (tail p + 1 - head p) = Suc ?m"
    using unat_add_1 [of "tail p - head p"] assms(2) by (simp add: diff_add_eq)
  have tl: "tail p = head p + of_nat ?m" by simp
  have "\<And>k. k < ?m \<Longrightarrow> unat (head p + of_nat k) mod PIPE_SIZE \<noteq> unat (tail p) mod PIPE_SIZE"
    using ring_index_distinct assms(2) tl by metis
  then show ?thesis
    using assms(1) by (auto simp: pipe_content_def m1 nth_list_update_if)
qed

lemma pipe_read_loop_spec:
  "pipe_ok p \<Longrightarrow> pipe_read_loop n p = (bs, p') \<Longrightarrow>
   bs = take n (pipe_content p) \<and> pipe_content p' = drop n (pipe_content p) \<and> pipe_ok p' \<and>
   buffer p' = buffer p \<and> tail p' = tail p \<and> read_refs p' = read_refs p \<and>
   write_refs p' = write_refs p \<and> broken_reported p' = broken_reported p"
proof (induction n arbitrary: p bs p')
  case 0
  then show ?case by auto
next
  case (Suc n)
  show ?case
  proof (cases "head p = tail p")
    case True
    with Suc.prems have "bs = []" "p' = p" "pipe_content p = []" by (auto simp: pipe_content_empty)
    with Suc.prems show ?thesis by simp
  next
    case False
    let ?q = "p\<lparr>head := head p + 1\<rparr>"
    obtain cs where cs: "pipe_read_loop n ?q = (cs, p')"
      "bs = buffer p ! (unat (head p) mod PIPE_SIZE) # cs"
      using Suc.prems(2) False by (auto split: prod.splits)
    have "pipe_ok ?q" using Suc.prems(1) unat_sub_Suc [OF False] by (simp add: pipe_ok_def)
    from Suc.IH [OF this cs(1)] show ?thesis
      using cs(2) pipe_content_Cons [OF False] by simp
  qed
qed

lemma pipe_write_loop_spec:
  "pipe_ok p \<Longrightarrow> pipe_write_loop bs p = (n, p') \<Longrightarrow>
   n = min (length bs) (PIPE_SIZE - length (pipe_content p)) \<and>
   pipe_content p' = pipe_content p @ take n bs \<and> pipe_ok p' \<and> head p' = head p \<and>
   read_refs p' = read_refs p \<and> write_refs p' = write_refs p \<and>
   broken_reported p' = broken_reported p"
proof (induction bs arbitrary: p n p')
  case Nil
  then show ?case by auto
next
  case (Cons c cs)
  show ?case
  proof (cases "unat (tail p - head p) < PIPE_SIZE")
    case False
    with Cons.prems show ?thesis by auto
  next
    case True
    let ?q = "p\<lparr>buffer := (buffer p)[unat (tail p) mod PIPE_SIZE := c], tail := tail p + 1\<rparr>"
    obtain k where k: "pipe_write_loop cs ?q = (k, p')" "n = Suc k"
      using Cons.prems(2) True by (auto split: prod.splits)
    have len: "length (buffer p) = PIPE_SIZE" using Cons.prems(1) by (simp add: pipe_ok_def)
    have q: "pipe_content ?q = pipe_content p @ [c]" using pipe_content_snoc [OF len True] .
    then have ql: "unat (tail ?q - head ?q) = Suc (length (pipe_content p))"
      by (metis length_append_singleton length_pipe_content)
    then have "pipe_ok ?q" using True len by (simp add: pipe_ok_def)
    from Cons.IH [OF this k(1)] show ?thesis
      using k(2) True q ql by auto
  qed
qed

subsection \<open>What a caller sees of one pipe\<close>

lemma pipe_write_ok_spec:
  assumes "pipe_ok p" "pipe_write p (Some bs) sz = (r, p', ev)"
  shows "pipe_ok p' \<and> head p' = head p \<and> read_refs p' = read_refs p \<and> write_refs p' = write_refs p \<and>
    (case r of Inl e \<Rightarrow> pipe_content p' = pipe_content p
     | Inr n \<Rightarrow> pipe_content p' = pipe_content p @ take n (take (nat sz) bs) \<and>
         n = min (length (take (nat sz) bs)) (PIPE_SIZE - length (pipe_content p)))"
proof -
  obtain n q where l: "pipe_write_loop (take (nat sz) bs) p = (n, q)" by fastforce
  note w = pipe_write_loop_spec [OF assms(1) l]
  show ?thesis
  proof (cases "0 < sz \<and> 0 < read_refs p \<and> unat (tail p - head p) < PIPE_SIZE")
    case True
    then have "r = Inr n" "p' = q" using assms(2) by (simp_all add: pipe_write_def l)
    then show ?thesis using w by simp
  next
    case False
    then have "\<exists>e b. r = Inl e \<and> (p' = p \<or> p' = p\<lparr>broken_reported := b\<rparr>)"
      using assms(2) unfolding pipe_write_def option.case by (auto simp only: prod.inject split: if_splits)
    then show ?thesis using assms(1) by auto
  qed
qed

lemma pipe_read_ok_spec:
  assumes "pipe_ok p" "pipe_read p b sz = (r, p', ev)"
  shows "pipe_ok p' \<and> tail p' = tail p \<and> read_refs p' = read_refs p \<and> write_refs p' = write_refs p \<and>
    (case r of Inl e \<Rightarrow> p' = p
     | Inr bs \<Rightarrow> bs = take (nat sz) (pipe_content p) \<and>
         pipe_content p' = drop (nat sz) (pipe_content p))"
proof -
  obtain bs q where l: "pipe_read_loop (nat sz) p = (bs, q)" by fastforce
  have "(r, p') \<in> {(Inl E_INVAL, p), (Inl E_AGAIN, p), (Inr bs, q)} \<or>
      (r = Inr [] \<and> p' = p \<and> pipe_content p = [])"
    using assms(2) pipe_content_empty [of p] by (simp add: pipe_read_def l split: if_splits)
  then show ?thesis using assms(1) pipe_read_loop_spec [OF assms(1) l] by auto
qed

text \<open>A caller that treats every refusal as nothing moved, which is what a blocked task does.\<close>

definition pipe_put :: "pipe_t \<Rightarrow> u8 list \<Rightarrow> nat \<times> pipe_t" where
  "pipe_put p bs = (case pipe_write p (Some bs) (int (length bs)) of
     (Inl e, p', ev) \<Rightarrow> (0, p') | (Inr n, p', ev) \<Rightarrow> (n, p'))"

definition pipe_get :: "pipe_t \<Rightarrow> nat \<Rightarrow> u8 list \<times> pipe_t" where
  "pipe_get p n = (case pipe_read p True (int n) of
     (Inl e, p', ev) \<Rightarrow> ([], p') | (Inr bs, p', ev) \<Rightarrow> (bs, p'))"

interpretation pq: byte_channel pipe_content pipe_ok pipe_put pipe_get
proof
  fix c c' :: pipe_t and xs ys :: "u8 list" and n k :: nat
  assume ok: "pipe_ok c"
  { assume "pipe_put c xs = (n, c')"
    then obtain r ev where w: "pipe_write c (Some xs) (int (length xs)) = (r, c', ev)"
      and n: "n = (case r of Inl e \<Rightarrow> 0 | Inr m \<Rightarrow> m)"
      by (auto simp: pipe_put_def split: prod.splits sum.splits)
    from pipe_write_ok_spec [OF ok w] n
    show "pipe_content c' = pipe_content c @ take n xs" "pipe_ok c'"
      by (auto split: sum.splits) }
  { assume "pipe_get c k = (ys, c')"
    then obtain r ev where g: "pipe_read c True (int k) = (r, c', ev)"
      and y: "ys = (case r of Inl e \<Rightarrow> [] | Inr bs \<Rightarrow> bs)"
      by (auto simp: pipe_get_def split: prod.splits sum.splits)
    from pipe_read_ok_spec [OF ok g] y
    show "pipe_content c = ys @ pipe_content c'" "pipe_ok c'"
      by (auto split: sum.splits) }
qed

subsection \<open>The pool\<close>

definition MAX_SYSTEM_PIPES :: nat where
  "MAX_SYSTEM_PIPES = 16"

record pipe_pool_t =
  pipe_pool :: "pipe_t list"
  pipe_active :: "int list"
  pipe_names :: "string list"

definition create_pipe :: "pipe_pool_t \<Rightarrow> nat option \<times> pipe_pool_t" where
  "create_pipe s =
     (case find (\<lambda>i. pipe_active s ! i = 0) [0..<MAX_SYSTEM_PIPES] of
        None \<Rightarrow> (None, s)
      | Some i \<Rightarrow>
          (Some i, s\<lparr>pipe_active := (pipe_active s)[i := 1],
                     pipe_names := (pipe_names s)[i := []],
                     pipe_pool := (pipe_pool s)[i := (pipe_pool s ! i)
                       \<lparr>head := 0, tail := 0, read_refs := 1, write_refs := 1,
                        broken_reported := False\<rparr>]\<rparr>))"

text \<open>The name field has 32 bytes, terminator included: \<^verbatim>\<open>ft_strlcpy\<close> keeps at most 31 characters.\<close>

definition get_or_create_named_pipe :: "pipe_pool_t \<Rightarrow> string \<Rightarrow> nat option \<times> pipe_pool_t" where
  "get_or_create_named_pipe s name =
     (case find (\<lambda>i. pipe_active s ! i = 1 \<and> pipe_names s ! i = name) [0..<MAX_SYSTEM_PIPES] of
        Some i \<Rightarrow> (Some i, s)
      | None \<Rightarrow>
          (case create_pipe s of
             (None, s') \<Rightarrow> (None, s')
           | (Some i, s') \<Rightarrow> (Some i, s'\<lparr>pipe_names := (pipe_names s')[i := take 31 name]\<rparr>)))"

definition destroy_pipe :: "pipe_pool_t \<Rightarrow> nat option \<Rightarrow> pipe_pool_t" where
  "destroy_pipe s p =
     (case p of None \<Rightarrow> s
      | Some i \<Rightarrow>
          (if i < MAX_SYSTEM_PIPES
           then s\<lparr>pipe_active := (pipe_active s)[i := 0],
                  pipe_names := (pipe_names s)[i := []],
                  pipe_pool := (pipe_pool s)[i := (pipe_pool s ! i)\<lparr>read_refs := 0, write_refs := 0\<rparr>]\<rparr>
           else s))"

text \<open>Reads and writes through a pointer: the null test, then the pipe it points at.\<close>

definition pool_read :: "pipe_pool_t \<Rightarrow> nat option \<Rightarrow> bool \<Rightarrow> int \<Rightarrow>
  (errno + u8 list) \<times> pipe_pool_t \<times> kevent list" where
  "pool_read s p buf_ok sz =
     (case p of None \<Rightarrow> (Inl E_INVAL, s, [])
      | Some i \<Rightarrow> (case pipe_read (pipe_pool s ! i) buf_ok sz of
          (r, q, ev) \<Rightarrow> (r, s\<lparr>pipe_pool := (pipe_pool s)[i := q]\<rparr>, ev)))"

definition pool_write :: "pipe_pool_t \<Rightarrow> nat option \<Rightarrow> u8 list option \<Rightarrow> int \<Rightarrow>
  (errno + nat) \<times> pipe_pool_t \<times> kevent list" where
  "pool_write s p buf sz =
     (case p of None \<Rightarrow> (Inl E_INVAL, s, [])
      | Some i \<Rightarrow> (case pipe_write (pipe_pool s ! i) buf sz of
          (r, q, ev) \<Rightarrow> (r, s\<lparr>pipe_pool := (pipe_pool s)[i := q]\<rparr>, ev)))"

text \<open>The static initial state: everything zero.\<close>

definition pool_init :: pipe_pool_t where
  "pool_init = \<lparr>pipe_pool = replicate MAX_SYSTEM_PIPES
       \<lparr>buffer = replicate PIPE_SIZE 0, head = 0, tail = 0, read_refs = 0, write_refs = 0,
        broken_reported = False\<rparr>,
     pipe_active = replicate MAX_SYSTEM_PIPES 0, pipe_names = replicate MAX_SYSTEM_PIPES []\<rparr>"

definition pool_inv :: "pipe_pool_t \<Rightarrow> bool" where
  "pool_inv s \<longleftrightarrow> length (pipe_pool s) = MAX_SYSTEM_PIPES \<and> length (pipe_active s) = MAX_SYSTEM_PIPES \<and>
     length (pipe_names s) = MAX_SYSTEM_PIPES \<and> (\<forall>p \<in> set (pipe_pool s). pipe_ok p) \<and>
     (\<forall>a \<in> set (pipe_active s). a = 0 \<or> a = 1)"

text \<open>The descriptor layer counts the ends of a pipe itself, on \<^verbatim>\<open>dup\<close>, \<^verbatim>\<open>fork\<close> and \<^verbatim>\<open>close\<close>.\<close>

definition set_refs :: "pipe_pool_t \<Rightarrow> nat \<Rightarrow> int \<Rightarrow> int \<Rightarrow> pipe_pool_t" where
  "set_refs s i r w =
     s\<lparr>pipe_pool := (pipe_pool s)[i := (pipe_pool s ! i)\<lparr>read_refs := r, write_refs := w\<rparr>]\<rparr>"

inductive pool_step :: "pipe_pool_t \<Rightarrow> pipe_pool_t \<Rightarrow> bool" where
  create: "create_pipe s = (r, t) \<Longrightarrow> pool_step s t"
| named: "get_or_create_named_pipe s name = (r, t) \<Longrightarrow> pool_step s t"
| destroy: "pool_step s (destroy_pipe s p)"
| writing: "(\<And>i. p = Some i \<Longrightarrow> i < MAX_SYSTEM_PIPES) \<Longrightarrow> pool_write s p buf sz = (n, t, ev) \<Longrightarrow>
     pool_step s t"
| reading: "(\<And>i. p = Some i \<Longrightarrow> i < MAX_SYSTEM_PIPES) \<Longrightarrow> pool_read s p b sz = (bs, t, ev) \<Longrightarrow>
     pool_step s t"
| counting: "i < MAX_SYSTEM_PIPES \<Longrightarrow> pool_step s (set_refs s i r w)"

lemma pipe_ok_nth: "pool_inv s \<Longrightarrow> i < MAX_SYSTEM_PIPES \<Longrightarrow> pipe_ok (pipe_pool s ! i)"
  by (simp add: pool_inv_def)

lemma pool_inv_upd:
  assumes "pool_inv s" "pipe_ok q"
  shows "pool_inv (s\<lparr>pipe_pool := (pipe_pool s)[i := q]\<rparr>)"
  using assms set_update_subset_insert [of "pipe_pool s" i q] by (auto simp: pool_inv_def)

lemma pool_inv_active:
  assumes "pool_inv s" "a = 0 \<or> a = 1"
  shows "pool_inv (s\<lparr>pipe_active := (pipe_active s)[i := a], pipe_names := (pipe_names s)[i := n]\<rparr>)"
  using assms set_update_subset_insert [of "pipe_active s" i a] by (auto simp: pool_inv_def)

lemma create_pipe_inv [os_inv]:
  assumes "pool_inv s" "create_pipe s = (r, t)"
  shows "pool_inv t"
proof (cases "find (\<lambda>i. pipe_active s ! i = 0) [0..<MAX_SYSTEM_PIPES]")
  case None
  then show ?thesis using assms by (simp add: create_pipe_def)
next
  case (Some i)
  let ?q = "(pipe_pool s ! i)\<lparr>head := 0, tail := 0, read_refs := 1, write_refs := 1, broken_reported := False\<rparr>"
  have "pipe_ok ?q"
    using pipe_ok_nth [OF assms(1) find_upt_SomeD(2) [OF Some]] by (simp add: pipe_ok_def)
  from pool_inv_upd [OF pool_inv_active [OF assms(1), of 1 i "[]"] this, of i]
  show ?thesis using assms(2) Some by (simp add: create_pipe_def)
qed

lemma named_pipe_inv [os_inv]:
  assumes "pool_inv s" "get_or_create_named_pipe s name = (r, t)"
  shows "pool_inv t"
proof -
  obtain r1 s1 where c: "create_pipe s = (r1, s1)" by fastforce
  from create_pipe_inv [OF assms(1) c] show ?thesis
    using assms c by (auto simp: get_or_create_named_pipe_def pool_inv_def split: option.splits)
qed

lemma destroy_pipe_inv [os_inv]:
  assumes "pool_inv s"
  shows "pool_inv (destroy_pipe s p)"
proof (cases "\<exists>i. p = Some i \<and> i < MAX_SYSTEM_PIPES")
  case False
  then show ?thesis using assms by (auto simp: destroy_pipe_def split: option.splits)
next
  case True
  then obtain i where i: "p = Some i" "i < MAX_SYSTEM_PIPES" by blast
  have "pipe_ok ((pipe_pool s ! i)\<lparr>read_refs := 0, write_refs := 0\<rparr>)"
    using pipe_ok_nth [OF assms i(2)] by (simp add: pipe_ok_def)
  from pool_inv_upd [OF pool_inv_active [OF assms, of 0 i "[]"] this, of i]
  show ?thesis using i by (simp add: destroy_pipe_def)
qed

lemma pool_write_inv [os_inv]:
  assumes "pool_inv s" "\<And>i. p = Some i \<Longrightarrow> i < MAX_SYSTEM_PIPES" "pool_write s p buf sz = (r, t, ev)"
  shows "pool_inv t"
proof (cases "p = None \<or> buf = None")
  case True
  then show ?thesis using assms
    by (auto simp: pool_write_def pipe_write_def list_update_id split: option.splits)
next
  case False
  then obtain i bs where i: "p = Some i" "buf = Some bs" by auto
  obtain r1 q ev1 where w: "pipe_write (pipe_pool s ! i) (Some bs) sz = (r1, q, ev1)"
    by (metis prod_cases3)
  have "pipe_ok q" using pipe_write_ok_spec [OF pipe_ok_nth [OF assms(1) assms(2) [OF i(1)]] w] by simp
  then show ?thesis using assms(1,3) i w pool_inv_upd by (auto simp: pool_write_def)
qed

lemma pool_read_inv [os_inv]:
  assumes "pool_inv s" "\<And>i. p = Some i \<Longrightarrow> i < MAX_SYSTEM_PIPES" "pool_read s p b sz = (r, t, ev)"
  shows "pool_inv t"
proof (cases p)
  case None
  then show ?thesis using assms by (simp add: pool_read_def)
next
  case (Some i)
  obtain r1 q ev1 where w: "pipe_read (pipe_pool s ! i) b sz = (r1, q, ev1)" by (metis prod_cases3)
  have "pipe_ok q" using pipe_read_ok_spec [OF pipe_ok_nth [OF assms(1) assms(2) [OF Some]] w] by simp
  then show ?thesis using assms(1,3) Some w pool_inv_upd by (auto simp: pool_read_def)
qed

lemma set_refs_inv [os_inv]: "pool_inv s \<Longrightarrow> i < MAX_SYSTEM_PIPES \<Longrightarrow> pool_inv (set_refs s i r w)"
  unfolding set_refs_def by (rule pool_inv_upd) (auto dest: pipe_ok_nth simp: pipe_ok_def)

interpretation pool_sys: state_system "\<lambda>s. s = pool_init" pool_step pool_inv
proof
  fix s t :: pipe_pool_t
  show "s = pool_init \<Longrightarrow> pool_inv s" by (simp add: pool_init_def pool_inv_def pipe_ok_def)
  assume "pool_inv s" "pool_step s t"
  from this(2,1) show "pool_inv t"
    by (induction rule: pool_step.induct) (blast intro: os_inv)+
qed

subsection \<open>Every branch of a write and of a creation\<close>

lemma pipe_write_branches:
  assumes "pipe_ok p" "nat sz \<le> length bs" "pipe_write p (Some bs) sz = (r, p', ev)"
  shows "if sz \<le> 0 then r = Inl E_INVAL \<and> p' = p
    else if read_refs p \<le> 0 then r = Inl E_PIPE \<and> pipe_content p' = pipe_content p
    else if length (pipe_content p) = PIPE_SIZE then r = Inl E_AGAIN \<and> pipe_content p' = pipe_content p
    else \<exists>n. r = Inr n \<and> 0 < n \<and> n = min (nat sz) (PIPE_SIZE - length (pipe_content p)) \<and>
             pipe_content p' = pipe_content p @ take n bs \<and> ev = [Wakeup_tasks Wait_ipc]"
proof -
  obtain n q where l: "pipe_write_loop (take (nat sz) bs) p = (n, q)" by fastforce
  have le: "unat (tail p - head p) \<le> PIPE_SIZE" using assms(1) by (simp add: pipe_ok_def)
  consider "sz \<le> 0" | "0 < sz" "read_refs p \<le> 0"
    | "0 < sz" "0 < read_refs p" "unat (tail p - head p) = PIPE_SIZE"
    | "0 < sz" "0 < read_refs p" "unat (tail p - head p) < PIPE_SIZE" using le by linarith
  then show ?thesis
  proof cases
    case 2
    then have "r = Inl E_PIPE \<and> (p' = p \<or> p' = p\<lparr>broken_reported := True\<rparr>)"
      using assms(3) unfolding pipe_write_def option.case by (auto simp only: prod.inject split: if_splits)
    then show ?thesis using 2 by auto
  next
    case 4
    then have "r = Inr n" "p' = q" "ev = [Wakeup_tasks Wait_ipc]"
      using assms(3) by (simp_all add: pipe_write_def l)
    then show ?thesis using 4 assms(2) pipe_write_loop_spec [OF assms(1) l] by (auto simp: min_def)
  qed (use assms(3) in \<open>simp_all add: pipe_write_def\<close>)
qed


subsection \<open>Properties\<close>

text \<open>
  (C8) A pipe is a queue.  On any pipe of any pool the kernel can reach, however reads and writes
  of any sizes are interleaved and however often the 32-bit indices have wrapped: what was in
  the ring followed by the bytes the writers were told were accepted is what the readers got
  followed by what is still in the ring.  No byte is lost, repeated or reordered.
\<close>

theorem pipe_stream_order:
  assumes "pool_step\<^sup>*\<^sup>* pool_init s" "i < MAX_SYSTEM_PIPES"
    and "chan_run pipe_put pipe_get (pipe_pool s ! i) ops = (sent, got, p')"
  shows "pipe_content (pipe_pool s ! i) @ sent = got @ pipe_content p'"
  using pq.run_order [OF pipe_ok_nth [OF pool_sys.reach_inv [OF refl assms(1)] assms(2)] assms(3)] by simp

theorem pipe_stream_order_witness:
  "\<exists>s sent got p'. pool_step\<^sup>*\<^sup>* pool_init s \<and> 0 < MAX_SYSTEM_PIPES \<and>
     chan_run pipe_put pipe_get (pipe_pool s ! 0) [Put [1, 2, 3], Get 2, Put [4]] = (sent, got, p') \<and>
     pipe_content (pipe_pool s ! 0) = [] \<and> sent = got @ pipe_content p'"
proof -
  let ?s = "set_refs pool_init 0 1 1"
  have lt: "0 < MAX_SYSTEM_PIPES" by (simp add: MAX_SYSTEM_PIPES_def)
  have r: "pool_step\<^sup>*\<^sup>* pool_init ?s" using counting [OF lt] by blast
  obtain sent got p' where c: "chan_run pipe_put pipe_get (pipe_pool ?s ! 0)
    [Put [1, 2, 3], Get 2, Put [4]] = (sent, got, p')" by (metis prod_cases3)
  have "pipe_content (pipe_pool ?s ! 0) = []"
    using lt by (simp add: pipe_content_empty set_refs_def pool_init_def)
  then show ?thesis using pipe_stream_order [OF r lt c] r lt c by auto
qed

text \<open>
  (C14) What a writer is told.  With a buffer of at least \<open>sz\<close> bytes: an empty request is refused;
  with no reader left the write fails with \<open>E_PIPE\<close>; on a full pipe it fails with \<open>E_AGAIN\<close>;
  otherwise the pipe takes exactly as many bytes as fit, from the front of the buffer, at
  least one of them, and wakes the readers.  A failed write leaves the bytes in the pipe alone.
\<close>

theorem pipe_write_outcome:
  assumes "pipe_ok p" "nat sz \<le> length bs" "pipe_write p (Some bs) sz = (r, p', ev)"
  shows "if sz \<le> 0 then r = Inl E_INVAL \<and> p' = p
    else if read_refs p \<le> 0 then r = Inl E_PIPE \<and> pipe_content p' = pipe_content p
    else if length (pipe_content p) = PIPE_SIZE then r = Inl E_AGAIN \<and> pipe_content p' = pipe_content p
    else \<exists>n. r = Inr n \<and> 0 < n \<and> n = min (nat sz) (PIPE_SIZE - length (pipe_content p)) \<and>
             pipe_content p' = pipe_content p @ take n bs \<and> ev = [Wakeup_tasks Wait_ipc]"
  by (rule pipe_write_branches [OF assms])

theorem pipe_write_outcome_witness:
  "let p = \<lparr>buffer = replicate PIPE_SIZE 0, head = 0xFFFFFFFF, tail = 0xFFFFFFFF, read_refs = 1,
     write_refs = 1, broken_reported = False\<rparr> in
   pipe_ok p \<and> fst (pipe_write p (Some [7, 8]) 2) = Inr 2"
proof -
  let ?p = "\<lparr>buffer = replicate PIPE_SIZE 0, head = 0xFFFFFFFF, tail = 0xFFFFFFFF, read_refs = 1,
     write_refs = 1, broken_reported = False\<rparr>"
  have ok: "pipe_ok ?p" by (simp add: pipe_ok_def)
  obtain r p' ev where w: "pipe_write ?p (Some [7, 8]) 2 = (r, p', ev)" by (metis prod_cases3)
  show ?thesis using pipe_write_outcome [OF ok _ w] ok w by (simp add: Let_def)
qed



end
