(* ===== verification/Pmm.thy ===== *)
theory Pmm
  imports Prelude
begin

text \<open>
  The physical memory manager, \<^verbatim>\<open>mm/pmm.c\<close>: one bit per 4 KB frame, one byte of reference
  count per frame behind it, and a hint that every bitmap word below it is full.  The state
  is the file's globals.  Addresses and the C \<^verbatim>\<open>uint32_t\<close> variables are 32-bit words; indices
  into the two tables are the natural numbers they denote.  The spinlock is not modelled: the
  kernel runs on one processor and every section it guards runs to its end.
\<close>

abbreviation PAGE_SIZE :: nat where
  "PAGE_SIZE \<equiv> 4096"

text \<open>Frames below 1 MB, \<^verbatim>\<open>0x100000u / PAGE_SIZE\<close>.\<close>

definition PMM_LOW_MEMORY_FRAMES :: nat where
  "PMM_LOW_MEMORY_FRAMES = 0x100000 div PAGE_SIZE"

abbreviation NO_FRAME :: u32 where
  "NO_FRAME \<equiv> 0xFFFFFFFF"

record pmm_state =
  pmm_bitmap :: "u32 list"
  pmm_bitmap_size_words :: u32
  pmm_frames_count :: u32
  used_memory :: u32
  actual_total_memory :: u32
  pmm_refcount :: "u8 list"
  lowest_free_idx :: u32

subsection \<open>Bits of the map\<close>

definition frame_bit :: "u32 list \<Rightarrow> nat \<Rightarrow> bool" where
  "frame_bit bm f \<longleftrightarrow> bm ! (f div 32) AND push_bit (f mod 32) 1 \<noteq> 0"

definition set_frame :: "nat \<Rightarrow> u32 list \<Rightarrow> u32 list" where
  "set_frame f bm = bm[f div 32 := bm ! (f div 32) OR push_bit (f mod 32) 1]"

definition clear_frame :: "nat \<Rightarrow> u32 list \<Rightarrow> u32 list" where
  "clear_frame f bm = bm[f div 32 := bm ! (f div 32) AND NOT (push_bit (f mod 32) 1)]"

definition first_clear_bit :: "u32 \<Rightarrow> nat option" where
  "first_clear_bit w = find (\<lambda>j. w AND push_bit j 1 = 0) [0..<32]"

definition pmm_find_first_free :: "pmm_state \<Rightarrow> u32 \<times> pmm_state" where
  "pmm_find_first_free s =
     (case find (\<lambda>i. pmm_bitmap s ! i \<noteq> 0xFFFFFFFF \<and> first_clear_bit (pmm_bitmap s ! i) \<noteq> None)
             [unat (lowest_free_idx s)..<unat (pmm_bitmap_size_words s)] of
        None \<Rightarrow> (NO_FRAME, s)
      | Some i \<Rightarrow>
          (of_nat i * 32 + of_nat (the (first_clear_bit (pmm_bitmap s ! i))),
           s\<lparr>lowest_free_idx := of_nat i\<rparr>))"

subsection \<open>Allocation and release\<close>

definition pmm_alloc_frame :: "pmm_state \<Rightarrow> u32 \<times> pmm_state" where
  "pmm_alloc_frame s =
     (let (frame, s1) = pmm_find_first_free s in
      if frame = NO_FRAME \<or> pmm_frames_count s1 \<le> frame then (NO_FRAME, s1)
      else (frame * 4096,
            s1\<lparr>pmm_bitmap := set_frame (unat frame) (pmm_bitmap s1),
               pmm_refcount := (pmm_refcount s1)[unat frame := 1],
               used_memory := used_memory s1 + 4096\<rparr>))"

definition pmm_ref_frame :: "pmm_state \<Rightarrow> u32 \<Rightarrow> pmm_state \<times> kevent list" where
  "pmm_ref_frame s addr =
     (let frame = unat (addr div 4096) in
      if frame < PMM_LOW_MEMORY_FRAMES then (s, [])
      else if unat (pmm_frames_count s) \<le> frame then (s, [])
      else if \<not> frame_bit (pmm_bitmap s) frame then (s, [Klog Log_error ''PMM''])
      else if pmm_refcount s ! frame = 0xFF then (s, [Klog Log_error ''PMM''])
      else let c = (if pmm_refcount s ! frame = 0 then 1 else pmm_refcount s ! frame)
           in (s\<lparr>pmm_refcount := (pmm_refcount s)[frame := c + 1]\<rparr>, []))"

definition pmm_frame_refcount :: "pmm_state \<Rightarrow> u32 \<Rightarrow> u32" where
  "pmm_frame_refcount s addr =
     (let frame = unat (addr div 4096) in
      if unat (pmm_frames_count s) \<le> frame then 0 else ucast (pmm_refcount s ! frame))"

definition pmm_get_shared_frames :: "pmm_state \<Rightarrow> u32" where
  "pmm_get_shared_frames s =
     fold (\<lambda>i count. if 1 < pmm_refcount s ! i then count + 1 else count)
       [0..<unat (pmm_frames_count s)] 0"

definition pmm_free_frame :: "pmm_state \<Rightarrow> u32 \<Rightarrow> pmm_state" where
  "pmm_free_frame s addr =
     (let frame = unat (addr div 4096) in
      if frame < PMM_LOW_MEMORY_FRAMES then s
      else if unat (pmm_frames_count s) \<le> frame then s
      else if \<not> frame_bit (pmm_bitmap s) frame then s
      else if 1 < pmm_refcount s ! frame
           then s\<lparr>pmm_refcount := (pmm_refcount s)[frame := pmm_refcount s ! frame - 1]\<rparr>
      else s\<lparr>pmm_refcount := (pmm_refcount s)[frame := 0],
             pmm_bitmap := clear_frame frame (pmm_bitmap s),
             used_memory := used_memory s - 4096,
             lowest_free_idx :=
               (if frame div 32 < unat (lowest_free_idx s) then of_nat (frame div 32)
                else lowest_free_idx s)\<rparr>)"

definition pmm_get_total_memory :: "pmm_state \<Rightarrow> u32" where
  "pmm_get_total_memory s = actual_total_memory s"

definition pmm_get_free_memory :: "pmm_state \<Rightarrow> u32" where
  "pmm_get_free_memory s =
     (if actual_total_memory s < used_memory s then 0
      else actual_total_memory s - used_memory s)"

subsection \<open>Facts on the map\<close>

lemma frame_bit_iff: "frame_bit bm f \<longleftrightarrow> bit (bm ! (f div 32)) (f mod 32)"
  by (simp add: frame_bit_def bit_iff_and_push_bit_not_eq_0)

lemma div_mod_32_eq: "(g::nat) div 32 = f div 32 \<Longrightarrow> g mod 32 = f mod 32 \<Longrightarrow> g = f"
  by (metis mult_div_mod_eq)

lemma frame_bit_set:
  assumes "f div 32 < length bm"
  shows "frame_bit (set_frame f bm) g \<longleftrightarrow> g = f \<or> frame_bit bm g"
  using assms div_mod_32_eq [of g f]
  by (auto simp: frame_bit_iff set_frame_def nth_list_update bit_simps)

lemma frame_bit_clear:
  assumes "f div 32 < length bm"
  shows "frame_bit (clear_frame f bm) g \<longleftrightarrow> g \<noteq> f \<and> frame_bit bm g"
  using assms div_mod_32_eq [of g f]
  by (auto simp: frame_bit_iff clear_frame_def nth_list_update bit_simps)

lemma length_set_frame [simp]: "length (set_frame f bm) = length bm"
  and length_clear_frame [simp]: "length (clear_frame f bm) = length bm"
  by (simp_all add: set_frame_def clear_frame_def)

lemma first_clear_bit_None: "first_clear_bit w = None \<longleftrightarrow> w = 0xFFFFFFFF"
proof -
  have "first_clear_bit w = None \<longleftrightarrow> (\<forall>j<32. bit w j)"
    by (simp add: first_clear_bit_def find_upt_None bit_iff_and_push_bit_not_eq_0)
  also have "\<dots> \<longleftrightarrow> w = -1"
    by (auto simp: bit_eq_iff)
  finally show ?thesis by (simp add: u32_ones)
qed

lemma first_clear_bit_SomeD:
  assumes "first_clear_bit w = Some j"
  shows "j < 32" "\<not> bit w j" "\<And>k. k < j \<Longrightarrow> bit w k"
  using find_upt_SomeD [OF assms [unfolded first_clear_bit_def]]
  by (simp_all add: bit_iff_and_push_bit_not_eq_0)

subsection \<open>The invariant\<close>

abbreviation frames :: "pmm_state \<Rightarrow> nat" where
  "frames s \<equiv> unat (pmm_frames_count s)"

definition used_frames :: "pmm_state \<Rightarrow> nat set" where
  "used_frames s = {f. f < frames s \<and> frame_bit (pmm_bitmap s) f}"

definition pmm_shape :: "pmm_state \<Rightarrow> bool" where
  "pmm_shape s \<longleftrightarrow>
     length (pmm_bitmap s) = unat (pmm_bitmap_size_words s) \<and>
     unat (pmm_bitmap_size_words s) = (frames s + 31) div 32 \<and>
     length (pmm_refcount s) = frames s \<and>
     frames s = unat (actual_total_memory s) div PAGE_SIZE"

definition pmm_inv :: "pmm_state \<Rightarrow> bool" where
  "pmm_inv s \<longleftrightarrow> pmm_shape s \<and>
     (\<forall>f < frames s. frame_bit (pmm_bitmap s) f \<longleftrightarrow> pmm_refcount s ! f \<noteq> 0) \<and>
     (\<forall>f. frames s \<le> f \<and> f < 32 * length (pmm_bitmap s) \<longrightarrow> frame_bit (pmm_bitmap s) f) \<and>
     (\<forall>f. f < 32 * unat (lowest_free_idx s) \<and> f < 32 * length (pmm_bitmap s) \<longrightarrow> frame_bit (pmm_bitmap s) f) \<and>
     (\<forall>f < PMM_LOW_MEMORY_FRAMES. f < frames s \<longrightarrow> frame_bit (pmm_bitmap s) f) \<and>
     unat (used_memory s) = PAGE_SIZE * card (used_frames s)"

definition owners :: "pmm_state \<Rightarrow> nat \<Rightarrow> nat" where
  "owners s f = (if f < frames s then unat (pmm_refcount s ! f) else 0)"

lemma finite_used_frames [simp]: "finite (used_frames s)"
  by (simp add: used_frames_def)

lemma frames_bound: "pmm_shape s \<Longrightarrow> frames s < 2 ^ 20"
proof -
  assume "pmm_shape s"
  then have "frames s = unat (actual_total_memory s) div 4096" by (simp add: pmm_shape_def)
  moreover have "unat (actual_total_memory s) < 2 ^ 32" using unsigned_less [of "actual_total_memory s"] by simp
  ultimately show ?thesis by simp
qed

lemma bitmap_index: "pmm_shape s \<Longrightarrow> f < frames s \<Longrightarrow> f div 32 < length (pmm_bitmap s)"
  by (simp add: pmm_shape_def)

lemma card_used_le: "card (used_frames s) \<le> frames s"
  using card_mono [of "{..<frames s}" "used_frames s"] by (auto simp: used_frames_def)

lemma unat_page: "unat (addr div 4096 :: u32) = unat addr div PAGE_SIZE"
  by (simp add: unat_div)

lemma unat_frame_addr:
  assumes "f < 2 ^ 20"
  shows "unat (of_nat f * 4096 :: u32) = f * PAGE_SIZE"
  using assms by (simp add: unat_word_ariths unat_of_nat)

subsection \<open>The search\<close>

lemma full_word_bit: "bm ! (f div 32) = 0xFFFFFFFF \<Longrightarrow> frame_bit bm f"
  by (simp add: frame_bit_iff u32_ones)

lemma pmm_invD:
  assumes "pmm_inv s"
  shows "pmm_shape s"
    and "\<And>f. f < frames s \<Longrightarrow> frame_bit (pmm_bitmap s) f \<longleftrightarrow> pmm_refcount s ! f \<noteq> 0"
    and "\<And>f. frames s \<le> f \<Longrightarrow> f < 32 * length (pmm_bitmap s) \<Longrightarrow> frame_bit (pmm_bitmap s) f"
    and "\<And>f. f < 32 * unat (lowest_free_idx s) \<Longrightarrow> f < 32 * length (pmm_bitmap s) \<Longrightarrow> frame_bit (pmm_bitmap s) f"
    and "\<And>f. f < PMM_LOW_MEMORY_FRAMES \<Longrightarrow> f < frames s \<Longrightarrow> frame_bit (pmm_bitmap s) f"
    and "unat (used_memory s) = PAGE_SIZE * card (used_frames s)"
  using assms by (auto simp: pmm_inv_def)

lemma pmm_invI:
  assumes "pmm_shape s"
    and "\<And>f. f < frames s \<Longrightarrow> frame_bit (pmm_bitmap s) f \<longleftrightarrow> pmm_refcount s ! f \<noteq> 0"
    and "\<And>f. frames s \<le> f \<Longrightarrow> f < 32 * length (pmm_bitmap s) \<Longrightarrow> frame_bit (pmm_bitmap s) f"
    and "\<And>f. f < 32 * unat (lowest_free_idx s) \<Longrightarrow> f < 32 * length (pmm_bitmap s) \<Longrightarrow> frame_bit (pmm_bitmap s) f"
    and "\<And>f. f < PMM_LOW_MEMORY_FRAMES \<Longrightarrow> f < frames s \<Longrightarrow> frame_bit (pmm_bitmap s) f"
    and "unat (used_memory s) = PAGE_SIZE * card (used_frames s)"
  shows "pmm_inv s"
  using assms by (simp add: pmm_inv_def)

lemma find_first_free_None:
  assumes inv: "pmm_inv s"
    and none: "find (\<lambda>i. pmm_bitmap s ! i \<noteq> 0xFFFFFFFF \<and> first_clear_bit (pmm_bitmap s ! i) \<noteq> None)
                [unat (lowest_free_idx s)..<unat (pmm_bitmap_size_words s)] = None"
    and f: "f < frames s"
  shows "frame_bit (pmm_bitmap s) f"
proof (cases "f div 32 < unat (lowest_free_idx s)")
  case True
  then show ?thesis using pmm_invD(4) [OF inv, of f] bitmap_index [OF pmm_invD(1) [OF inv] f] by simp
next
  case False
  have "f div 32 < unat (pmm_bitmap_size_words s)"
    using bitmap_index [OF pmm_invD(1) [OF inv] f] pmm_invD(1) [OF inv] by (simp add: pmm_shape_def)
  then have "pmm_bitmap s ! (f div 32) = 0xFFFFFFFF"
    using none False by (auto simp: find_upt_None first_clear_bit_None)
  then show ?thesis by (rule full_word_bit)
qed

lemma find_first_free_Some:
  assumes inv: "pmm_inv s"
    and some: "find (\<lambda>i. pmm_bitmap s ! i \<noteq> 0xFFFFFFFF \<and> first_clear_bit (pmm_bitmap s ! i) \<noteq> None)
                [unat (lowest_free_idx s)..<unat (pmm_bitmap_size_words s)] = Some i"
    and j: "first_clear_bit (pmm_bitmap s ! i) = Some j"
  shows "i * 32 + j < frames s" "\<not> frame_bit (pmm_bitmap s) (i * 32 + j)"
    "\<And>g. g < i * 32 + j \<Longrightarrow> frame_bit (pmm_bitmap s) g"
proof -
  note fd = find_upt_SomeD [OF some]
  note jd = first_clear_bit_SomeD [OF j]
  have il: "i < length (pmm_bitmap s)"
    using fd(2) pmm_invD(1) [OF inv] by (simp add: pmm_shape_def)
  show nb: "\<not> frame_bit (pmm_bitmap s) (i * 32 + j)" using jd by (simp add: frame_bit_iff)
  show "i * 32 + j < frames s"
    using pmm_invD(3) [OF inv, of "i * 32 + j"] nb il jd(1) by fastforce
  fix g assume g: "g < i * 32 + j"
  consider "g div 32 < unat (lowest_free_idx s)" | "unat (lowest_free_idx s) \<le> g div 32" "g div 32 < i"
    | "g div 32 = i" using g jd(1) by fastforce
  then show "frame_bit (pmm_bitmap s) g"
  proof cases
    case 1
    then show ?thesis using pmm_invD(4) [OF inv, of g] g il jd(1) by fastforce
  next
    case 2
    then have "pmm_bitmap s ! (g div 32) = 0xFFFFFFFF"
      using fd(4) [of "g div 32"] by (auto simp: first_clear_bit_None)
    then show ?thesis by (rule full_word_bit)
  next
    case 3
    then have "g mod 32 < j" using g by (metis add_less_cancel_left mult.commute mult_div_mod_eq)
    then show ?thesis using jd(3) 3 by (simp add: frame_bit_iff)
  qed
qed

lemma pmm_find_first_free_spec:
  assumes "pmm_inv s" "pmm_find_first_free s = (fr, s1)"
  shows "(fr = NO_FRAME \<and> s1 = s \<and> (\<forall>f < frames s. frame_bit (pmm_bitmap s) f)) \<or>
    (\<exists>f. fr = of_nat f \<and> f < frames s \<and> \<not> frame_bit (pmm_bitmap s) f \<and>
         (\<forall>g<f. frame_bit (pmm_bitmap s) g) \<and> s1 = s\<lparr>lowest_free_idx := of_nat (f div 32)\<rparr>)"
proof (cases "find (\<lambda>i. pmm_bitmap s ! i \<noteq> 0xFFFFFFFF \<and> first_clear_bit (pmm_bitmap s ! i) \<noteq> None)
             [unat (lowest_free_idx s)..<unat (pmm_bitmap_size_words s)]")
  case None
  then show ?thesis using find_first_free_None [OF assms(1) None] assms(2)
    by (simp add: pmm_find_first_free_def)
next
  case (Some i)
  obtain j where j: "first_clear_bit (pmm_bitmap s ! i) = Some j"
    using find_upt_SomeD(3) [OF Some] by auto
  note sp = find_first_free_Some [OF assms(1) Some j]
  have "j < 32" using first_clear_bit_SomeD(1) [OF j] .
  then have "(i * 32 + j) div 32 = i" by simp
  moreover have "fr = of_nat (i * 32 + j)" "s1 = s\<lparr>lowest_free_idx := of_nat i\<rparr>"
    using assms(2) Some j by (auto simp: pmm_find_first_free_def)
  ultimately show ?thesis using sp by metis
qed

subsection \<open>What each operation does to the owners\<close>

lemma owners_eq_0: "pmm_inv s \<Longrightarrow> f < frames s \<Longrightarrow> owners s f = 0 \<longleftrightarrow> \<not> frame_bit (pmm_bitmap s) f"
  by (simp add: owners_def pmm_invD(2) unat_eq_0)

lemma used_mem_room:
  assumes "pmm_inv s" "f < frames s" "\<not> frame_bit (pmm_bitmap s) f"
  shows "unat (used_memory s + 4096) = PAGE_SIZE * Suc (card (used_frames s))"
proof -
  have "used_frames s \<subset> {..<frames s}" using assms(2,3) by (auto simp: used_frames_def)
  then have "card (used_frames s) < frames s" using psubset_card_mono [of "{..<frames s}"] by simp
  then show ?thesis
    using frames_bound [OF pmm_invD(1) [OF assms(1)]] pmm_invD(6) [OF assms(1)]
    by (simp add: unat_word_ariths)
qed

lemma alloc_marks:
  assumes inv: "pmm_inv s" and f: "f < frames s" "\<not> frame_bit (pmm_bitmap s) f"
    and low: "\<forall>g<f. frame_bit (pmm_bitmap s) g"
  defines "s' \<equiv> s\<lparr>lowest_free_idx := of_nat (f div 32), pmm_bitmap := set_frame f (pmm_bitmap s),
      pmm_refcount := (pmm_refcount s)[f := 1], used_memory := used_memory s + 4096\<rparr>"
  shows "pmm_inv s'" "owners s' = (owners s)(f := 1)"
proof -
  have fl: "f div 32 < length (pmm_bitmap s)" using bitmap_index [OF pmm_invD(1) [OF inv] f(1)] .
  have lo: "unat (of_nat (f div 32) :: u32) = f div 32"
    using frames_bound [OF pmm_invD(1) [OF inv]] f(1) by (simp add: unat_of_nat)
  have uf: "used_frames s' = insert f (used_frames s)"
    using f(1) frame_bit_set [OF fl] by (auto simp: used_frames_def s'_def)
  have len: "length (pmm_refcount s) = frames s" using pmm_invD(1) [OF inv] by (simp add: pmm_shape_def)
  have "pmm_shape s'" using pmm_invD(1) [OF inv] by (simp add: pmm_shape_def s'_def)
  moreover have "f \<notin> used_frames s" using f(2) by (simp add: used_frames_def)
  ultimately show "pmm_inv s'"
    using pmm_invD(2-5) [OF inv] low used_mem_room [OF inv f] uf frame_bit_set [OF fl] len lo f(1)
    unfolding pmm_inv_def by (auto simp: s'_def nth_list_update)
  show "owners s' = (owners s)(f := 1)"
    using f(1) len by (auto simp: owners_def s'_def nth_list_update fun_eq_iff)
qed

lemma frame_addr_inj: "of_nat f \<noteq> NO_FRAME" if "f < 2 ^ 20" for f
proof
  assume "(of_nat f :: u32) = NO_FRAME"
  then have "unat (of_nat f :: u32) = unat NO_FRAME" by (rule arg_cong)
  then show False using that by (simp add: unat_of_nat)
qed

lemma pmm_alloc_frame_spec:
  assumes inv: "pmm_inv s" and al: "pmm_alloc_frame s = (a, s')"
  shows "pmm_inv s' \<and> frames s' = frames s \<and>
    (if a = NO_FRAME then (\<forall>f < frames s. 0 < owners s f) \<and> s' = s
     else \<exists>f. a = of_nat f * 4096 \<and> PMM_LOW_MEMORY_FRAMES \<le> f \<and> f < frames s \<and> owners s f = 0 \<and>
            (\<forall>g<f. 0 < owners s g) \<and> owners s' = (owners s)(f := 1) \<and>
            used_memory s' = used_memory s + 4096)"
proof -
  obtain fr s1 where ff: "pmm_find_first_free s = (fr, s1)" by fastforce
  from pmm_find_first_free_spec [OF inv ff] show ?thesis
  proof (elim disjE exE conjE)
    assume "fr = NO_FRAME" "s1 = s" and full: "\<forall>f < frames s. frame_bit (pmm_bitmap s) f"
    then have "a = NO_FRAME" "s' = s" using al ff by (auto simp: pmm_alloc_frame_def)
    then show ?thesis using inv full owners_eq_0 [OF inv] by auto
  next
    fix f
    assume f: "fr = of_nat f" "f < frames s" "\<not> frame_bit (pmm_bitmap s) f"
      and low: "\<forall>g<f. frame_bit (pmm_bitmap s) g"
      and s1: "s1 = s\<lparr>lowest_free_idx := of_nat (f div 32)\<rparr>"
    have fb: "f < 2 ^ 20" using f(2) frames_bound [OF pmm_invD(1) [OF inv]] by simp
    have uf: "unat (of_nat f :: u32) = f" using fb by (simp add: unat_of_nat)
    have lt: "\<not> pmm_frames_count s \<le> of_nat f" using f(2) uf by (simp add: word_le_nat_alt)
    have a: "a = of_nat f * 4096"
      and s': "s' = s\<lparr>lowest_free_idx := of_nat (f div 32), pmm_bitmap := set_frame f (pmm_bitmap s),
        pmm_refcount := (pmm_refcount s)[f := 1], used_memory := used_memory s + 4096\<rparr>"
      using al ff f(1) s1 lt uf frame_addr_inj [OF fb] by (auto simp: pmm_alloc_frame_def)
    have "unat a = f * PAGE_SIZE" using a unat_frame_addr [OF fb] by simp
    then have "a \<noteq> NO_FRAME" using fb by auto
    moreover have "PMM_LOW_MEMORY_FRAMES \<le> f" using pmm_invD(5) [OF inv, of f] f by fastforce
    moreover have "owners s f = 0" using owners_eq_0 [OF inv] f by blast
    moreover have "0 < owners s g" if "g < f" for g
      using owners_eq_0 [OF inv, of g] f(2) low that by simp
    moreover have "frames s' = frames s" "used_memory s' = used_memory s + 4096" by (simp_all add: s')
    ultimately show ?thesis
      using a f(2) alloc_marks [OF inv f(2,3) low, folded s'] by (simp only: if_False) blast
  qed
qed

lemma inv_new_count:
  assumes inv: "pmm_inv s" and f: "f < frames s" "frame_bit (pmm_bitmap s) f" and c: "c \<noteq> 0"
  shows "pmm_inv (s\<lparr>pmm_refcount := (pmm_refcount s)[f := c]\<rparr>)"
    "owners (s\<lparr>pmm_refcount := (pmm_refcount s)[f := c]\<rparr>) = (owners s)(f := unat c)"
proof -
  have len: "length (pmm_refcount s) = frames s" using pmm_invD(1) [OF inv] by (simp add: pmm_shape_def)
  have "used_frames (s\<lparr>pmm_refcount := (pmm_refcount s)[f := c]\<rparr>) = used_frames s"
    by (simp add: used_frames_def)
  then show "pmm_inv (s\<lparr>pmm_refcount := (pmm_refcount s)[f := c]\<rparr>)"
    using inv f c len by (auto simp: pmm_inv_def pmm_shape_def nth_list_update)
  show "owners (s\<lparr>pmm_refcount := (pmm_refcount s)[f := c]\<rparr>) = (owners s)(f := unat c)"
    using f(1) len by (auto simp: owners_def fun_eq_iff)
qed

lemma u8_255: "(c::u8) \<noteq> 0xFF \<longleftrightarrow> unat c < 255"
proof -
  have "unat c < 256" using unsigned_less [of c] by simp
  then show ?thesis by (auto simp: word_unat_eq_iff)
qed

lemma pmm_ref_frame_spec:
  assumes inv: "pmm_inv s" and r: "pmm_ref_frame s a = (s', ev)"
  defines "f \<equiv> unat a div PAGE_SIZE"
  shows "pmm_inv s' \<and> frames s' = frames s \<and>
    owners s' = (if PMM_LOW_MEMORY_FRAMES \<le> f \<and> f < frames s \<and> 0 < owners s f \<and> owners s f < 255
                 then (owners s)(f := Suc (owners s f)) else owners s)"
proof -
  let ?c = "pmm_refcount s ! f"
  have fu: "unat (a div 4096) = f" by (simp add: f_def unat_page)
  show ?thesis
  proof (cases "PMM_LOW_MEMORY_FRAMES \<le> f \<and> f < frames s \<and> frame_bit (pmm_bitmap s) f \<and> ?c \<noteq> 0xFF")
    case True
    then have c: "?c \<noteq> 0" "unat ?c < 255" using pmm_invD(2) [OF inv, of f] u8_255 by auto
    then have c1: "unat (?c + 1) = Suc (unat ?c)" by (intro unat_add_1) simp
    then have "?c + 1 \<noteq> 0" by (metis nat.distinct(1) unat_0)
    moreover have "s' = s\<lparr>pmm_refcount := (pmm_refcount s)[f := ?c + 1]\<rparr>"
      using r True c(1) by (simp add: pmm_ref_frame_def fu)
    ultimately show ?thesis
      using inv_new_count [OF inv, of f "?c + 1"] True c c1 by (simp add: owners_def unat_gt_0)
  next
    case False
    then have "s' = s" using r by (auto simp: pmm_ref_frame_def fu split: if_splits)
    moreover have "\<not> (PMM_LOW_MEMORY_FRAMES \<le> f \<and> f < frames s \<and> 0 < owners s f \<and> owners s f < 255)"
      using False owners_eq_0 [OF inv, of f] by (auto simp: owners_def u8_255)
    ultimately show ?thesis using inv by auto
  qed
qed

lemma free_unmarks:
  assumes inv: "pmm_inv s" and f: "f < frames s" "frame_bit (pmm_bitmap s) f" "PMM_LOW_MEMORY_FRAMES \<le> f"
  defines "s' \<equiv> s\<lparr>pmm_refcount := (pmm_refcount s)[f := 0],
             pmm_bitmap := clear_frame f (pmm_bitmap s), used_memory := used_memory s - 4096,
             lowest_free_idx := (if f div 32 < unat (lowest_free_idx s) then of_nat (f div 32)
                else lowest_free_idx s)\<rparr>"
  shows "pmm_inv s'" "owners s' = (owners s)(f := 0)"
proof -
  have fl: "f div 32 < length (pmm_bitmap s)" using bitmap_index [OF pmm_invD(1) [OF inv] f(1)] .
  have len: "length (pmm_refcount s) = frames s" using pmm_invD(1) [OF inv] by (simp add: pmm_shape_def)
  have lo: "unat (of_nat (f div 32) :: u32) = f div 32"
    using frames_bound [OF pmm_invD(1) [OF inv]] f(1) by (simp add: unat_of_nat)
  have fu: "f \<in> used_frames s" using f by (simp add: used_frames_def)
  have uf: "used_frames s' = used_frames s - {f}"
    using frame_bit_clear [OF fl] by (auto simp: used_frames_def s'_def)
  have "0 < card (used_frames s)" using fu by (auto simp: card_gt_0_iff)
  then have um: "unat (used_memory s - 4096) = PAGE_SIZE * card (used_frames s')"
    using pmm_invD(6) [OF inv] uf fu by (simp add: unat_sub word_le_nat_alt diff_mult_distrib2)
  have bits: "frame_bit (pmm_bitmap s') g \<longleftrightarrow> g \<noteq> f \<and> frame_bit (pmm_bitmap s) g" for g
    using frame_bit_clear [OF fl] by (simp add: s'_def)
  have hint: "g < 32 * unat (lowest_free_idx s) \<and> g \<noteq> f" if "g < 32 * unat (lowest_free_idx s')" for g
    using that lo by (auto simp: s'_def split: if_splits)
  have fr: "frames s' = frames s" "length (pmm_bitmap s') = length (pmm_bitmap s)" by (simp_all add: s'_def)
  show "pmm_inv s'"
  proof (rule pmm_invI)
    show "pmm_shape s'" using pmm_invD(1) [OF inv] by (simp add: pmm_shape_def s'_def)
    show "frame_bit (pmm_bitmap s') g \<longleftrightarrow> pmm_refcount s' ! g \<noteq> 0" if "g < frames s'" for g
      using pmm_invD(2) [OF inv, of g] that fr(1) len bits f(1) by (auto simp: s'_def nth_list_update)
    show "frame_bit (pmm_bitmap s') g" if "frames s' \<le> g" "g < 32 * length (pmm_bitmap s')" for g
      using pmm_invD(3) [OF inv, of g] that fr bits f(1) by auto
    show "frame_bit (pmm_bitmap s') g"
      if "g < 32 * unat (lowest_free_idx s')" "g < 32 * length (pmm_bitmap s')" for g
      using pmm_invD(4) [OF inv, of g] hint [OF that(1)] that(2) fr bits by auto
    show "frame_bit (pmm_bitmap s') g" if "g < PMM_LOW_MEMORY_FRAMES" "g < frames s'" for g
      using pmm_invD(5) [OF inv, of g] that fr bits f(3) by auto
    show "unat (used_memory s') = PAGE_SIZE * card (used_frames s')" using um by (simp add: s'_def)
  qed
  show "owners s' = (owners s)(f := 0)"
    using f(1) len by (auto simp: owners_def s'_def nth_list_update fun_eq_iff)
qed

lemma pmm_free_frame_spec:
  fixes a :: u32
  assumes inv: "pmm_inv s"
  defines "f \<equiv> unat a div PAGE_SIZE"
  shows "pmm_inv (pmm_free_frame s a) \<and> frames (pmm_free_frame s a) = frames s \<and>
    owners (pmm_free_frame s a) = (if PMM_LOW_MEMORY_FRAMES \<le> f \<and> f < frames s
                 then (owners s)(f := owners s f - 1) else owners s)"
proof -
  let ?c = "pmm_refcount s ! f"
  have fu: "unat (a div 4096) = f" by (simp add: f_def unat_page)
  consider "\<not> (PMM_LOW_MEMORY_FRAMES \<le> f \<and> f < frames s \<and> frame_bit (pmm_bitmap s) f)"
    | "PMM_LOW_MEMORY_FRAMES \<le> f" "f < frames s" "frame_bit (pmm_bitmap s) f" "1 < ?c"
    | "PMM_LOW_MEMORY_FRAMES \<le> f" "f < frames s" "frame_bit (pmm_bitmap s) f" "\<not> 1 < ?c"
    by blast
  then show ?thesis
  proof cases
    case 1
    then have "pmm_free_frame s a = s" by (auto simp: pmm_free_frame_def fu)
    moreover have "owners s f = 0" if "f < frames s" "PMM_LOW_MEMORY_FRAMES \<le> f"
      using 1 that owners_eq_0 [OF inv] by simp
    ultimately show ?thesis using inv by (auto simp: fun_eq_iff)
  next
    case 2
    have u: "1 < unat ?c" using 2(4) by (simp add: word_less_nat_alt)
    then have c1: "unat (?c - 1) = unat ?c - 1" by (simp add: unat_sub word_le_nat_alt)
    have "pmm_free_frame s a = s\<lparr>pmm_refcount := (pmm_refcount s)[f := ?c - 1]\<rparr>"
      using 2 by (simp add: pmm_free_frame_def fu)
    moreover have "?c - 1 \<noteq> 0" using 2(4) by auto
    ultimately show ?thesis using inv_new_count [OF inv 2(2,3), of "?c - 1"] 2 c1 by (simp add: owners_def)
  next
    case 3
    have "\<not> 1 < unat ?c" using 3(4) by (simp add: word_less_nat_alt)
    then have "owners s f - 1 = 0" by (simp add: owners_def)
    moreover have "pmm_free_frame s a = s\<lparr>pmm_refcount := (pmm_refcount s)[f := 0],
             pmm_bitmap := clear_frame f (pmm_bitmap s), used_memory := used_memory s - 4096,
             lowest_free_idx := (if f div 32 < unat (lowest_free_idx s) then of_nat (f div 32)
                else lowest_free_idx s)\<rparr>"
      using 3 by (simp add: pmm_free_frame_def fu)
    ultimately show ?thesis using free_unmarks [OF inv 3(2,3,1)] 3(1,2) by simp
  qed
qed

subsection \<open>The allocator as its clients see it\<close>

definition frame_of :: "u32 \<Rightarrow> nat" where
  "frame_of a = unat a div PAGE_SIZE"

datatype frame_op = Alloc_frame | Ref_frame u32 | Free_frame u32

fun frame_run :: "('s \<Rightarrow> u32 \<times> 's) \<Rightarrow> ('s \<Rightarrow> u32 \<Rightarrow> 's) \<Rightarrow> ('s \<Rightarrow> u32 \<Rightarrow> 's) \<Rightarrow>
  's \<Rightarrow> frame_op list \<Rightarrow> u32 list \<times> 's" where
  "frame_run alloc ref free s [] = ([], s)"
| "frame_run alloc ref free s (Alloc_frame # ops) =
     (let (a, s1) = alloc s; (as, s2) = frame_run alloc ref free s1 ops in (a # as, s2))"
| "frame_run alloc ref free s (Ref_frame a # ops) = frame_run alloc ref free (ref s a) ops"
| "frame_run alloc ref free s (Free_frame a # ops) = frame_run alloc ref free (free s a) ops"

fun frees_of :: "nat \<Rightarrow> frame_op list \<Rightarrow> nat" where
  "frees_of f [] = 0"
| "frees_of f (Free_frame a # ops) = (if frame_of a = f then 1 else 0) + frees_of f ops"
| "frees_of f (op # ops) = frees_of f ops"

locale frame_allocator =
  fixes inv :: "'s \<Rightarrow> bool"
    and own :: "'s \<Rightarrow> nat \<Rightarrow> nat"
    and alloc :: "'s \<Rightarrow> u32 \<times> 's"
    and ref :: "'s \<Rightarrow> u32 \<Rightarrow> 's"
    and free :: "'s \<Rightarrow> u32 \<Rightarrow> 's"
  assumes alloc_inv: "inv s \<Longrightarrow> alloc s = (a, s') \<Longrightarrow> inv s'"
    and ref_inv: "inv s \<Longrightarrow> inv (ref s a)"
    and free_inv: "inv s \<Longrightarrow> inv (free s a)"
    and alloc_fresh: "inv s \<Longrightarrow> alloc s = (a, s') \<Longrightarrow> a \<noteq> NO_FRAME \<Longrightarrow>
      own s (frame_of a) = 0 \<and> own s' = (own s)(frame_of a := 1)"
    and alloc_none: "inv s \<Longrightarrow> alloc s = (a, s') \<Longrightarrow> a = NO_FRAME \<Longrightarrow> own s' = own s"
    and ref_own: "inv s \<Longrightarrow> own s f \<le> own (ref s a) f"
    and free_own: "inv s \<Longrightarrow> own s f - (if frame_of a = f then 1 else 0) \<le> own (free s a) f"
begin

lemma run_exclusive:
  "inv s \<Longrightarrow> frame_run alloc ref free s ops = (as, s') \<Longrightarrow> frees_of f ops < own s f \<Longrightarrow>
   (\<forall>a \<in> set as. a \<noteq> NO_FRAME \<longrightarrow> frame_of a \<noteq> f) \<and> own s f - frees_of f ops \<le> own s' f \<and> inv s'"
proof (induction ops arbitrary: s as s')
  case Nil
  then show ?case by simp
next
  case (Cons op ops)
  show ?case
  proof (cases op)
    case Alloc_frame
    obtain a s1 where al: "alloc s = (a, s1)" by fastforce
    obtain as2 s2 where r: "frame_run alloc ref free s1 ops = (as2, s2)" by fastforce
    have eq: "as = a # as2" "s' = s2" using Cons.prems(2) Alloc_frame al r by auto
    have "own s f \<le> own s1 f \<and> (a \<noteq> NO_FRAME \<longrightarrow> frame_of a \<noteq> f)"
      using alloc_fresh [OF Cons.prems(1) al] alloc_none [OF Cons.prems(1) al] Cons.prems(3)
      by (cases "a = NO_FRAME") (auto simp: fun_upd_apply)
    then show ?thesis
      using Cons.IH [OF alloc_inv [OF Cons.prems(1) al] r] Cons.prems(3) eq Alloc_frame by auto
  next
    case (Ref_frame a)
    show ?thesis
      using Cons.IH [OF ref_inv [OF Cons.prems(1)]] Cons.prems(2,3) Ref_frame
        ref_own [OF Cons.prems(1), of f a] by fastforce
  next
    case (Free_frame a)
    then have "frame_run alloc ref free (free s a) ops = (as, s')" using Cons.prems(2) by simp
    note ih = Cons.IH [OF free_inv [OF Cons.prems(1)] this]
    have le: "own s f - (if frame_of a = f then 1 else 0) \<le> own (free s a) f"
      by (rule free_own [OF Cons.prems(1)])
    then have "frees_of f ops < own (free s a) f" using Cons.prems(3) Free_frame by auto
    from ih [OF this] show ?thesis using le Free_frame by auto
  qed
qed

end

definition pmm_ref :: "pmm_state \<Rightarrow> u32 \<Rightarrow> pmm_state" where
  "pmm_ref s a = fst (pmm_ref_frame s a)"

lemma pmm_alloc_fresh:
  assumes "pmm_inv s" "pmm_alloc_frame s = (a, s')" "a \<noteq> NO_FRAME"
  shows "owners s (frame_of a) = 0 \<and> owners s' = (owners s)(frame_of a := 1)"
proof -
  from pmm_alloc_frame_spec [OF assms(1,2)] assms(3) obtain f where
    f: "a = of_nat f * 4096" "f < frames s" "owners s f = 0" "owners s' = (owners s)(f := 1)" by auto
  then have "frame_of a = f"
    using unat_frame_addr frames_bound [OF pmm_invD(1) [OF assms(1)]] by (simp add: frame_of_def)
  then show ?thesis using f by simp
qed

lemma pmm_ref_own:
  assumes "pmm_inv s"
  shows "pmm_inv (pmm_ref s a) \<and> owners s f \<le> owners (pmm_ref s a) f"
proof -
  obtain s' ev where r: "pmm_ref_frame s a = (s', ev)" by fastforce
  show ?thesis using pmm_ref_frame_spec [OF assms r] r by (auto simp: pmm_ref_def)
qed

interpretation pmm: frame_allocator pmm_inv owners pmm_alloc_frame pmm_ref pmm_free_frame
proof
  fix s s' :: pmm_state and a :: u32 and f :: nat
  assume inv: "pmm_inv s"
  show "pmm_inv (pmm_ref s a)" "owners s f \<le> owners (pmm_ref s a) f"
    using pmm_ref_own [OF inv] by auto
  show "pmm_inv (pmm_free_frame s a)"
    "owners s f - (if frame_of a = f then 1 else 0) \<le> owners (pmm_free_frame s a) f"
    using pmm_free_frame_spec [OF inv, of a] by (auto simp: frame_of_def)
  assume al: "pmm_alloc_frame s = (a, s')"
  show "pmm_inv s'" using pmm_alloc_frame_spec [OF inv al] by simp
  show "a = NO_FRAME \<Longrightarrow> owners s' = owners s" using pmm_alloc_frame_spec [OF inv al] by simp
  show "a \<noteq> NO_FRAME \<Longrightarrow> owners s (frame_of a) = 0 \<and> owners s' = (owners s)(frame_of a := 1)"
    using pmm_alloc_fresh [OF inv al] by blast
qed

subsection \<open>Bringing the allocator up\<close>













subsection \<open>The allocator after boot\<close>

lemma frame_bit_fold_clear:
  assumes "\<forall>f \<in> set fs. f div 32 < length bm"
  shows "length (fold clear_frame fs bm) = length bm \<and>
    (frame_bit (fold clear_frame fs bm) g \<longleftrightarrow> g \<notin> set fs \<and> frame_bit bm g)"
  using assms by (induction fs arbitrary: bm) (auto simp: frame_bit_clear)


















subsection \<open>A machine of 2 MB, for the witnesses\<close>

text \<open>512 frames: the 256 of low memory and one more in use, once each; the rest free.\<close>

definition pmm_2mb :: pmm_state where
  "pmm_2mb = \<lparr>pmm_bitmap = map (\<lambda>i. if i < 8 then 0xFFFFFFFF else if i = 8 then 1 else 0) [0..<16],
     pmm_bitmap_size_words = 16, pmm_frames_count = 512, used_memory = 257 * 4096,
     actual_total_memory = 0x200000, pmm_refcount = map (\<lambda>i. if i < 257 then 1 else 0) [0..<512],
     lowest_free_idx = 8\<rparr>"

lemma pmm_2mb_sel [simp]:
  "pmm_frames_count pmm_2mb = 512" "pmm_bitmap_size_words pmm_2mb = 16" "lowest_free_idx pmm_2mb = 8"
  "used_memory pmm_2mb = 257 * 4096" "actual_total_memory pmm_2mb = 0x200000"
  "length (pmm_bitmap pmm_2mb) = 16" "length (pmm_refcount pmm_2mb) = 512"
  by (simp_all only: pmm_2mb_def pmm_state.simps length_map length_upt diff_zero)

lemma pmm_2mb_word: "i < 16 \<Longrightarrow> pmm_bitmap pmm_2mb ! i = (if i < 8 then 0xFFFFFFFF else if i = 8 then 1 else 0)"
  by (simp only: pmm_2mb_def pmm_state.simps nth_map length_upt diff_zero nth_upt add_0)

lemma pmm_2mb_bits: "f < 512 \<Longrightarrow> frame_bit (pmm_bitmap pmm_2mb) f \<longleftrightarrow> f < 257"
proof -
  assume f: "f < 512"
  consider "f div 32 < 8" | "f div 32 = 8" | "8 < f div 32" by linarith
  then show ?thesis
  proof cases
    case 1
    then have "f < 257" by linarith
    then show ?thesis using 1 pmm_2mb_word [of "f div 32"] by (simp add: full_word_bit)
  next
    case 2
    then have "f mod 32 = 0 \<longleftrightarrow> f < 257" using mult_div_mod_eq [of 32 f] by linarith
    then show ?thesis using 2 pmm_2mb_word [of 8] by (simp add: frame_bit_iff bit_1_iff)
  next
    case 3
    then have "\<not> f < 257" by linarith
    then show ?thesis using 3 f pmm_2mb_word [of "f div 32"] by (simp add: frame_bit_iff)
  qed
qed

lemma pmm_2mb_owners: "owners pmm_2mb f = (if f < 257 then 1 else 0)"
proof -
  have "pmm_refcount pmm_2mb ! f = (if f < 257 then 1 else 0)" if "f < 512"
    using that by (simp only: pmm_2mb_def pmm_state.simps nth_map length_upt diff_zero nth_upt add_0)
  then show ?thesis by (simp add: owners_def)
qed

lemma pmm_2mb_inv: "pmm_inv pmm_2mb"
proof (rule pmm_invI)
  show "pmm_shape pmm_2mb" by (simp add: pmm_shape_def)
  show "frame_bit (pmm_bitmap pmm_2mb) f \<longleftrightarrow> pmm_refcount pmm_2mb ! f \<noteq> 0" if "f < frames pmm_2mb" for f
    using that pmm_2mb_bits [of f] pmm_2mb_owners [of f] by (auto simp: owners_def unat_eq_0 split: if_splits)
  show "frame_bit (pmm_bitmap pmm_2mb) f"
    if "f < 32 * unat (lowest_free_idx pmm_2mb)" for f using that pmm_2mb_bits by simp
  show "frame_bit (pmm_bitmap pmm_2mb) f" if "f < PMM_LOW_MEMORY_FRAMES" "f < frames pmm_2mb" for f
    using that pmm_2mb_bits by (simp add: PMM_LOW_MEMORY_FRAMES_def)
  have "used_frames pmm_2mb = {..<257}" using pmm_2mb_bits by (auto simp: used_frames_def)
  then show "unat (used_memory pmm_2mb) = PAGE_SIZE * card (used_frames pmm_2mb)" by simp
qed simp

subsection \<open>Properties\<close>

text \<open>
  (C11) \<^verbatim>\<open>pmm_alloc_frame\<close> hands out the lowest frame nobody owns and gives it exactly one owner;
  it never hands out a frame below 1 MB, changes no other frame's count, and fails only when
  every frame of the machine is owned.
\<close>

theorem pmm_alloc_lowest_free:
  assumes "pmm_inv s" "pmm_alloc_frame s = (a, s')"
  shows "pmm_inv s' \<and>
    (if a = NO_FRAME then (\<forall>f < frames s. 0 < owners s f) \<and> s' = s
     else \<exists>f. a = of_nat f * 4096 \<and> PMM_LOW_MEMORY_FRAMES \<le> f \<and> f < frames s \<and> owners s f = 0 \<and>
            (\<forall>g<f. 0 < owners s g) \<and> owners s' = (owners s)(f := 1))"
  using pmm_alloc_frame_spec [OF assms] by auto

theorem pmm_alloc_lowest_free_witness:
  "pmm_inv pmm_2mb \<and> (\<exists>a s'. pmm_alloc_frame pmm_2mb = (a, s') \<and> pmm_inv s' \<and>
     a = 257 * 4096 \<and> owners s' 257 = 1)"
proof -
  obtain a s' where al: "pmm_alloc_frame pmm_2mb = (a, s')" by fastforce
  note p = pmm_alloc_lowest_free [OF pmm_2mb_inv al]
  have "a \<noteq> NO_FRAME"
  proof
    assume "a = NO_FRAME"
    then have "\<forall>f < frames pmm_2mb. 0 < owners pmm_2mb f" using p by simp
    then have "0 < owners pmm_2mb 300" by simp
    then show False by (simp add: pmm_2mb_owners)
  qed
  then obtain f where f: "a = of_nat f * 4096" "owners pmm_2mb f = 0" "\<forall>g<f. 0 < owners pmm_2mb g"
    "owners s' = (owners pmm_2mb)(f := 1)" using p by auto
  have "f = 257" using f(2) spec [OF f(3), of 257] by (simp add: pmm_2mb_owners split: if_splits)
  then show ?thesis using al p f pmm_2mb_inv by auto
qed

text \<open>
  (C9) Exclusive ownership: over any sequence of allocations, shared references and releases, a
  frame with \<open>n\<close> owners is not handed out again until it has been released \<open>n\<close> times, whatever
  else the clients do, bad addresses included.
\<close>

theorem pmm_no_double_allocation:
  assumes "pmm_inv s" "frame_run pmm_alloc_frame pmm_ref pmm_free_frame s ops = (as, s')"
    and "frees_of f ops < owners s f"
  shows "(\<forall>a \<in> set as. a \<noteq> NO_FRAME \<longrightarrow> frame_of a \<noteq> f) \<and>
    owners s f - frees_of f ops \<le> owners s' f \<and> pmm_inv s'"
  by (rule pmm.run_exclusive [OF assms])

theorem pmm_no_double_allocation_witness:
  "let ops = [Alloc_frame, Ref_frame 0x100000, Free_frame 0x101000, Alloc_frame, Free_frame 0x100FFF] in
   frees_of 255 ops < owners pmm_2mb 255 \<and>
   (\<forall>a \<in> set (fst (frame_run pmm_alloc_frame pmm_ref pmm_free_frame pmm_2mb ops)).
      a \<noteq> NO_FRAME \<longrightarrow> frame_of a \<noteq> 255)"
proof -
  let ?ops = "[Alloc_frame, Ref_frame 0x100000, Free_frame 0x101000, Alloc_frame, Free_frame 0x100FFF]"
  have n: "frees_of 255 ?ops < owners pmm_2mb 255" by (simp add: pmm_2mb_owners frame_of_def)
  obtain as s' where r: "frame_run pmm_alloc_frame pmm_ref pmm_free_frame pmm_2mb ?ops = (as, s')" by fastforce
  show ?thesis using pmm_no_double_allocation [OF pmm_2mb_inv r n] n r by (simp only: Let_def fst_conv) blast
qed

text \<open>
  (C12) Reference counting: taking a reference to a frame that has one to 254 owners and
  releasing it again leaves every count as it was, and releasing the last owner's reference
  makes the frame free while no other frame changes.
\<close>

theorem pmm_ref_then_free:
  assumes "pmm_inv s" "PMM_LOW_MEMORY_FRAMES \<le> frame_of a" "frame_of a < frames s"
    and "0 < owners s (frame_of a)" "owners s (frame_of a) < 255"
  shows "owners (pmm_free_frame (pmm_ref s a) a) = owners s \<and>
    owners (pmm_ref s a) (frame_of a) = Suc (owners s (frame_of a)) \<and>
    (owners s (frame_of a) = 1 \<longrightarrow> owners (pmm_free_frame s a) = (owners s)(frame_of a := 0))"
proof -
  obtain s1 ev where r: "pmm_ref_frame s a = (s1, ev)" by fastforce
  have s1: "pmm_inv s1" "frames s1 = frames s"
    "owners s1 = (owners s)(frame_of a := Suc (owners s (frame_of a)))"
    using pmm_ref_frame_spec [OF assms(1) r] assms(2-) by (auto simp: frame_of_def)
  show ?thesis
    using pmm_free_frame_spec [OF s1(1), of a] pmm_free_frame_spec [OF assms(1), of a] s1(2,3) assms(2-) r
    by (simp add: pmm_ref_def frame_of_def)
qed

theorem pmm_ref_then_free_witness:
  "owners (pmm_free_frame (pmm_ref pmm_2mb 0x100000) 0x100000) = owners pmm_2mb \<and>
   owners (pmm_ref pmm_2mb 0x100000) 256 = 2"
  using pmm_ref_then_free [of pmm_2mb "0x100000"] pmm_2mb_inv
  by (simp add: frame_of_def PMM_LOW_MEMORY_FRAMES_def pmm_2mb_owners)

text \<open>
  (C13) The free-memory figure: what \<^verbatim>\<open>pmm_get_free_memory\<close> reports is a page for every frame
  without an owner, plus the tail of memory too short to be a frame; the subtraction and the
  running counter behind it never wrap.
\<close>

theorem pmm_free_memory_exact:
  assumes "pmm_inv s"
  shows "unat (pmm_get_free_memory s) =
    PAGE_SIZE * card {f. f < frames s \<and> owners s f = 0} + unat (actual_total_memory s) mod PAGE_SIZE"
proof -
  let ?F = "{f. f < frames s \<and> owners s f = 0}"
  have "{..<frames s} = used_frames s \<union> ?F" "used_frames s \<inter> ?F = {}"
    using owners_eq_0 [OF assms] by (force simp: used_frames_def)+
  then have "frames s = card (used_frames s) + card ?F"
    using card_Un_disjoint [of "used_frames s" ?F] card_lessThan [of "frames s"] by simp
  then have "unat (actual_total_memory s) div PAGE_SIZE = card (used_frames s) + card ?F"
    using pmm_invD(1) [OF assms] by (simp add: pmm_shape_def)
  then have t: "unat (actual_total_memory s) =
      PAGE_SIZE * (card (used_frames s) + card ?F) + unat (actual_total_memory s) mod PAGE_SIZE"
    by (metis mult_div_mod_eq)
  then have "used_memory s \<le> actual_total_memory s"
    using pmm_invD(6) [OF assms] by (simp add: word_le_nat_alt)
  then show ?thesis
    using t pmm_invD(6) [OF assms] by (auto simp: pmm_get_free_memory_def unat_sub)
qed

theorem pmm_free_memory_exact_witness:
  "unat (pmm_get_free_memory pmm_2mb) = PAGE_SIZE * 255"
proof -
  have "{f. f < frames pmm_2mb \<and> owners pmm_2mb f = 0} = {257..<512}" by (auto simp: pmm_2mb_owners)
  then show ?thesis using pmm_free_memory_exact [OF pmm_2mb_inv] by simp
qed




end
