(* ===== verification/Blockdev.thy ===== *)
theory Blockdev
  imports Prelude
begin

text \<open>
  The block device layer, \<^verbatim>\<open>drivers/blockdev.c\<close>.  A device is a structure with two handlers, either
  of which may be absent; the structures are found by address, 0 being the null pointer, in a
  store \<open>dv\<close> that this layer reads and never writes.  The handlers belong to the drivers: they are
  functions on a state \<open>'w\<close> of the hardware that is a parameter here, and \<open>driver_ok\<close> is what
  \<^verbatim>\<open>include/blockdev.h\<close> asks of them.  A handler that fails a write may leave that sector in any
  state, and a handler that fails a read may leave anything in the buffer.
\<close>

type_synonym sector = "u8 list"
type_synonym dev_ptr = nat

record 'w blockdev_t =
  name :: "string option"
  sector_size :: u32
  sector_count :: u32
  dev_read :: "('w \<Rightarrow> u32 \<Rightarrow> status \<times> sector \<times> 'w) option"
  dev_write :: "('w \<Rightarrow> u32 \<Rightarrow> sector \<Rightarrow> status \<times> 'w) option"

type_synonym 'w dev_store = "dev_ptr \<Rightarrow> 'w blockdev_t"

subsection \<open>Requests\<close>

definition blockdev_check :: "'w dev_store \<Rightarrow> dev_ptr \<Rightarrow> u32 \<Rightarrow> status" where
  "blockdev_check dv d lba =
     (if d = 0 then Some E_NODEV
      else if sector_count (dv d) \<le> lba then Some E_INVAL
      else None)"

definition blockdev_check_read :: "'w dev_store \<Rightarrow> dev_ptr \<Rightarrow> u32 \<Rightarrow> sector option \<Rightarrow> status" where
  "blockdev_check_read dv d lba buf =
     (case blockdev_check dv d lba of
        Some e \<Rightarrow> Some e
      | None \<Rightarrow> if buf = None then Some E_INVAL
                else if dev_read (dv d) = None then Some E_NODEV
                else None)"

definition blockdev_check_write :: "'w dev_store \<Rightarrow> dev_ptr \<Rightarrow> u32 \<Rightarrow> sector option \<Rightarrow> status" where
  "blockdev_check_write dv d lba buf =
     (case blockdev_check dv d lba of
        Some e \<Rightarrow> Some e
      | None \<Rightarrow> if buf = None then Some E_INVAL
                else if dev_write (dv d) = None then Some E_ROFS
                else None)"

definition blockdev_read ::
  "'w dev_store \<Rightarrow> 'w \<Rightarrow> dev_ptr \<Rightarrow> u32 \<Rightarrow> sector option \<Rightarrow> status \<times> sector option \<times> 'w" where
  "blockdev_read dv w d lba buf =
     (case blockdev_check_read dv d lba buf of
        Some e \<Rightarrow> (Some e, buf, w)
      | None \<Rightarrow> (case the (dev_read (dv d)) w lba of (st, b, w') \<Rightarrow> (st, Some b, w')))"

definition blockdev_write ::
  "'w dev_store \<Rightarrow> 'w \<Rightarrow> dev_ptr \<Rightarrow> u32 \<Rightarrow> sector option \<Rightarrow> status \<times> 'w" where
  "blockdev_write dv w d lba buf =
     (case blockdev_check_write dv d lba buf of
        Some e \<Rightarrow> (Some e, w)
      | None \<Rightarrow> the (dev_write (dv d)) w lba (the buf))"

subsection \<open>The table of devices\<close>

definition BLOCKDEV_MAX :: nat where
  "BLOCKDEV_MAX = 4"

record blockdev_table =
  devices :: "dev_ptr list"
  root_dev :: dev_ptr

definition device_is_usable :: "'w dev_store \<Rightarrow> dev_ptr \<Rightarrow> bool" where
  "device_is_usable dv d \<longleftrightarrow>
     d \<noteq> 0 \<and> dev_read (dv d) \<noteq> None \<and> sector_size (dv d) \<noteq> 0 \<and> sector_count (dv d) \<noteq> 0 \<and>
     name (dv d) \<noteq> None \<and> name (dv d) \<noteq> Some []"



definition blockdev_set_root :: "'w dev_store \<Rightarrow> blockdev_table \<Rightarrow> dev_ptr \<Rightarrow> status \<times> blockdev_table" where
  "blockdev_set_root dv t d =
     (if d = 0 then (None, t\<lparr>root_dev := 0\<rparr>)
      else if \<not> device_is_usable dv d then (Some E_INVAL, t)
      else (None, t\<lparr>root_dev := d\<rparr>))"


definition blockdev_get :: "blockdev_table \<Rightarrow> int \<Rightarrow> dev_ptr" where
  "blockdev_get t index =
     (if index < 0 \<or> int (length (devices t)) \<le> index then 0 else devices t ! nat index)"

definition blockdev_count :: "blockdev_table \<Rightarrow> nat" where
  "blockdev_count t = length (devices t)"

subsection \<open>What the drivers promise\<close>

text \<open>
  \<open>plat w d l\<close> is what sector \<open>l\<close> of device \<open>d\<close> holds.  A read changes no sector and a successful one
  returns what the sector holds; a write changes no other sector, and a successful one makes the
  sector hold what was written.
\<close>

definition driver_ok :: "'w dev_store \<Rightarrow> ('w \<Rightarrow> dev_ptr \<Rightarrow> u32 \<Rightarrow> sector) \<Rightarrow> bool" where
  "driver_ok dv plat \<longleftrightarrow>
     (\<forall>d rd w l st b w'. dev_read (dv d) = Some rd \<longrightarrow> l < sector_count (dv d) \<longrightarrow> rd w l = (st, b, w') \<longrightarrow>
        plat w' = plat w \<and> (st = None \<longrightarrow> b = plat w d l)) \<and>
     (\<forall>d wr w l b st w'. dev_write (dv d) = Some wr \<longrightarrow> l < sector_count (dv d) \<longrightarrow> wr w l b = (st, w') \<longrightarrow>
        (\<forall>d' l'. (d', l') \<noteq> (d, l) \<longrightarrow> plat w' d' l' = plat w d' l') \<and> (st = None \<longrightarrow> plat w' d l = b))"

lemma blockdev_read_laws:
  assumes "driver_ok dv plat" "blockdev_read dv w d l buf = (st, buf', w')"
  shows "plat w' = plat w" "st = None \<Longrightarrow> buf' = Some (plat w d l)"
  using assms
  by (auto simp: blockdev_read_def blockdev_check_read_def blockdev_check_def driver_ok_def not_le
      split: option.splits if_splits prod.splits)

lemma blockdev_write_laws:
  assumes "driver_ok dv plat" "blockdev_write dv w d l (Some b) = (st, w')"
  shows "d' \<noteq> d \<or> l' \<noteq> l \<Longrightarrow> plat w' d' l' = plat w d' l'" "st = None \<Longrightarrow> plat w' d l = b"
proof -
  have "(\<forall>d' l'. (d', l') \<noteq> (d, l) \<longrightarrow> plat w' d' l' = plat w d' l') \<and> (st = None \<longrightarrow> plat w' d l = b)"
  proof (cases "blockdev_check_write dv d l (Some b)")
    case (Some e)
    then show ?thesis using assms(2) by (auto simp: blockdev_write_def)
  next
    case None
    then obtain wr where "dev_write (dv d) = Some wr" "l < sector_count (dv d)"
      by (auto simp: blockdev_check_write_def blockdev_check_def not_le split: option.splits if_splits)
    then show ?thesis using assms None unfolding driver_ok_def blockdev_write_def by auto
  qed
  then show "d' \<noteq> d \<or> l' \<noteq> l \<Longrightarrow> plat w' d' l' = plat w d' l'" "st = None \<Longrightarrow> plat w' d l = b" by auto
qed

subsection \<open>The table's invariant\<close>

definition table_ok :: "'w dev_store \<Rightarrow> blockdev_table \<Rightarrow> bool" where
  "table_ok dv t \<longleftrightarrow> length (devices t) \<le> BLOCKDEV_MAX \<and> list_all (device_is_usable dv) (devices t) \<and>
     distinct (map (\<lambda>x. name (dv x)) (devices t)) \<and> (root_dev t = 0 \<or> device_is_usable dv (root_dev t))"






lemma set_root_ok: "table_ok dv t \<Longrightarrow> blockdev_set_root dv t d = (st, t') \<Longrightarrow> table_ok dv t'"
  by (auto simp: blockdev_set_root_def table_ok_def split: if_splits)




end
