(* ===== verification/Bcache.thy ===== *)
theory Bcache
  imports Blockdev
begin

text \<open>
  The write-back block cache, \<^verbatim>\<open>fs/bcache.c\<close>: sixty-four slots keyed by device and sector.  The
  state is the file's globals and the hardware state \<open>'w\<close> underneath.  \<^verbatim>\<open>timer_get_ticks()\<close> is an
  argument of the operations that read it, and log lines are not modelled.  A buffer argument is
  \<open>None\<close> for a null pointer; reading returns the buffer as it is left, on errors too.
\<close>

definition BCACHE_SIZE :: nat where
  "BCACHE_SIZE = 64"

definition BCACHE_DIRTY_HIGH_WATER :: u32 where
  "BCACHE_DIRTY_HIGH_WATER = 32"

definition BCACHE_FLUSH_INTERVAL_TICKS :: u32 where
  "BCACHE_FLUSH_INTERVAL_TICKS = 100 * 5"

record bcache_node_t =
  dev :: dev_ptr
  sector :: u32
  data :: Blockdev.sector
  last_access :: u32
  is_valid :: bool
  is_dirty :: bool

record 'w bcache =
  cache :: "bcache_node_t list"
  bcache_ticks :: u32
  dirty_count :: u32
  oldest_dirty_tick :: u32
  world :: 'w

definition zero_sector :: Blockdev.sector where
  "zero_sector = replicate 512 0"

definition upd_slot :: "nat \<Rightarrow> (bcache_node_t \<Rightarrow> bcache_node_t) \<Rightarrow> 'w bcache \<Rightarrow> 'w bcache" where
  "upd_slot i f s = s\<lparr>cache := (cache s)[i := f (cache s ! i)]\<rparr>"

definition mark_dirty :: "u32 \<Rightarrow> nat \<Rightarrow> 'w bcache \<Rightarrow> 'w bcache" where
  "mark_dirty now i s =
     (if is_dirty (cache s ! i) then s
      else (upd_slot i (is_dirty_update (\<lambda>_. True)) s)
             \<lparr>oldest_dirty_tick := (if dirty_count s = 0 then now else oldest_dirty_tick s),
              dirty_count := dirty_count s + 1\<rparr>)"

definition mark_clean :: "nat \<Rightarrow> 'w bcache \<Rightarrow> 'w bcache" where
  "mark_clean i s =
     (if \<not> is_dirty (cache s ! i) then s
      else (upd_slot i (is_dirty_update (\<lambda>_. False)) s)
             \<lparr>dirty_count := (if 0 < dirty_count s then dirty_count s - 1 else dirty_count s)\<rparr>)"

definition bcache_init :: "'w bcache \<Rightarrow> 'w bcache" where
  "bcache_init s =
     s\<lparr>cache := replicate BCACHE_SIZE \<lparr>dev = 0, sector = 0, data = zero_sector, last_access = 0,
                                      is_valid = False, is_dirty = False\<rparr>,
       bcache_ticks := 0, dirty_count := 0, oldest_dirty_tick := 0\<rparr>"

definition bcache_dirty_count :: "'w bcache \<Rightarrow> u32" where
  "bcache_dirty_count s = dirty_count s"

definition bcache_flush_is_due :: "u32 \<Rightarrow> 'w bcache \<Rightarrow> bool" where
  "bcache_flush_is_due now s \<longleftrightarrow>
     dirty_count s \<noteq> 0 \<and> BCACHE_FLUSH_INTERVAL_TICKS \<le> now - oldest_dirty_tick s"

subsection \<open>Finding a slot\<close>

text \<open>The oldest of the slots that satisfy \<open>P\<close>, the first of them on a tie.\<close>

definition older :: "(nat \<Rightarrow> bool) \<Rightarrow> 'w bcache \<Rightarrow> nat \<Rightarrow> (nat \<times> u32) option \<Rightarrow> (nat \<times> u32) option" where
  "older P s i best =
     (let age = bcache_ticks s - last_access (cache s ! i) in
      if P i \<and> (case best of None \<Rightarrow> True | Some (j, a) \<Rightarrow> a < age) then Some (i, age) else best)"

definition oldest_slot :: "(nat \<Rightarrow> bool) \<Rightarrow> 'w bcache \<Rightarrow> nat option" where
  "oldest_slot P s = map_option fst (fold (older P s) [0..<BCACHE_SIZE] None)"

definition write_slot :: "'w dev_store \<Rightarrow> nat \<Rightarrow> 'w bcache \<Rightarrow> status \<times> 'w bcache" where
  "write_slot dv i s =
     (case blockdev_write dv (world s) (dev (cache s ! i)) (sector (cache s ! i)) (Some (data (cache s ! i))) of
        (st, w) \<Rightarrow> (st, s\<lparr>world := w\<rparr>))"

fun evict_dirty :: "'w dev_store \<Rightarrow> nat \<Rightarrow> nat set \<Rightarrow> 'w bcache \<Rightarrow> nat option \<times> 'w bcache" where
  "evict_dirty dv 0 tried s = (None, s)"
| "evict_dirty dv (Suc n) tried s =
     (case oldest_slot (\<lambda>i. i \<notin> tried) s of
        None \<Rightarrow> (None, s)
      | Some i \<Rightarrow>
          (case write_slot dv i s of (st, s') \<Rightarrow>
             if st = None then (Some i, mark_clean i s')
             else evict_dirty dv n (insert i tried) s'))"

definition bcache_get_lru_slot :: "'w dev_store \<Rightarrow> 'w bcache \<Rightarrow> nat option \<times> 'w bcache" where
  "bcache_get_lru_slot dv s =
     (case find (\<lambda>i. \<not> is_valid (cache s ! i)) [0..<BCACHE_SIZE] of
        Some i \<Rightarrow> (Some i, s)
      | None \<Rightarrow>
          (case oldest_slot (\<lambda>i. \<not> is_dirty (cache s ! i)) s of
             Some i \<Rightarrow> (Some i, s)
           | None \<Rightarrow> evict_dirty dv BCACHE_SIZE {} s))"

definition lookup_slot :: "'w bcache \<Rightarrow> dev_ptr \<Rightarrow> u32 \<Rightarrow> nat option" where
  "lookup_slot s d l =
     find (\<lambda>i. is_valid (cache s ! i) \<and> dev (cache s ! i) = d \<and> sector (cache s ! i) = l) [0..<BCACHE_SIZE]"

subsection \<open>Flushing\<close>

definition flush_slot :: "'w dev_store \<Rightarrow> nat \<Rightarrow> bool \<times> 'w bcache \<Rightarrow> bool \<times> 'w bcache" where
  "flush_slot dv i acc =
     (case acc of (failed, s) \<Rightarrow>
        if is_valid (cache s ! i) \<and> is_dirty (cache s ! i)
        then (case write_slot dv i s of (st, s') \<Rightarrow>
                if st \<noteq> None then (True, s') else (failed, mark_clean i s'))
        else (failed, s))"

definition bcache_flush_reporting :: "'w dev_store \<Rightarrow> 'w bcache \<Rightarrow> status \<times> 'w bcache" where
  "bcache_flush_reporting dv s =
     (case fold (flush_slot dv) [0..<BCACHE_SIZE] (False, s) of
        (failed, s') \<Rightarrow> (if failed then Some E_IO else None, s'))"

definition bcache_flush :: "'w dev_store \<Rightarrow> 'w bcache \<Rightarrow> status \<times> 'w bcache" where
  "bcache_flush dv s = bcache_flush_reporting dv s"

definition bcache_flush_if_due :: "'w dev_store \<Rightarrow> u32 \<Rightarrow> 'w bcache \<Rightarrow> 'w bcache" where
  "bcache_flush_if_due dv now s =
     (if bcache_flush_is_due now s then snd (bcache_flush_reporting dv s) else s)"

definition drop_slot :: "nat \<Rightarrow> 'w bcache \<Rightarrow> 'w bcache" where
  "drop_slot i s = upd_slot i (\<lambda>n. n\<lparr>is_valid := False, dev := 0\<rparr>) s"

definition flush_dev_slot :: "'w dev_store \<Rightarrow> dev_ptr \<Rightarrow> nat \<Rightarrow> bool \<times> 'w bcache \<Rightarrow> bool \<times> 'w bcache" where
  "flush_dev_slot dv d i acc =
     (case acc of (failed, s) \<Rightarrow>
        if \<not> is_valid (cache s ! i) \<or> dev (cache s ! i) \<noteq> d then (failed, s)
        else if is_dirty (cache s ! i)
        then (case write_slot dv i s of (st, s') \<Rightarrow>
                if st \<noteq> None then (True, s') else (failed, drop_slot i (mark_clean i s')))
        else (failed, drop_slot i s))"

definition bcache_flush_dev :: "'w dev_store \<Rightarrow> dev_ptr \<Rightarrow> 'w bcache \<Rightarrow> status \<times> 'w bcache" where
  "bcache_flush_dev dv d s =
     (if d = 0 then (Some E_NODEV, s)
      else case fold (flush_dev_slot dv d) [0..<BCACHE_SIZE] (False, s) of
             (failed, s') \<Rightarrow> (if failed then Some E_IO else None, s'))"

subsection \<open>Reading and writing a sector\<close>

definition bcache_read_sector :: "'w dev_store \<Rightarrow> 'w bcache \<Rightarrow> dev_ptr \<Rightarrow> u32 \<Rightarrow> Blockdev.sector option \<Rightarrow>
  status \<times> Blockdev.sector option \<times> 'w bcache" where
  "bcache_read_sector dv s d l buf =
     (case blockdev_check_read dv d l buf of
        Some e \<Rightarrow> (Some e, buf, s)
      | None \<Rightarrow>
          if sector_size (dv d) \<noteq> 512 then (Some E_INVAL, buf, s)
          else let s1 = s\<lparr>bcache_ticks := bcache_ticks s + 1\<rparr> in
            (case lookup_slot s1 d l of
               Some i \<Rightarrow>
                 (None, Some (data (cache s1 ! i)), upd_slot i (last_access_update (\<lambda>_. bcache_ticks s1)) s1)
             | None \<Rightarrow>
                 (case bcache_get_lru_slot dv s1 of
                    (None, s2) \<Rightarrow> (Some E_IO, buf, s2)
                  | (Some i, s2) \<Rightarrow>
                      (case blockdev_read dv (world s2) d l (Some (data (cache s2 ! i))) of
                         (st, b, w) \<Rightarrow>
                           let s3 = upd_slot i (data_update (\<lambda>_. the b)) (s2\<lparr>world := w\<rparr>) in
                           if st \<noteq> None
                           then (st, Some (zero_sector), upd_slot i (is_valid_update (\<lambda>_. False)) s3)
                           else let s4 = mark_clean i (upd_slot i
                                  (\<lambda>n. n\<lparr>dev := d, sector := l, is_valid := True, last_access := bcache_ticks s3\<rparr>) s3)
                                in (None, Some (data (cache s4 ! i)), s4)))))"

definition store_slot :: "u32 \<Rightarrow> nat \<Rightarrow> dev_ptr \<Rightarrow> u32 \<Rightarrow> Blockdev.sector \<Rightarrow> 'w bcache \<Rightarrow> 'w bcache" where
  "store_slot now i d l b s =
     mark_dirty now i (upd_slot i
       (\<lambda>n. n\<lparr>dev := d, sector := l, is_valid := True, last_access := bcache_ticks s, data := b\<rparr>) s)"

definition bcache_write_sector :: "'w dev_store \<Rightarrow> u32 \<Rightarrow> 'w bcache \<Rightarrow> dev_ptr \<Rightarrow> u32 \<Rightarrow>
  Blockdev.sector option \<Rightarrow> status \<times> 'w bcache" where
  "bcache_write_sector dv now s d l buf =
     (case blockdev_check_write dv d l buf of
        Some e \<Rightarrow> (Some e, s)
      | None \<Rightarrow>
          if sector_size (dv d) \<noteq> 512 then (Some E_INVAL, s)
          else let s1 = s\<lparr>bcache_ticks := bcache_ticks s + 1\<rparr> in
            (case (case lookup_slot s1 d l of Some i \<Rightarrow> (Some i, s1) | None \<Rightarrow> bcache_get_lru_slot dv s1) of
               (None, s2) \<Rightarrow> (Some E_IO, s2)
             | (Some i, s2) \<Rightarrow>
                 let s3 = store_slot now i d l (the buf) s2 in
                 (None, if BCACHE_DIRTY_HIGH_WATER \<le> dirty_count s3
                        then snd (bcache_flush_reporting dv s3) else s3)))"

subsection \<open>The invariant and what a client sees\<close>

definition dirty_slots :: "'w bcache \<Rightarrow> nat set" where
  "dirty_slots s = {i. i < BCACHE_SIZE \<and> is_dirty (cache s ! i)}"

definition holds :: "bcache_node_t \<Rightarrow> dev_ptr \<Rightarrow> u32 \<Rightarrow> bool" where
  "holds n d l \<longleftrightarrow> is_valid n \<and> dev n = d \<and> sector n = l"

definition bcache_inv :: "('w \<Rightarrow> dev_ptr \<Rightarrow> u32 \<Rightarrow> Blockdev.sector) \<Rightarrow> 'w bcache \<Rightarrow> bool" where
  "bcache_inv plat s \<longleftrightarrow> length (cache s) = BCACHE_SIZE \<and>
     (\<forall>i < BCACHE_SIZE. is_dirty (cache s ! i) \<longrightarrow> is_valid (cache s ! i)) \<and>
     (\<forall>i < BCACHE_SIZE. \<forall>j < BCACHE_SIZE. \<forall>d l. holds (cache s ! i) d l \<longrightarrow> holds (cache s ! j) d l \<longrightarrow> i = j) \<and>
     (\<forall>i < BCACHE_SIZE. \<forall>d l. holds (cache s ! i) d l \<longrightarrow> \<not> is_dirty (cache s ! i) \<longrightarrow>
        data (cache s ! i) = plat (world s) d l) \<and>
     unat (dirty_count s) = card (dirty_slots s)"

definition view :: "('w \<Rightarrow> dev_ptr \<Rightarrow> u32 \<Rightarrow> Blockdev.sector) \<Rightarrow> 'w bcache \<Rightarrow> dev_ptr \<Rightarrow> u32 \<Rightarrow> Blockdev.sector" where
  "view plat s d l = (case lookup_slot s d l of Some i \<Rightarrow> data (cache s ! i) | None \<Rightarrow> plat (world s) d l)"

lemma bcache_invI:
  assumes "length (cache s) = BCACHE_SIZE"
    and "\<And>i. i < BCACHE_SIZE \<Longrightarrow> is_dirty (cache s ! i) \<Longrightarrow> is_valid (cache s ! i)"
    and "\<And>i j d l. i < BCACHE_SIZE \<Longrightarrow> j < BCACHE_SIZE \<Longrightarrow> holds (cache s ! i) d l \<Longrightarrow> holds (cache s ! j) d l \<Longrightarrow> i = j"
    and "\<And>i d l. i < BCACHE_SIZE \<Longrightarrow> holds (cache s ! i) d l \<Longrightarrow> \<not> is_dirty (cache s ! i) \<Longrightarrow>
           data (cache s ! i) = plat (world s) d l"
    and "unat (dirty_count s) = card (dirty_slots s)"
  shows "bcache_inv plat s"
  unfolding bcache_inv_def using assms by blast

lemma bcache_invD:
  assumes "bcache_inv plat s"
  shows "length (cache s) = BCACHE_SIZE"
    and "\<And>i. i < BCACHE_SIZE \<Longrightarrow> is_dirty (cache s ! i) \<Longrightarrow> is_valid (cache s ! i)"
    and "\<And>i j d l. i < BCACHE_SIZE \<Longrightarrow> j < BCACHE_SIZE \<Longrightarrow> holds (cache s ! i) d l \<Longrightarrow> holds (cache s ! j) d l \<Longrightarrow> i = j"
    and "\<And>i d l. i < BCACHE_SIZE \<Longrightarrow> holds (cache s ! i) d l \<Longrightarrow> \<not> is_dirty (cache s ! i) \<Longrightarrow>
           data (cache s ! i) = plat (world s) d l"
    and "unat (dirty_count s) = card (dirty_slots s)"
  using assms unfolding bcache_inv_def by blast+

lemma lookup_slot_holds:
  "lookup_slot s d l = find (\<lambda>i. holds (cache s ! i) d l) [0..<BCACHE_SIZE]"
  by (simp add: lookup_slot_def holds_def)

lemma lookup_SomeD: "lookup_slot s d l = Some i \<Longrightarrow> i < BCACHE_SIZE \<and> holds (cache s ! i) d l"
  unfolding lookup_slot_holds by (metis find_upt_SomeD(2,3))

lemma lookup_None: "lookup_slot s d l = None \<longleftrightarrow> (\<forall>i < BCACHE_SIZE. \<not> holds (cache s ! i) d l)"
  unfolding lookup_slot_holds find_upt_None by auto

lemma view_cached:
  assumes "bcache_inv plat s" "i < BCACHE_SIZE" "holds (cache s ! i) d l"
  shows "view plat s d l = data (cache s ! i)"
proof -
  obtain j where j: "lookup_slot s d l = Some j" using assms(2,3) lookup_None [of s d l] by fastforce
  then have "j = i" using bcache_invD(3) [OF assms(1)] lookup_SomeD [OF j] assms(2,3) by blast
  then show ?thesis using j by (simp add: view_def)
qed

lemma view_uncached:
  assumes "\<And>i. i < BCACHE_SIZE \<Longrightarrow> \<not> holds (cache s ! i) d l"
  shows "view plat s d l = plat (world s) d l"
  using assms lookup_None [of s d l] by (simp add: view_def)

lemma finite_dirty [simp]: "finite (dirty_slots s)"
  by (simp add: dirty_slots_def)

lemma card_dirty_le: "card (dirty_slots s) \<le> BCACHE_SIZE"
  using card_mono [of "{..<BCACHE_SIZE}" "dirty_slots s"] by (auto simp: dirty_slots_def)

text \<open>Two states with the same slots give the same view where the platter agrees off the slots.\<close>

lemma view_cong:
  assumes "bcache_inv plat s" "bcache_inv plat t"
    and "\<And>i d l. i < BCACHE_SIZE \<Longrightarrow> holds (cache t ! i) d l \<Longrightarrow> view plat s d l = data (cache t ! i)"
    and "\<And>d l. (\<And>i. i < BCACHE_SIZE \<Longrightarrow> \<not> holds (cache t ! i) d l) \<Longrightarrow> view plat s d l = plat (world t) d l"
  shows "view plat t = view plat s"
proof (intro ext)
  fix d l
  show "view plat t d l = view plat s d l"
  proof (cases "\<exists>i < BCACHE_SIZE. holds (cache t ! i) d l")
    case True
    then show ?thesis using view_cached [OF assms(2)] assms(3) by fastforce
  next
    case False
    then show ?thesis using view_uncached [of t d l plat] assms(4) [of d l] by simp
  qed
qed

subsection \<open>Writing a slot back\<close>

lemma dirty_slots_world [simp]:
  "dirty_slots (s\<lparr>world := w\<rparr>) = dirty_slots s" "dirty_slots (s\<lparr>bcache_ticks := n\<rparr>) = dirty_slots s"
  by (simp_all add: dirty_slots_def)

lemma ticks_inv [simp]: "bcache_inv plat (s\<lparr>bcache_ticks := n\<rparr>) = bcache_inv plat s"
  by (simp add: bcache_inv_def)

lemma ticks_view [simp]: "view plat (s\<lparr>bcache_ticks := n\<rparr>) = view plat s"
  by (simp add: view_def lookup_slot_def fun_eq_iff cong: option.case_cong)

lemma write_slot_spec:
  assumes inv: "bcache_inv plat s" and drv: "driver_ok dv plat"
    and i: "i < BCACHE_SIZE" "is_dirty (cache s ! i)" and w: "write_slot dv i s = (st, s')"
  shows "cache s' = cache s" "bcache_inv plat s'" "view plat s' = view plat s"
    "st = None \<Longrightarrow> plat (world s') (dev (cache s ! i)) (sector (cache s ! i)) = data (cache s ! i)"
    "dirty_count s' = dirty_count s" "bcache_ticks s' = bcache_ticks s"
proof -
  let ?n = "cache s ! i"
  obtain w' where bw: "blockdev_write dv (world s) (dev ?n) (sector ?n) (Some (data ?n)) = (st, w')"
    and s': "s' = s\<lparr>world := w'\<rparr>" using w by (auto simp: write_slot_def split: prod.splits)
  note laws = blockdev_write_laws [OF drv bw]
  have hi: "holds ?n (dev ?n) (sector ?n)" using bcache_invD(2) [OF inv i] by (simp add: holds_def)
  show c: "cache s' = cache s" "dirty_count s' = dirty_count s" "bcache_ticks s' = bcache_ticks s"
    by (simp_all add: s')
  show "st = None \<Longrightarrow> plat (world s') (dev ?n) (sector ?n) = data ?n" using laws(2) by (simp add: s')
  have other: "plat w' d l = plat (world s) d l" if "j \<noteq> i" "holds (cache s ! j) d l" "j < BCACHE_SIZE" for j d l
    using laws(1) [of d l] bcache_invD(3) [OF inv that(3) i(1) that(2)] that hi by blast
  show inv': "bcache_inv plat s'"
  proof (rule bcache_invI)
    show "data (cache s' ! j) = plat (world s') d l"
      if "j < BCACHE_SIZE" "holds (cache s' ! j) d l" "\<not> is_dirty (cache s' ! j)" for j d l
      using that bcache_invD(4) [OF inv, of j d l] other [of j d l] i(2) by (cases "j = i") (auto simp: s')
    show "j = k" if "j < BCACHE_SIZE" "k < BCACHE_SIZE" "holds (cache s' ! j) d l" "holds (cache s' ! k) d l" for j k d l
      using that bcache_invD(3) [OF inv] by (simp only: c)
  qed (use bcache_invD(1,2,5) [OF inv] in \<open>simp_all add: s'\<close>)
  show "view plat s' = view plat s"
  proof (rule view_cong [OF inv inv'])
    fix d l assume none: "\<And>j. j < BCACHE_SIZE \<Longrightarrow> \<not> holds (cache s' ! j) d l"
    then have "d \<noteq> dev ?n \<or> l \<noteq> sector ?n" using hi i(1) c by auto
    then show "view plat s d l = plat (world s') d l"
      using view_uncached [of s d l plat] none laws(1) by (simp add: s')
  qed (use view_cached [OF inv] c in simp)
qed

lemma mark_clean_spec:
  assumes inv: "bcache_inv plat s" and i: "i < BCACHE_SIZE" "is_dirty (cache s ! i)"
    and stored: "plat (world s) (dev (cache s ! i)) (sector (cache s ! i)) = data (cache s ! i)"
  shows "bcache_inv plat (mark_clean i s)" "view plat (mark_clean i s) = view plat s"
    "cache (mark_clean i s) = (cache s)[i := (cache s ! i)\<lparr>is_dirty := False\<rparr>]"
    "dirty_slots (mark_clean i s) = dirty_slots s - {i}"
    "world (mark_clean i s) = world s" "bcache_ticks (mark_clean i s) = bcache_ticks s"
proof -
  let ?t = "mark_clean i s"
  show c: "cache ?t = (cache s)[i := (cache s ! i)\<lparr>is_dirty := False\<rparr>]"
    and w: "world ?t = world s" and "bcache_ticks ?t = bcache_ticks s"
    using i(2) by (simp_all add: mark_clean_def upd_slot_def)
  have nth: "cache ?t ! j = (if j = i then (cache s ! i)\<lparr>is_dirty := False\<rparr> else cache s ! j)" for j
    using c i(1) bcache_invD(1) [OF inv] by simp
  have h: "holds (cache ?t ! j) d l = holds (cache s ! j) d l" for j d l by (simp add: nth holds_def)
  show ds: "dirty_slots ?t = dirty_slots s - {i}" by (auto simp: dirty_slots_def nth split: if_splits)
  have im: "i \<in> dirty_slots s" using i by (simp add: dirty_slots_def)
  then have pos: "0 < card (dirty_slots s)" by (auto simp: card_gt_0_iff)
  then have "0 < dirty_count s" using bcache_invD(5) [OF inv] by (simp add: word_less_nat_alt)
  then have cnt: "unat (dirty_count ?t) = card (dirty_slots ?t)"
    using i(2) bcache_invD(5) [OF inv] pos im
    by (simp add: ds) (simp add: mark_clean_def unat_minus_one word_neq_0_conv)
  show inv': "bcache_inv plat ?t"
  proof (rule bcache_invI)
    show "data (cache ?t ! j) = plat (world ?t) d l"
      if "j < BCACHE_SIZE" "holds (cache ?t ! j) d l" "\<not> is_dirty (cache ?t ! j)" for j d l
      using that bcache_invD(4) [OF inv, of j d l] stored by (auto simp: nth w holds_def split: if_splits)
    show "j = k" if "j < BCACHE_SIZE" "k < BCACHE_SIZE" "holds (cache ?t ! j) d l" "holds (cache ?t ! k) d l" for j k d l
      using that bcache_invD(3) [OF inv] by (simp only: h)
    show "is_valid (cache ?t ! j)" if "j < BCACHE_SIZE" "is_dirty (cache ?t ! j)" for j
      using that bcache_invD(2) [OF inv, of j] by (simp add: nth split: if_splits)
  qed (use c bcache_invD(1) [OF inv] cnt in simp_all)
  show "view plat ?t = view plat s"
  proof (rule view_cong [OF inv inv'])
    show "view plat s d l = data (cache ?t ! j)" if "j < BCACHE_SIZE" "holds (cache ?t ! j) d l" for j d l
      using view_cached [OF inv that(1) that(2) [unfolded h]] by (simp add: nth)
    show "view plat s d l = plat (world ?t) d l" if "\<And>j. j < BCACHE_SIZE \<Longrightarrow> \<not> holds (cache ?t ! j) d l" for d l
      unfolding w by (rule view_uncached) (use that in \<open>simp add: h\<close>)
  qed
qed

subsection \<open>A slot to reuse\<close>

lemma older_None: "older P s i b = None \<longleftrightarrow> b = None \<and> \<not> P i"
  by (cases b) (auto simp: older_def Let_def)

lemma older_Some: "older P s i b = Some (j, a) \<Longrightarrow> b = Some (j, a) \<or> (j = i \<and> P i)"
  by (auto simp: older_def Let_def split: if_splits)

lemma fold_older_None: "fold (older P s) xs b = None \<longleftrightarrow> b = None \<and> (\<forall>i \<in> set xs. \<not> P i)"
  by (induction xs arbitrary: b) (auto simp: older_None)

lemma fold_older_Some: "fold (older P s) xs b = Some (j, a) \<Longrightarrow> b = Some (j, a) \<or> (j \<in> set xs \<and> P j)"
  by (induction xs arbitrary: b) (auto dest: older_Some)

lemma oldest_slot_SomeD:
  assumes "oldest_slot P s = Some i"
  shows "i < BCACHE_SIZE" "P i"
  using assms fold_older_Some [of P s "[0..<BCACHE_SIZE]" None] by (auto simp: oldest_slot_def)

lemma oldest_slot_NoneD:
  assumes "oldest_slot P s = None" "i < BCACHE_SIZE"
  shows "\<not> P i"
  using assms by (simp add: oldest_slot_def fold_older_None)

text \<open>Which sector each slot holds does not change while a slot is looked for.\<close>

definition same_keys :: "'w bcache \<Rightarrow> 'w bcache \<Rightarrow> bool" where
  "same_keys s t \<longleftrightarrow> (\<forall>i < BCACHE_SIZE. \<forall>d l. holds (cache t ! i) d l = holds (cache s ! i) d l)"

lemma evict_dirty_spec:
  assumes "bcache_inv plat s" "driver_ok dv plat" "dirty_slots s = {..<BCACHE_SIZE}"
    and "evict_dirty dv n tried s = (r, t)"
  shows "bcache_inv plat t \<and> view plat t = view plat s \<and> same_keys s t \<and>
    (\<forall>i. r = Some i \<longrightarrow> i < BCACHE_SIZE \<and> \<not> is_dirty (cache t ! i))"
  using assms
proof (induction n arbitrary: tried s r t)
  case 0
  then show ?case by (auto simp: same_keys_def)
next
  case (Suc n)
  show ?case
  proof (cases "oldest_slot (\<lambda>i. i \<notin> tried) s")
    case None
    then show ?thesis using Suc.prems by (auto simp: same_keys_def)
  next
    case (Some i)
    note i = oldest_slot_SomeD(1) [OF Some]
    then have di: "is_dirty (cache s ! i)" using Suc.prems(3) by (auto simp: dirty_slots_def)
    obtain st s1 where w: "write_slot dv i s = (st, s1)" by fastforce
    note sp = write_slot_spec [OF Suc.prems(1,2) i di w]
    show ?thesis
    proof (cases "st = None")
      case True
      then have rt: "r = Some i" "t = mark_clean i s1" using Suc.prems(4) Some w by auto
      note mc = mark_clean_spec [OF sp(2) i di [folded sp(1)] sp(4) [OF True, folded sp(1)]]
      have "same_keys s t"
        using mc(3) i bcache_invD(1) [OF Suc.prems(1)]
        by (auto simp: same_keys_def rt sp(1) holds_def nth_list_update)
      moreover have "\<not> is_dirty (cache t ! i)"
        using mc(3) i bcache_invD(1) [OF Suc.prems(1)] by (simp add: rt sp(1))
      ultimately show ?thesis using mc(1,2) sp(3) i rt by simp
    next
      case False
      then have "evict_dirty dv n (insert i tried) s1 = (r, t)" using Suc.prems(4) Some w by auto
      from Suc.IH [OF sp(2) Suc.prems(2) _ this] Suc.prems(3) sp(1,3) show ?thesis
        by (simp add: dirty_slots_def same_keys_def)
    qed
  qed
qed

lemma get_lru_spec:
  assumes "bcache_inv plat s" "driver_ok dv plat" "bcache_get_lru_slot dv s = (r, t)"
  shows "bcache_inv plat t \<and> view plat t = view plat s \<and> same_keys s t \<and>
    (\<forall>i. r = Some i \<longrightarrow> i < BCACHE_SIZE \<and> \<not> is_dirty (cache t ! i))"
proof (cases "find (\<lambda>i. \<not> is_valid (cache s ! i)) [0..<BCACHE_SIZE]")
  case (Some i)
  then have "r = Some i" "t = s" using assms(3) by (auto simp: bcache_get_lru_slot_def)
  moreover have "i < BCACHE_SIZE" "\<not> is_valid (cache s ! i)" using find_upt_SomeD [OF Some] by auto
  ultimately show ?thesis using assms(1) bcache_invD(2) [OF assms(1), of i] by (auto simp: same_keys_def)
next
  case None
  show ?thesis
  proof (cases "oldest_slot (\<lambda>i. \<not> is_dirty (cache s ! i)) s")
    case (Some i)
    then have "r = Some i" "t = s" using assms(3) None by (auto simp: bcache_get_lru_slot_def)
    then show ?thesis using assms(1) oldest_slot_SomeD [OF Some] by (auto simp: same_keys_def)
  next
    case old: None
    then have ev: "evict_dirty dv BCACHE_SIZE {} s = (r, t)" using assms(3) None by (simp add: bcache_get_lru_slot_def)
    have "dirty_slots s = {..<BCACHE_SIZE}" using oldest_slot_NoneD [OF old] by (auto simp: dirty_slots_def)
    then show ?thesis using evict_dirty_spec [OF assms(1,2) _ ev] by simp
  qed
qed

subsection \<open>Giving a slot a new sector\<close>

definition set_slot :: "nat \<Rightarrow> bcache_node_t \<Rightarrow> u32 \<Rightarrow> 'w bcache \<Rightarrow> 'w bcache" where
  "set_slot i n c s = s\<lparr>cache := (cache s)[i := n], dirty_count := c\<rparr>"

lemma nth_set_slot:
  "bcache_inv plat s \<Longrightarrow> i < BCACHE_SIZE \<Longrightarrow> cache (set_slot i n c s) ! j = (if j = i then n else cache s ! j)"
  by (simp add: set_slot_def bcache_invD(1))

lemma set_slot_sel [simp]:
  "world (set_slot i n c s) = world s" "dirty_count (set_slot i n c s) = c"
  "length (cache (set_slot i n c s)) = length (cache s)"
  by (simp_all add: set_slot_def)

lemma fill_slot:
  assumes inv: "bcache_inv plat s" and i: "i < BCACHE_SIZE" and n: "holds n d l"
    and free: "\<And>j. j < BCACHE_SIZE \<Longrightarrow> j \<noteq> i \<Longrightarrow> \<not> holds (cache s ! j) d l"
    and old: "is_dirty (cache s ! i) \<Longrightarrow> holds (cache s ! i) d l"
    and clean: "\<not> is_dirty n \<Longrightarrow> data n = plat (world s) d l"
    and c: "unat c = card (dirty_slots (set_slot i n c s))"
  shows "bcache_inv plat (set_slot i n c s)"
    "view plat (set_slot i n c s) = (view plat s)(d := (view plat s d)(l := data n))"
proof -
  let ?t = "set_slot i n c s"
  note nth = nth_set_slot [OF inv i]
  have hn: "holds n d' l' \<longleftrightarrow> d' = d \<and> l' = l" for d' l' using n by (auto simp: holds_def)
  show inv': "bcache_inv plat ?t"
  proof (rule bcache_invI)
    show "is_valid (cache ?t ! j)" if "j < BCACHE_SIZE" "is_dirty (cache ?t ! j)" for j
      using that n bcache_invD(2) [OF inv, of j] by (auto simp: nth holds_def split: if_splits)
    show "j = k" if "j < BCACHE_SIZE" "k < BCACHE_SIZE" "holds (cache ?t ! j) d' l'" "holds (cache ?t ! k) d' l'" for j k d' l'
      using that free bcache_invD(3) [OF inv, of j k d' l'] by (auto simp: nth hn split: if_splits)
    show "data (cache ?t ! j) = plat (world ?t) d' l'"
      if "j < BCACHE_SIZE" "holds (cache ?t ! j) d' l'" "\<not> is_dirty (cache ?t ! j)" for j d' l'
      using that clean bcache_invD(4) [OF inv, of j d' l'] by (auto simp: nth hn split: if_splits)
  qed (use bcache_invD(1) [OF inv] c in simp_all)
  show "view plat ?t = (view plat s)(d := (view plat s d)(l := data n))"
  proof (intro ext)
    fix d' l'
    consider "d' = d" "l' = l" | j where "d' \<noteq> d \<or> l' \<noteq> l" "j < BCACHE_SIZE" "j \<noteq> i" "holds (cache s ! j) d' l'"
      | "d' \<noteq> d \<or> l' \<noteq> l" "\<And>j. j < BCACHE_SIZE \<Longrightarrow> j \<noteq> i \<Longrightarrow> \<not> holds (cache s ! j) d' l'" by blast
    then show "view plat ?t d' l' = ((view plat s)(d := (view plat s d)(l := data n))) d' l'"
    proof cases
      case 1
      have "view plat ?t d l = data n" using view_cached [OF inv' i, of d l] n by (simp add: nth)
      then show ?thesis using 1 by simp
    next
      case 2
      then show ?thesis
        using view_cached [OF inv 2(2,4)] view_cached [OF inv' 2(2), of d' l'] by (auto simp: nth)
    next
      case 3
      have "view plat ?t d' l' = plat (world s) d' l'"
        using view_uncached [of ?t d' l' plat] 3 hn by (auto simp: nth)
      moreover have "view plat s d' l' = plat (world s) d' l'"
      proof (cases "holds (cache s ! i) d' l'")
        case True
        then have "\<not> is_dirty (cache s ! i)" using old 3(1) by (auto simp: holds_def)
        then show ?thesis using view_cached [OF inv i True] bcache_invD(4) [OF inv i True] by simp
      next
        case False
        then show ?thesis using 3(2) by (intro view_uncached) blast
      qed
      ultimately show ?thesis using 3(1) by auto
    qed
  qed
qed

lemma drop_clean_slot:
  assumes inv: "bcache_inv plat s" and i: "i < BCACHE_SIZE" "\<not> is_dirty (cache s ! i)"
    and n: "\<not> is_valid n" "\<not> is_dirty n"
  shows "bcache_inv plat (set_slot i n (dirty_count s) s)" "view plat (set_slot i n (dirty_count s) s) = view plat s"
proof -
  let ?t = "set_slot i n (dirty_count s) s"
  note nth = nth_set_slot [OF inv i(1)]
  have ds: "dirty_slots ?t = dirty_slots s" using i n(2) by (auto simp: dirty_slots_def nth split: if_splits)
  show inv': "bcache_inv plat ?t"
  proof (rule bcache_invI)
    show "is_valid (cache ?t ! j)" if "j < BCACHE_SIZE" "is_dirty (cache ?t ! j)" for j
      using that n bcache_invD(2) [OF inv, of j] by (auto simp: nth split: if_splits)
    show "j = k" if "j < BCACHE_SIZE" "k < BCACHE_SIZE" "holds (cache ?t ! j) d' l'" "holds (cache ?t ! k) d' l'" for j k d' l'
      using that n bcache_invD(3) [OF inv, of j k d' l'] by (auto simp: nth holds_def split: if_splits)
    show "data (cache ?t ! j) = plat (world ?t) d' l'"
      if "j < BCACHE_SIZE" "holds (cache ?t ! j) d' l'" "\<not> is_dirty (cache ?t ! j)" for j d' l'
      using that n bcache_invD(4) [OF inv, of j d' l'] by (auto simp: nth holds_def split: if_splits)
  qed (use bcache_invD(1,5) [OF inv] ds in simp_all)
  show "view plat ?t = view plat s"
  proof (rule view_cong [OF inv inv'])
    show "view plat s d l = data (cache ?t ! j)" if "j < BCACHE_SIZE" "holds (cache ?t ! j) d l" for j d l
      using that n view_cached [OF inv, of j d l] by (auto simp: nth holds_def split: if_splits)
    show "view plat s d l = plat (world ?t) d l" if "\<And>j. j < BCACHE_SIZE \<Longrightarrow> \<not> holds (cache ?t ! j) d l" for d l
    proof (cases "holds (cache s ! i) d l")
      case True
      then show ?thesis using view_cached [OF inv i(1)] bcache_invD(4) [OF inv i(1)] i(2) by simp
    next
      case False
      then have "\<not> holds (cache s ! j) d l" if "j < BCACHE_SIZE" for j
        using that \<open>\<And>j. j < BCACHE_SIZE \<Longrightarrow> \<not> holds (cache ?t ! j) d l\<close> [of j] by (auto simp: nth split: if_splits)
      then show ?thesis using view_uncached [of s d l plat] by simp
    qed
  qed
qed

lemma irrelevant_fields [simp]:
  "bcache_inv plat (s\<lparr>oldest_dirty_tick := n\<rparr>) = bcache_inv plat s"
  "view plat (s\<lparr>oldest_dirty_tick := n\<rparr>) = view plat s"
  by (simp_all add: bcache_inv_def dirty_slots_def view_def lookup_slot_def fun_eq_iff cong: option.case_cong)

lemma same_platter:
  assumes "plat w = plat (world s)"
  shows "bcache_inv plat (s\<lparr>world := w\<rparr>) = bcache_inv plat s" "view plat (s\<lparr>world := w\<rparr>) = view plat s"
  using assms
  by (simp_all add: bcache_inv_def dirty_slots_def view_def lookup_slot_def fun_eq_iff cong: option.case_cong)

lemma touch_slot:
  assumes inv: "bcache_inv plat s" and i: "i < BCACHE_SIZE"
  shows "bcache_inv plat (upd_slot i (last_access_update (\<lambda>_. a)) s)"
    "view plat (upd_slot i (last_access_update (\<lambda>_. a)) s) = view plat s"
proof -
  let ?t = "upd_slot i (last_access_update (\<lambda>_. a)) s"
  have nth: "cache ?t ! j = (if j = i then (cache s ! i)\<lparr>last_access := a\<rparr> else cache s ! j)" for j
    using i bcache_invD(1) [OF inv] by (simp add: upd_slot_def)
  have f: "is_valid (cache ?t ! j) = is_valid (cache s ! j)" "dev (cache ?t ! j) = dev (cache s ! j)"
    "sector (cache ?t ! j) = sector (cache s ! j)" "data (cache ?t ! j) = data (cache s ! j)"
    "is_dirty (cache ?t ! j) = is_dirty (cache s ! j)" for j by (simp_all add: nth)
  have g: "world ?t = world s" "dirty_count ?t = dirty_count s" "length (cache ?t) = length (cache s)"
    by (simp_all add: upd_slot_def)
  show "bcache_inv plat ?t" using inv by (simp add: bcache_inv_def dirty_slots_def holds_def f g)
  show "view plat ?t = view plat s" by (simp add: view_def lookup_slot_def fun_eq_iff f g cong: option.case_cong)
qed

lemma read_refill:
  fixes a :: u32
  assumes inv: "bcache_inv plat s" and i: "i < BCACHE_SIZE" "\<not> is_dirty (cache s ! i)"
    and free: "\<And>j. j < BCACHE_SIZE \<Longrightarrow> \<not> holds (cache s ! j) d l"
    and b: "b = plat (world s) d l"
  defines "t \<equiv> mark_clean i (upd_slot i
    (\<lambda>n. n\<lparr>dev := d, sector := l, is_valid := True, last_access := a\<rparr>) (upd_slot i (data_update (\<lambda>_. b)) s))"
  shows "bcache_inv plat t" "view plat t = view plat s" "data (cache t ! i) = b"
proof -
  let ?n = "(cache s ! i)\<lparr>data := b, dev := d, sector := l, is_valid := True, last_access := a\<rparr>"
  have len: "length (cache s) = BCACHE_SIZE" using bcache_invD(1) [OF inv] .
  have t: "t = set_slot i ?n (dirty_count s) s"
    using i len by (simp add: t_def mark_clean_def upd_slot_def set_slot_def)
  have "dirty_slots t = dirty_slots s" using i len by (auto simp: t dirty_slots_def nth_set_slot [OF inv] split: if_splits)
  then have c: "unat (dirty_count s) = card (dirty_slots (set_slot i ?n (dirty_count s) s))"
    using bcache_invD(5) [OF inv] by (simp add: t)
  have "holds ?n d l" by (simp add: holds_def)
  note f = fill_slot [OF inv i(1) this free _ _ c]
  show "bcache_inv plat t" using f(1) i(2) b by (simp add: t)
  have "view plat s d l = b" using view_uncached [of s d l plat] free b by simp
  then have "(view plat s)(d := (view plat s d)(l := b)) = view plat s" by (simp add: fun_eq_iff)
  then show "view plat t = view plat s" using f(2) i(2) b by (simp add: t)
  show "data (cache t ! i) = b" using nth_set_slot [OF inv i(1)] by (simp add: t)
qed

lemma bcache_read_spec:
  assumes inv: "bcache_inv plat s" and drv: "driver_ok dv plat"
    and r: "bcache_read_sector dv s d l buf = (st, buf', t)"
  shows "bcache_inv plat t \<and> view plat t = view plat s \<and> (st = None \<longrightarrow> buf' = Some (view plat s d l))"
proof (cases "blockdev_check_read dv d l buf = None \<and> sector_size (dv d) = 512")
  case False
  then have "t = s" "st \<noteq> None"
    using r by (cases "blockdev_check_read dv d l buf"; auto simp: bcache_read_sector_def)+
  then show ?thesis using inv by auto
next
  case chk: True
  define s1 where "s1 = s\<lparr>bcache_ticks := bcache_ticks s + 1\<rparr>"
  have inv1: "bcache_inv plat s1" and v1: "view plat s1 = view plat s" using inv by (simp_all add: s1_def)
  show ?thesis
  proof (cases "lookup_slot s1 d l")
    case (Some i)
    note h = lookup_SomeD [OF Some]
    have "st = None" "buf' = Some (data (cache s1 ! i))" "t = upd_slot i (last_access_update (\<lambda>_. bcache_ticks s1)) s1"
      using r chk Some by (auto simp: bcache_read_sector_def s1_def [symmetric] Let_def)
    then show ?thesis using touch_slot [OF inv1] view_cached [OF inv1] h v1 by auto
  next
    case miss: None
    obtain g s2 where lru: "bcache_get_lru_slot dv s1 = (g, s2)" by fastforce
    note sp = get_lru_spec [OF inv1 drv lru]
    show ?thesis
    proof (cases g)
      case None
      then have "t = s2" "st = Some E_IO" using r chk miss lru by (auto simp: bcache_read_sector_def s1_def [symmetric] Let_def)
      then show ?thesis using sp v1 by auto
    next
      case (Some i)
      then have i: "i < BCACHE_SIZE" "\<not> is_dirty (cache s2 ! i)" using sp by auto
      obtain st' b w where rd: "blockdev_read dv (world s2) d l (Some (data (cache s2 ! i))) = (st', b, w)"
        by (metis prod_cases3)
      note laws = blockdev_read_laws [OF drv rd]
      let ?s = "s2\<lparr>world := w\<rparr>"
      have inv2: "bcache_inv plat ?s" and v2: "view plat ?s = view plat s"
        using same_platter [of plat w s2] laws(1) sp v1 by auto
      have free: "\<not> holds (cache ?s ! j) d l" if "j < BCACHE_SIZE" for j
        using miss that sp by (auto simp: lookup_None same_keys_def)
      show ?thesis
      proof (cases "st' = None")
        case True
        then have b: "the b = plat (world ?s) d l" using laws by simp
        show ?thesis
          using r chk miss lru Some rd True read_refill [OF inv2 i(1) _ free b] i(2) v2 b view_uncached [of ?s d l plat] free
          by (auto simp: bcache_read_sector_def s1_def [symmetric] Let_def upd_slot_def)
      next
        case False
        then have "st \<noteq> None" "t = set_slot i ((cache s2 ! i)\<lparr>data := the b, is_valid := False\<rparr>) (dirty_count s2) ?s"
          using r chk miss lru Some rd i(1) bcache_invD(1) [OF inv2]
          by (auto simp: bcache_read_sector_def s1_def [symmetric] Let_def upd_slot_def set_slot_def)
        then show ?thesis using drop_clean_slot [OF inv2 i(1)] i(2) v2 by auto
      qed
    qed
  qed
qed

subsection \<open>Flushing keeps the view\<close>

lemma flush_slot_spec:
  assumes inv: "bcache_inv plat s" and drv: "driver_ok dv plat" and i: "i < BCACHE_SIZE"
    and f: "flush_slot dv i (fl, s) = (fl', t)"
  shows "bcache_inv plat t \<and> view plat t = view plat s \<and> dirty_slots t \<subseteq> dirty_slots s \<and>
    (\<not> fl' \<longrightarrow> \<not> fl \<and> i \<notin> dirty_slots t)"
proof (cases "is_dirty (cache s ! i)")
  case False
  then show ?thesis using f inv by (auto simp: flush_slot_def dirty_slots_def)
next
  case True
  obtain st s1 where w: "write_slot dv i s = (st, s1)" by fastforce
  note sp = write_slot_spec [OF inv drv i True w]
  have v: "is_valid (cache s ! i)" using bcache_invD(2) [OF inv i True] .
  show ?thesis
  proof (cases "st = None")
    case ok: True
    then have t: "fl' = fl" "t = mark_clean i s1" using f v True w by (auto simp: flush_slot_def)
    note mc = mark_clean_spec [OF sp(2) i True [folded sp(1)] sp(4) [OF ok, folded sp(1)]]
    have "dirty_slots s1 = dirty_slots s" by (simp add: dirty_slots_def sp(1))
    then show ?thesis using mc sp(3) t by auto
  next
    case False
    then have "fl'" "t = s1" using f v True w by (auto simp: flush_slot_def)
    then show ?thesis using sp(1-3) by (simp add: dirty_slots_def)
  qed
qed

lemma fold_flush_spec:
  assumes "bcache_inv plat s" "driver_ok dv plat" "\<forall>i \<in> set xs. i < BCACHE_SIZE"
    and "fold (flush_slot dv) xs (fl, s) = (fl', t)"
  shows "bcache_inv plat t \<and> view plat t = view plat s \<and> dirty_slots t \<subseteq> dirty_slots s \<and>
    (\<not> fl' \<longrightarrow> \<not> fl \<and> dirty_slots t \<inter> set xs = {})"
  using assms
proof (induction xs arbitrary: fl s)
  case (Cons i xs)
  obtain fl1 s1 where f: "flush_slot dv i (fl, s) = (fl1, s1)" by fastforce
  have "i < BCACHE_SIZE" using Cons.prems(3) by simp
  note sp = flush_slot_spec [OF Cons.prems(1,2) this f]
  have "fold (flush_slot dv) xs (fl1, s1) = (fl', t)" using Cons.prems(4) f by simp
  from Cons.IH [OF _ Cons.prems(2) _ this] sp Cons.prems(3) show ?case by auto
qed simp

lemma bcache_flush_spec:
  assumes "bcache_inv plat s" "driver_ok dv plat" "bcache_flush_reporting dv s = (st, t)"
  shows "bcache_inv plat t \<and> view plat t = view plat s \<and> dirty_slots t \<subseteq> dirty_slots s \<and>
    (st = None \<longrightarrow> dirty_slots t = {}) \<and> (st = None \<or> st = Some E_IO)"
proof -
  obtain fl where f: "fold (flush_slot dv) [0..<BCACHE_SIZE] (False, s) = (fl, t)" "st = (if fl then Some E_IO else None)"
    using assms(3) by (auto simp: bcache_flush_reporting_def split: prod.splits)
  have "dirty_slots t \<subseteq> {..<BCACHE_SIZE}" by (auto simp: dirty_slots_def)
  then show ?thesis using fold_flush_spec [OF assms(1,2) _ f(1)] f(2) by (auto simp: atLeast0LessThan)
qed

lemma no_dirty_platter:
  assumes "bcache_inv plat s" "dirty_slots s = {}"
  shows "plat (world s) = view plat s"
proof (intro ext)
  fix d l
  show "plat (world s) d l = view plat s d l"
  proof (cases "\<exists>i < BCACHE_SIZE. holds (cache s ! i) d l")
    case True
    then obtain i where i: "i < BCACHE_SIZE" "holds (cache s ! i) d l" by blast
    then have "\<not> is_dirty (cache s ! i)" using assms(2) by (auto simp: dirty_slots_def)
    then show ?thesis using view_cached [OF assms(1) i] bcache_invD(4) [OF assms(1) i] by simp
  next
    case False
    then show ?thesis using view_uncached [of s d l plat] by simp
  qed
qed

subsection \<open>Writing updates one sector of the view\<close>

lemma store_slot_spec:
  assumes inv: "bcache_inv plat s" and i: "i < BCACHE_SIZE"
    and free: "\<And>j. j < BCACHE_SIZE \<Longrightarrow> j \<noteq> i \<Longrightarrow> \<not> holds (cache s ! j) d l"
    and old: "is_dirty (cache s ! i) \<Longrightarrow> holds (cache s ! i) d l"
  shows "bcache_inv plat (store_slot now i d l b s)"
    "view plat (store_slot now i d l b s) = (view plat s)(d := (view plat s d)(l := b))"
proof -
  let ?n = "(cache s ! i)\<lparr>dev := d, sector := l, is_valid := True, last_access := bcache_ticks s, data := b, is_dirty := True\<rparr>"
  let ?c = "if is_dirty (cache s ! i) then dirty_count s else dirty_count s + 1"
  note nth = nth_set_slot [OF inv i]
  have len: "length (cache s) = BCACHE_SIZE" using bcache_invD(1) [OF inv] .
  obtain o' where t: "store_slot now i d l b s = (set_slot i ?n ?c s)\<lparr>oldest_dirty_tick := o'\<rparr>"
  proof (cases "is_dirty (cache s ! i)")
    case True
    then show ?thesis using that [of "oldest_dirty_tick s"] len i
      by (cases "cache s ! i") (simp add: store_slot_def mark_dirty_def upd_slot_def set_slot_def)
  next
    case False
    then show ?thesis using that [of "if dirty_count s = 0 then now else oldest_dirty_tick s"] len i
      by (simp add: store_slot_def mark_dirty_def upd_slot_def set_slot_def)
  qed
  have ds: "dirty_slots (set_slot i ?n ?c s) = insert i (dirty_slots s)"
    using i by (auto simp: dirty_slots_def nth)
  have "unat ?c = card (insert i (dirty_slots s))"
  proof (cases "is_dirty (cache s ! i)")
    case True
    then have "insert i (dirty_slots s) = dirty_slots s" using i by (auto simp: dirty_slots_def)
    then show ?thesis using True bcache_invD(5) [OF inv] by simp
  next
    case False
    then have "i \<notin> dirty_slots s" by (simp add: dirty_slots_def)
    moreover have "unat (dirty_count s + 1) = Suc (unat (dirty_count s))"
      using bcache_invD(5) [OF inv] card_dirty_le [of s] by (intro unat_add_1) (simp add: BCACHE_SIZE_def)
    ultimately show ?thesis using False bcache_invD(5) [OF inv] by simp
  qed
  then have c: "unat ?c = card (dirty_slots (set_slot i ?n ?c s))" by (simp add: ds)
  have "holds ?n d l" by (simp add: holds_def)
  note f = fill_slot [OF inv i this free old _ c]
  show "bcache_inv plat (store_slot now i d l b s)" unfolding t irrelevant_fields using f(1) by simp
  show "view plat (store_slot now i d l b s) = (view plat s)(d := (view plat s d)(l := b))"
    unfolding t irrelevant_fields using f(2) by simp
qed

lemma bcache_write_spec:
  assumes inv: "bcache_inv plat s" and drv: "driver_ok dv plat"
    and r: "bcache_write_sector dv now s d l buf = (st, t)"
  shows "bcache_inv plat t \<and>
    view plat t = (if st = None then (view plat s)(d := (view plat s d)(l := the buf)) else view plat s)"
proof (cases "blockdev_check_write dv d l buf = None \<and> sector_size (dv d) = 512")
  case False
  then have "t = s" "st \<noteq> None"
    using r by (cases "blockdev_check_write dv d l buf"; auto simp: bcache_write_sector_def)+
  then show ?thesis using inv by auto
next
  case chk: True
  define s1 where "s1 = s\<lparr>bcache_ticks := bcache_ticks s + 1\<rparr>"
  have inv1: "bcache_inv plat s1" and v1: "view plat s1 = view plat s" using inv by (simp_all add: s1_def)
  obtain g s2 where pick: "(case lookup_slot s1 d l of Some i \<Rightarrow> (Some i, s1) | None \<Rightarrow> bcache_get_lru_slot dv s1) = (g, s2)"
    by fastforce
  have sp: "bcache_inv plat s2 \<and> view plat s2 = view plat s \<and> (\<forall>i. g = Some i \<longrightarrow> i < BCACHE_SIZE \<and>
      (\<forall>j < BCACHE_SIZE. j \<noteq> i \<longrightarrow> \<not> holds (cache s2 ! j) d l) \<and> (is_dirty (cache s2 ! i) \<longrightarrow> holds (cache s2 ! i) d l))"
  proof (cases "lookup_slot s1 d l")
    case None
    then have "bcache_get_lru_slot dv s1 = (g, s2)" using pick by simp
    from get_lru_spec [OF inv1 drv this] None [unfolded lookup_None] v1 show ?thesis by (auto simp: same_keys_def)
  next
    case (Some i)
    then have "g = Some i" "s2 = s1" using pick by auto
    then show ?thesis using lookup_SomeD [OF Some] inv1 v1 bcache_invD(3) [OF inv1] by blast
  qed
  show ?thesis
  proof (cases g)
    case None
    then have "st = Some E_IO" "t = s2"
      using r chk pick by (auto simp: bcache_write_sector_def s1_def [symmetric] Let_def)
    then show ?thesis using sp by simp
  next
    case (Some i)
    let ?s3 = "store_slot now i d l (the buf) s2"
    have i: "i < BCACHE_SIZE" "\<And>j. j < BCACHE_SIZE \<Longrightarrow> j \<noteq> i \<Longrightarrow> \<not> holds (cache s2 ! j) d l"
      "is_dirty (cache s2 ! i) \<Longrightarrow> holds (cache s2 ! i) d l" using sp Some by auto
    note ss = store_slot_spec [OF conjunct1 [OF sp] i, of now "the buf"]
    have t: "st = None" "t = (if BCACHE_DIRTY_HIGH_WATER \<le> dirty_count ?s3 then snd (bcache_flush_reporting dv ?s3) else ?s3)"
      using r chk pick Some by (auto simp: bcache_write_sector_def s1_def [symmetric] Let_def)
    have "bcache_inv plat t \<and> view plat t = view plat ?s3"
      using t(2) bcache_flush_spec [OF ss(1) drv] ss(1) by (metis prod.collapse)
    then show ?thesis using ss(2) sp t(1) by simp
  qed
qed

subsection \<open>Flushing one device\<close>

lemma drop_slot_set: "is_dirty (cache s ! i) = False \<Longrightarrow>
  drop_slot i s = set_slot i ((cache s ! i)\<lparr>is_valid := False, dev := 0\<rparr>) (dirty_count s) s"
  by (simp add: drop_slot_def upd_slot_def set_slot_def)

definition dev_slots :: "dev_ptr \<Rightarrow> 'w bcache \<Rightarrow> nat set" where
  "dev_slots d s = {i. i < BCACHE_SIZE \<and> is_valid (cache s ! i) \<and> dev (cache s ! i) = d}"

lemma drop_slot_spec:
  assumes inv: "bcache_inv plat s" and i: "i < BCACHE_SIZE" "\<not> is_dirty (cache s ! i)"
  shows "bcache_inv plat (drop_slot i s)" "view plat (drop_slot i s) = view plat s"
    "dev_slots d (drop_slot i s) = dev_slots d s - {i}"
proof -
  let ?n = "(cache s ! i)\<lparr>is_valid := False, dev := 0\<rparr>"
  have t: "drop_slot i s = set_slot i ?n (dirty_count s) s" using i(2) by (simp add: drop_slot_set)
  show "bcache_inv plat (drop_slot i s)" "view plat (drop_slot i s) = view plat s"
    unfolding t using drop_clean_slot [OF inv i, of ?n] i(2) by simp_all
  show "dev_slots d (drop_slot i s) = dev_slots d s - {i}"
    unfolding t by (auto simp: dev_slots_def nth_set_slot [OF inv i(1)] split: if_splits)
qed

lemma flush_dev_slot_spec:
  assumes inv: "bcache_inv plat s" and drv: "driver_ok dv plat" and i: "i < BCACHE_SIZE"
    and f: "flush_dev_slot dv d i (fl, s) = (fl', t)"
  shows "bcache_inv plat t \<and> view plat t = view plat s \<and> dev_slots d t \<subseteq> dev_slots d s \<and>
    (\<not> fl' \<longrightarrow> \<not> fl \<and> i \<notin> dev_slots d t)"
proof -
  consider "i \<notin> dev_slots d s" | "i \<in> dev_slots d s" "\<not> is_dirty (cache s ! i)"
    | "i \<in> dev_slots d s" "is_dirty (cache s ! i)" by blast
  then show ?thesis
  proof cases
    case 1
    then have "fl' = fl" "t = s" using f i by (auto simp: flush_dev_slot_def dev_slots_def)
    then show ?thesis using 1 inv by simp
  next
    case 2
    then have "fl' = fl" "t = drop_slot i s" using f by (auto simp: flush_dev_slot_def dev_slots_def)
    then show ?thesis using drop_slot_spec [OF inv i 2(2)] by auto
  next
    case 3
    obtain st s1 where w: "write_slot dv i s = (st, s1)" by fastforce
    note sp = write_slot_spec [OF inv drv i 3(2) w]
    have ds: "dev_slots d s1 = dev_slots d s" by (simp add: dev_slots_def sp(1))
    show ?thesis
    proof (cases "st = None")
      case True
      let ?c = "mark_clean i s1"
      have t: "fl' = fl" "t = drop_slot i ?c" using f 3 w True by (auto simp: flush_dev_slot_def dev_slots_def)
      note mc = mark_clean_spec [OF sp(2) i 3(2) [folded sp(1)] sp(4) [OF True, folded sp(1)]]
      have len: "length (cache s1) = BCACHE_SIZE" using bcache_invD(1) [OF sp(2)] .
      have "\<not> is_dirty (cache ?c ! i)" using mc(3) i len by simp
      note dr = drop_slot_spec [OF mc(1) i this]
      have "dev_slots d ?c = dev_slots d s1"
        using i len by (auto simp: dev_slots_def mc(3) nth_list_update split: if_splits)
      then show ?thesis using dr mc(2) sp(3) ds t by auto
    next
      case False
      then have "fl'" "t = s1" using f 3 w by (auto simp: flush_dev_slot_def dev_slots_def)
      then show ?thesis using sp(2,3) ds by simp
    qed
  qed
qed

lemma fold_flush_dev_spec:
  assumes "bcache_inv plat s" "driver_ok dv plat" "\<forall>i \<in> set xs. i < BCACHE_SIZE"
    and "fold (flush_dev_slot dv d) xs (fl, s) = (fl', t)"
  shows "bcache_inv plat t \<and> view plat t = view plat s \<and> dev_slots d t \<subseteq> dev_slots d s \<and>
    (\<not> fl' \<longrightarrow> \<not> fl \<and> dev_slots d t \<inter> set xs = {})"
  using assms
proof (induction xs arbitrary: fl s)
  case (Cons i xs)
  obtain fl1 s1 where f: "flush_dev_slot dv d i (fl, s) = (fl1, s1)" by fastforce
  have "i < BCACHE_SIZE" using Cons.prems(3) by simp
  note sp = flush_dev_slot_spec [OF Cons.prems(1,2) this f]
  have "fold (flush_dev_slot dv d) xs (fl1, s1) = (fl', t)" using Cons.prems(4) f by simp
  from Cons.IH [OF _ Cons.prems(2) _ this] sp Cons.prems(3) show ?case by auto
qed simp

lemma bcache_flush_dev_spec:
  assumes "bcache_inv plat s" "driver_ok dv plat" "bcache_flush_dev dv d s = (st, t)"
  shows "bcache_inv plat t \<and> view plat t = view plat s \<and>
    (st = None \<longrightarrow> dev_slots d t = {} \<and> plat (world t) d = view plat s d)"
proof (cases "d = 0")
  case True
  then show ?thesis using assms by (auto simp: bcache_flush_dev_def)
next
  case False
  then obtain fl where f: "fold (flush_dev_slot dv d) [0..<BCACHE_SIZE] (False, s) = (fl, t)" "st = (if fl then Some E_IO else None)"
    using assms(3) by (auto simp: bcache_flush_dev_def split: prod.splits)
  note sp = fold_flush_dev_spec [OF assms(1,2) _ f(1)]
  have sub: "dev_slots d t \<subseteq> {..<BCACHE_SIZE}" by (auto simp: dev_slots_def)
  have none: "dev_slots d t = {}" if "st = None" using sp f(2) sub that by (auto simp: atLeast0LessThan split: if_splits)
  have "plat (world t) d l = view plat t d l" if "st = None" for l
    by (rule view_uncached [symmetric]) (use none [OF that] in \<open>auto simp: dev_slots_def holds_def\<close>)
  then show ?thesis using sp none by auto
qed

lemma bcache_init_spec:
  "bcache_inv plat (bcache_init s) \<and> view plat (bcache_init s) = plat (world s)"
proof -
  have nth: "i < BCACHE_SIZE \<Longrightarrow> cache (bcache_init s) ! i = \<lparr>dev = 0, sector = 0, data = zero_sector,
      last_access = 0, is_valid = False, is_dirty = False\<rparr>" for i
    by (simp add: bcache_init_def)
  have "dirty_slots (bcache_init s) = {}" by (auto simp: dirty_slots_def nth)
  moreover have "length (cache (bcache_init s)) = BCACHE_SIZE" "dirty_count (bcache_init s) = 0" "world (bcache_init s) = world s"
    by (simp_all add: bcache_init_def)
  ultimately have inv: "bcache_inv plat (bcache_init s)"
    by (intro bcache_invI) (auto simp: nth holds_def)
  show ?thesis using inv no_dirty_platter [OF inv] \<open>dirty_slots (bcache_init s) = {}\<close> \<open>world (bcache_init s) = world s\<close>
    by simp
qed

subsection \<open>On devices that do not fail\<close>

definition healthy :: "'w dev_store \<Rightarrow> bool" where
  "healthy dv \<longleftrightarrow> (\<forall>d rd w l. dev_read (dv d) = Some rd \<longrightarrow> fst (rd w l) = None) \<and>
     (\<forall>d wr w l b. dev_write (dv d) = Some wr \<longrightarrow> fst (wr w l b) = None)"

text \<open>What is dirty was accepted for a device that takes writes.\<close>

definition dirty_ok :: "'w dev_store \<Rightarrow> 'w bcache \<Rightarrow> bool" where
  "dirty_ok dv s \<longleftrightarrow> (\<forall>i < BCACHE_SIZE. is_dirty (cache s ! i) \<longrightarrow>
     blockdev_check_write dv (dev (cache s ! i)) (sector (cache s ! i)) (Some (data (cache s ! i))) = None)"

lemma check_write_buf: "blockdev_check_write dv d l (Some b) = blockdev_check_write dv d l (Some c)"
  by (simp add: blockdev_check_write_def)

text \<open>Looking for a slot and flushing only ever clean slots.\<close>

definition fewer_dirty :: "'w bcache \<Rightarrow> 'w bcache \<Rightarrow> bool" where
  "fewer_dirty s t \<longleftrightarrow> (\<forall>i < BCACHE_SIZE. is_dirty (cache t ! i) \<longrightarrow>
     is_dirty (cache s ! i) \<and> dev (cache t ! i) = dev (cache s ! i) \<and> sector (cache t ! i) = sector (cache s ! i))"

lemma fewer_dirty_refl [simp]: "fewer_dirty s s"
  by (simp add: fewer_dirty_def)

lemma fewer_dirty_trans: "fewer_dirty s t \<Longrightarrow> fewer_dirty t u \<Longrightarrow> fewer_dirty s u"
  by (auto simp: fewer_dirty_def)

lemma fewer_dirty_ok: "dirty_ok dv s \<Longrightarrow> fewer_dirty s t \<Longrightarrow> dirty_ok dv t"
  unfolding dirty_ok_def fewer_dirty_def using check_write_buf by metis

lemma write_slot_cache: "write_slot dv i s = (st, t) \<Longrightarrow> cache t = cache s"
  by (auto simp: write_slot_def split: prod.splits)

lemma mark_clean_fewer: "length (cache s) = BCACHE_SIZE \<Longrightarrow> fewer_dirty s (mark_clean i s)"
  by (cases "i < BCACHE_SIZE") (auto simp: fewer_dirty_def mark_clean_def upd_slot_def nth_list_update split: if_splits)

lemma write_clean_fewer:
  assumes "length (cache s) = BCACHE_SIZE" "write_slot dv i s = (st, s1)"
  shows "fewer_dirty s s1" "fewer_dirty s (mark_clean i s1)"
proof -
  have c: "cache s1 = cache s" using write_slot_cache [OF assms(2)] .
  then show f: "fewer_dirty s s1" by (simp add: fewer_dirty_def)
  show "fewer_dirty s (mark_clean i s1)" using fewer_dirty_trans [OF f mark_clean_fewer] assms(1) c by simp
qed

lemma length_mark_clean [simp]: "length (cache (mark_clean i s)) = length (cache s)"
  by (simp add: mark_clean_def upd_slot_def)

lemma evict_fewer:
  "length (cache s) = BCACHE_SIZE \<Longrightarrow> evict_dirty dv n tried s = (r, t) \<Longrightarrow> fewer_dirty s t"
proof (induction n arbitrary: tried s r t)
  case (Suc n)
  show ?case
  proof (cases "oldest_slot (\<lambda>i. i \<notin> tried) s")
    case (Some i)
    obtain st s1 where w: "write_slot dv i s = (st, s1)" by fastforce
    note f = write_clean_fewer [OF Suc.prems(1) w]
    show ?thesis
      using Suc.prems Some w f Suc.IH [of s1 "insert i tried" r t] write_slot_cache [OF w] fewer_dirty_trans
      by (auto split: if_splits)
  qed (use Suc.prems in auto)
qed auto

lemma get_lru_fewer:
  "length (cache s) = BCACHE_SIZE \<Longrightarrow> bcache_get_lru_slot dv s = (r, t) \<Longrightarrow> fewer_dirty s t"
  using evict_fewer by (auto simp: bcache_get_lru_slot_def split: option.splits)

lemma fold_flush_fewer:
  "length (cache s) = BCACHE_SIZE \<Longrightarrow> fold (flush_slot dv) xs (fl, s) = (fl', t) \<Longrightarrow> fewer_dirty s t"
proof (induction xs arbitrary: fl s)
  case (Cons i xs)
  obtain st s1 where w: "write_slot dv i s = (st, s1)" by fastforce
  note f = write_clean_fewer [OF Cons.prems(1) w]
  have l: "length (cache s1) = BCACHE_SIZE" using write_slot_cache [OF w] Cons.prems(1) by simp
  obtain fl1 s2 where fs: "flush_slot dv i (fl, s) = (fl1, s2)" by fastforce
  then have "s2 = s \<or> s2 = s1 \<or> s2 = mark_clean i s1" using w by (auto simp: flush_slot_def split: if_splits)
  then have "fewer_dirty s s2" "length (cache s2) = BCACHE_SIZE" using f l Cons.prems(1) by auto
  then show ?case using Cons.IH [of s2 fl1] Cons.prems(2) fs fewer_dirty_trans by auto
qed auto

lemma flush_fewer:
  "length (cache s) = BCACHE_SIZE \<Longrightarrow> fewer_dirty s (snd (bcache_flush_reporting dv s))"
  using fold_flush_fewer by (auto simp: bcache_flush_reporting_def split: prod.splits)

lemma healthy_write:
  assumes "healthy dv" "blockdev_check_write dv d l buf = None"
  shows "fst (blockdev_write dv w d l buf) = None"
proof -
  obtain wr where "dev_write (dv d) = Some wr"
    using assms(2) by (auto simp: blockdev_check_write_def split: option.splits if_splits)
  then show ?thesis using assms by (simp add: blockdev_write_def healthy_def)
qed

lemma healthy_read:
  assumes "healthy dv" "blockdev_check_read dv d l buf = None" "blockdev_read dv w d l buf = (st, b, w')"
  shows "st = None"
proof -
  obtain rd where "dev_read (dv d) = Some rd"
    using assms(2) by (auto simp: blockdev_check_read_def split: option.splits if_splits)
  then show ?thesis using assms unfolding blockdev_read_def healthy_def by (auto split: prod.splits) (metis fst_conv)
qed

lemma get_lru_healthy:
  assumes "healthy dv" "dirty_ok dv s" "bcache_get_lru_slot dv s = (r, t)"
  shows "r \<noteq> None"
proof (cases "find (\<lambda>i. \<not> is_valid (cache s ! i)) [0..<BCACHE_SIZE] = None \<and>
    oldest_slot (\<lambda>i. \<not> is_dirty (cache s ! i)) s = None")
  case False
  then show ?thesis using assms(3) by (auto simp: bcache_get_lru_slot_def split: option.splits) (metis)+
next
  case True
  then have ev: "evict_dirty dv BCACHE_SIZE {} s = (r, t)" using assms(3) by (simp add: bcache_get_lru_slot_def)
  obtain i where i: "oldest_slot (\<lambda>i. i \<notin> {}) s = Some i"
    using oldest_slot_NoneD [of "\<lambda>i. i \<notin> {}" s 0] by (auto simp: BCACHE_SIZE_def)
  have "is_dirty (cache s ! i)" using oldest_slot_NoneD [OF conjunct2 [OF True]] oldest_slot_SomeD(1) [OF i] by blast
  then have "blockdev_check_write dv (dev (cache s ! i)) (sector (cache s ! i)) (Some (data (cache s ! i))) = None"
    using assms(2) oldest_slot_SomeD(1) [OF i] by (simp add: dirty_ok_def)
  then have "fst (write_slot dv i s) = None" using healthy_write [OF assms(1)] by (auto simp: write_slot_def split: prod.splits) (metis fst_conv)
  moreover have "evict_dirty dv (Suc 63) {} s = (r, t)" using ev by (simp add: BCACHE_SIZE_def)
  ultimately show ?thesis using i unfolding evict_dirty.simps by (auto split: prod.splits) metis
qed

lemma upd_slot_dirty_ok:
  assumes "dirty_ok dv s" "length (cache s) = BCACHE_SIZE" "\<not> is_dirty (f (cache s ! i))"
  shows "dirty_ok dv (upd_slot i f s)"
  using assms by (cases "i < BCACHE_SIZE") (auto simp: dirty_ok_def upd_slot_def nth_list_update)

lemma bcache_write_healthy:
  assumes inv: "bcache_inv plat s" and drv: "driver_ok dv plat" "healthy dv" "dirty_ok dv s"
    and chk: "blockdev_check_write dv d l (Some b) = None" "sector_size (dv d) = 512"
    and r: "bcache_write_sector dv now s d l (Some b) = (st, t)"
  shows "st = None" "dirty_ok dv t"
proof -
  define s1 where "s1 = s\<lparr>bcache_ticks := bcache_ticks s + 1\<rparr>"
  have inv1: "bcache_inv plat s1" using inv by (simp add: s1_def)
  have do1: "dirty_ok dv s1" using drv(3) by (simp add: s1_def dirty_ok_def)
  obtain g s2 where pick: "(case lookup_slot s1 d l of Some i \<Rightarrow> (Some i, s1) | None \<Rightarrow> bcache_get_lru_slot dv s1) = (g, s2)"
    by fastforce
  have "g \<noteq> None \<and> fewer_dirty s1 s2 \<and> length (cache s2) = BCACHE_SIZE"
  proof (cases "lookup_slot s1 d l")
    case None
    then have lru: "bcache_get_lru_slot dv s1 = (g, s2)" using pick by simp
    then show ?thesis
      using get_lru_healthy [OF drv(2) do1 lru] get_lru_fewer [OF bcache_invD(1) [OF inv1] lru]
        bcache_invD(1) [OF conjunct1 [OF get_lru_spec [OF inv1 drv(1) lru]]] by simp
  next
    case (Some i)
    then have "g = Some i" "s2 = s1" using pick by simp_all
    then show ?thesis using bcache_invD(1) [OF inv1] by simp
  qed
  then obtain i where g: "g = Some i" and f: "fewer_dirty s1 s2" and len: "length (cache s2) = BCACHE_SIZE" by auto
  let ?s3 = "store_slot now i d l b s2"
  have t: "st = None" "t = (if BCACHE_DIRTY_HIGH_WATER \<le> dirty_count ?s3 then snd (bcache_flush_reporting dv ?s3) else ?s3)"
    using r chk pick g by (auto simp: bcache_write_sector_def s1_def [symmetric] Let_def)
  show "st = None" by (rule t(1))
  have do2: "dirty_ok dv s2" by (rule fewer_dirty_ok [OF do1 f])
  have d3: "dirty_ok dv ?s3" and l3: "length (cache ?s3) = BCACHE_SIZE"
    using do2 len chk(1) check_write_buf
    by (cases "i < BCACHE_SIZE"; auto simp: dirty_ok_def store_slot_def mark_dirty_def upd_slot_def nth_list_update)+
  show "dirty_ok dv t" using t(2) d3 fewer_dirty_ok [OF d3 flush_fewer [OF l3]] by simp
qed

lemma bcache_read_healthy:
  assumes inv: "bcache_inv plat s" and drv: "driver_ok dv plat" "healthy dv" "dirty_ok dv s"
    and chk: "blockdev_check_read dv d l (Some buf) = None" "sector_size (dv d) = 512"
    and r: "bcache_read_sector dv s d l (Some buf) = (st, buf', t)"
  shows "st = None" "dirty_ok dv t"
proof -
  define s1 where "s1 = s\<lparr>bcache_ticks := bcache_ticks s + 1\<rparr>"
  have inv1: "bcache_inv plat s1" using inv by (simp add: s1_def)
  have do1: "dirty_ok dv s1" using drv(3) by (simp add: s1_def dirty_ok_def)
  have "st = None \<and> dirty_ok dv t"
  proof (cases "lookup_slot s1 d l")
    case (Some i)
    then have "st = None" "t = upd_slot i (last_access_update (\<lambda>_. bcache_ticks s1)) s1"
      using r chk by (auto simp: bcache_read_sector_def s1_def [symmetric] Let_def)
    moreover have "dirty_ok dv (upd_slot i (last_access_update (\<lambda>_. bcache_ticks s1)) s1)"
      using do1 bcache_invD(1) [OF inv1] lookup_SomeD [OF Some]
      by (auto simp: dirty_ok_def upd_slot_def nth_list_update)
    ultimately show ?thesis by simp
  next
    case miss: None
    obtain g s2 where lru: "bcache_get_lru_slot dv s1 = (g, s2)" by fastforce
    note sp = get_lru_spec [OF inv1 drv(1) lru]
    obtain i where g: "g = Some i" using get_lru_healthy [OF drv(2) do1 lru] by auto
    have i: "i < BCACHE_SIZE" "\<not> is_dirty (cache s2 ! i)" using sp g by auto
    have do2: "dirty_ok dv s2" by (rule fewer_dirty_ok [OF do1 get_lru_fewer [OF bcache_invD(1) [OF inv1] lru]])
    have len: "length (cache s2) = BCACHE_SIZE" using bcache_invD(1) sp by blast
    obtain st' b' w where rd: "blockdev_read dv (world s2) d l (Some (data (cache s2 ! i))) = (st', b', w)"
      by (metis prod_cases3)
    have "blockdev_check_read dv d l (Some (data (cache s2 ! i))) = None"
      using chk(1) by (simp add: blockdev_check_read_def cong: option.case_cong)
    from healthy_read [OF drv(2) this rd] have st': "st' = None" .
    show ?thesis using r chk miss lru g rd st' i len do2
      by (auto simp: bcache_read_sector_def s1_def [symmetric] Let_def mark_clean_def upd_slot_def dirty_ok_def nth_list_update)
  qed
  then show "st = None" "dirty_ok dv t" by simp_all
qed

subsection \<open>The cache as a disk\<close>

text \<open>
  What a file system needs of the layer below it: sectors that keep what was written to them,
  whatever fails.  An event records a request and its outcome; \<open>disk_run\<close> is the abstract disk,
  a map from sectors to contents, checked against a history of events.
\<close>

datatype store_op = Read_op dev_ptr u32 | Write_op u32 dev_ptr u32 Blockdev.sector | Sync_op
  | Tick_op u32 | Unmount_op dev_ptr

datatype store_event = Did_read dev_ptr u32 "Blockdev.sector option" | Did_write dev_ptr u32 Blockdev.sector
  | Failed errno | Did_sync

fun disk_run :: "(dev_ptr \<Rightarrow> u32 \<Rightarrow> Blockdev.sector) \<Rightarrow> store_event list \<Rightarrow>
  (dev_ptr \<Rightarrow> u32 \<Rightarrow> Blockdev.sector) option" where
  "disk_run m [] = Some m"
| "disk_run m (Did_read d l b # es) = (if b = Some (m d l) then disk_run m es else None)"
| "disk_run m (Did_write d l b # es) = disk_run (m(d := (m d)(l := b))) es"
| "disk_run m (Failed e # es) = disk_run m es"
| "disk_run m (Did_sync # es) = disk_run m es"

fun store_run :: "('s \<Rightarrow> dev_ptr \<Rightarrow> u32 \<Rightarrow> status \<times> Blockdev.sector option \<times> 's) \<Rightarrow>
  ('s \<Rightarrow> u32 \<Rightarrow> dev_ptr \<Rightarrow> u32 \<Rightarrow> Blockdev.sector \<Rightarrow> status \<times> 's) \<Rightarrow> ('s \<Rightarrow> store_op \<Rightarrow> status \<times> 's) \<Rightarrow>
  's \<Rightarrow> store_op list \<Rightarrow> store_event list \<times> 's" where
  "store_run rd wr ctl s [] = ([], s)"
| "store_run rd wr ctl s (Read_op d l # ops) =
     (let (st, b, s1) = rd s d l; (es, s2) = store_run rd wr ctl s1 ops
      in ((case st of None \<Rightarrow> Did_read d l b | Some e \<Rightarrow> Failed e) # es, s2))"
| "store_run rd wr ctl s (Write_op now d l b # ops) =
     (let (st, s1) = wr s now d l b; (es, s2) = store_run rd wr ctl s1 ops
      in ((case st of None \<Rightarrow> Did_write d l b | Some e \<Rightarrow> Failed e) # es, s2))"
| "store_run rd wr ctl s (op # ops) =
     (let (st, s1) = ctl s op; (es, s2) = store_run rd wr ctl s1 ops
      in ((case st of None \<Rightarrow> Did_sync | Some e \<Rightarrow> Failed e) # es, s2))"

locale sector_store =
  fixes inv :: "'s \<Rightarrow> bool"
    and vw :: "'s \<Rightarrow> dev_ptr \<Rightarrow> u32 \<Rightarrow> Blockdev.sector"
    and rd :: "'s \<Rightarrow> dev_ptr \<Rightarrow> u32 \<Rightarrow> status \<times> Blockdev.sector option \<times> 's"
    and wr :: "'s \<Rightarrow> u32 \<Rightarrow> dev_ptr \<Rightarrow> u32 \<Rightarrow> Blockdev.sector \<Rightarrow> status \<times> 's"
    and ctl :: "'s \<Rightarrow> store_op \<Rightarrow> status \<times> 's"
  assumes rd_law: "inv s \<Longrightarrow> rd s d l = (st, b, s') \<Longrightarrow>
      inv s' \<and> vw s' = vw s \<and> (st = None \<longrightarrow> b = Some (vw s d l))"
    and wr_law: "inv s \<Longrightarrow> wr s now d l c = (st, s') \<Longrightarrow>
      inv s' \<and> vw s' = (if st = None then (vw s)(d := (vw s d)(l := c)) else vw s)"
    and ctl_law: "inv s \<Longrightarrow> ctl s op = (st, s') \<Longrightarrow> inv s' \<and> vw s' = vw s"
begin

lemma run_is_disk:
  "inv s \<Longrightarrow> store_run rd wr ctl s ops = (es, s') \<Longrightarrow> disk_run (vw s) es = Some (vw s') \<and> inv s'"
proof (induction ops arbitrary: s es s')
  case Nil
  then show ?case by simp
next
  case (Cons op ops)
  have step: ?case if "inv s1" "es = e # es1" "store_run rd wr ctl s1 ops = (es1, s')"
    "disk_run (vw s) (e # es1) = disk_run (vw s1) es1" for s1 e es1
    using Cons.IH [OF that(1,3)] that by simp
  have control: ?case if "store_run rd wr ctl s (op # ops) =
     (let (st, s1) = ctl s op; (es, s2) = store_run rd wr ctl s1 ops
      in ((case st of None \<Rightarrow> Did_sync | Some e \<Rightarrow> Failed e) # es, s2))"
  proof -
    obtain st s1 where r: "ctl s op = (st, s1)" by fastforce
    obtain es1 s2 where o: "store_run rd wr ctl s1 ops = (es1, s2)" by fastforce
    show ?thesis using ctl_law [OF Cons.prems(1) r] Cons.prems(2) that r o
      by (intro step [of s1 "case st of None \<Rightarrow> Did_sync | Some e \<Rightarrow> Failed e" es1]) (auto split: option.splits)
  qed
  show ?case
  proof (cases op)
    case (Read_op d l)
    obtain st b s1 where r: "rd s d l = (st, b, s1)" by (metis prod_cases3)
    obtain es1 s2 where o: "store_run rd wr ctl s1 ops = (es1, s2)" by fastforce
    show ?thesis using rd_law [OF Cons.prems(1) r] Cons.prems(2) Read_op r o
      by (intro step [of s1 "case st of None \<Rightarrow> Did_read d l b | Some e \<Rightarrow> Failed e" es1]) (auto split: option.splits)
  next
    case (Write_op now d l c)
    obtain st s1 where r: "wr s now d l c = (st, s1)" by fastforce
    obtain es1 s2 where o: "store_run rd wr ctl s1 ops = (es1, s2)" by fastforce
    show ?thesis using wr_law [OF Cons.prems(1) r] Cons.prems(2) Write_op r o
      by (intro step [of s1 "case st of None \<Rightarrow> Did_write d l c | Some e \<Rightarrow> Failed e" es1]) (auto split: option.splits)
  qed (use control in auto)
qed

end

text \<open>The cache with its devices: the drivers and their platter travel with the state.\<close>

type_synonym 'w cached_disk = "'w dev_store \<times> ('w \<Rightarrow> dev_ptr \<Rightarrow> u32 \<Rightarrow> Blockdev.sector) \<times> 'w bcache"

definition cd_inv :: "'w cached_disk \<Rightarrow> bool" where
  "cd_inv c = (case c of (dv, plat, s) \<Rightarrow> driver_ok dv plat \<and> bcache_inv plat s)"

definition cd_view :: "'w cached_disk \<Rightarrow> dev_ptr \<Rightarrow> u32 \<Rightarrow> Blockdev.sector" where
  "cd_view c = (case c of (dv, plat, s) \<Rightarrow> view plat s)"

definition cd_read :: "'w cached_disk \<Rightarrow> dev_ptr \<Rightarrow> u32 \<Rightarrow> status \<times> Blockdev.sector option \<times> 'w cached_disk" where
  "cd_read c d l = (case c of (dv, plat, s) \<Rightarrow>
     case bcache_read_sector dv s d l (Some zero_sector) of (st, b, t) \<Rightarrow> (st, b, (dv, plat, t)))"

definition cd_write :: "'w cached_disk \<Rightarrow> u32 \<Rightarrow> dev_ptr \<Rightarrow> u32 \<Rightarrow> Blockdev.sector \<Rightarrow> status \<times> 'w cached_disk" where
  "cd_write c now d l b = (case c of (dv, plat, s) \<Rightarrow>
     case bcache_write_sector dv now s d l (Some b) of (st, t) \<Rightarrow> (st, (dv, plat, t)))"

definition cd_ctl :: "'w cached_disk \<Rightarrow> store_op \<Rightarrow> status \<times> 'w cached_disk" where
  "cd_ctl c op = (case c of (dv, plat, s) \<Rightarrow>
     case (case op of
             Sync_op \<Rightarrow> bcache_flush dv s
           | Tick_op now \<Rightarrow> (None, bcache_flush_if_due dv now s)
           | Unmount_op d \<Rightarrow> bcache_flush_dev dv d s
           | _ \<Rightarrow> (None, s)) of (st, t) \<Rightarrow> (st, (dv, plat, t)))"

interpretation cd: sector_store cd_inv cd_view cd_read cd_write cd_ctl
proof
  fix c c' :: "'a cached_disk" and d l st b now and v :: Blockdev.sector and op
  assume inv: "cd_inv c"
  obtain dv plat s where c: "c = (dv, plat, s)" by (metis prod_cases3)
  have i: "driver_ok dv plat" "bcache_inv plat s" using inv by (auto simp: cd_inv_def c)
  { assume "cd_read c d l = (st, b, c')"
    then obtain t where "bcache_read_sector dv s d l (Some zero_sector) = (st, b, t)" "c' = (dv, plat, t)"
      by (auto simp: cd_read_def c split: prod.splits)
    then show "cd_inv c' \<and> cd_view c' = cd_view c \<and> (st = None \<longrightarrow> b = Some (cd_view c d l))"
      using bcache_read_spec [OF i(2,1)] i by (auto simp: cd_inv_def cd_view_def c) }
  { assume "cd_write c now d l v = (st, c')"
    then obtain t where "bcache_write_sector dv now s d l (Some v) = (st, t)" "c' = (dv, plat, t)"
      by (auto simp: cd_write_def c split: prod.splits)
    then show "cd_inv c' \<and> cd_view c' = (if st = None then (cd_view c)(d := (cd_view c d)(l := v)) else cd_view c)"
      using bcache_write_spec [OF i(2,1)] i by (auto simp: cd_inv_def cd_view_def c) }
  have due: "bcache_inv plat (bcache_flush_if_due dv n s) \<and> view plat (bcache_flush_if_due dv n s) = view plat s" for n
    using bcache_flush_spec [OF i(2,1)] i(2) by (auto simp: bcache_flush_if_due_def) (metis prod.collapse)+
  { assume "cd_ctl c op = (st, c')"
    then show "cd_inv c' \<and> cd_view c' = cd_view c"
      using bcache_flush_spec [OF i(2,1)] bcache_flush_dev_spec [OF i(2,1)] due i
      by (auto simp: cd_ctl_def cd_inv_def cd_view_def c bcache_flush_def split: store_op.splits prod.splits) }
qed

subsection \<open>Properties\<close>

text \<open>
  A disk in memory whose writes fail as a script says, for the witnesses: the sectors, and what
  each coming write does (an exhausted script succeeds).
\<close>

type_synonym ram = "(dev_ptr \<Rightarrow> u32 \<Rightarrow> Blockdev.sector) \<times> bool list"

definition ram_write :: "dev_ptr \<Rightarrow> ram \<Rightarrow> u32 \<Rightarrow> Blockdev.sector \<Rightarrow> status \<times> ram" where
  "ram_write d w l b = (case w of (m, os) \<Rightarrow>
     if os \<noteq> [] \<and> hd os = False then (Some E_IO, (m, tl os))
     else (None, (m(d := (m d)(l := b)), tl os)))"

definition ram_devs :: "ram dev_store" where
  "ram_devs d = \<lparr>name = Some ''ram'', sector_size = 512, sector_count = 1000,
     dev_read = Some (\<lambda>w l. (None, fst w d l, w)), dev_write = Some (ram_write d)\<rparr>"

definition ram_cache :: "bool list \<Rightarrow> ram bcache" where
  "ram_cache os = bcache_init \<lparr>cache = [], bcache_ticks = 0, dirty_count = 0, oldest_dirty_tick = 0,
     world = (\<lambda>_ _. zero_sector, os)\<rparr>"

lemma ram_ok: "driver_ok ram_devs fst"
  by (auto simp: driver_ok_def ram_devs_def ram_write_def split: prod.splits if_splits)

lemma ram_cache_inv: "bcache_inv fst (ram_cache os)"
  unfolding ram_cache_def using bcache_init_spec by blast

text \<open>
  (C16) The cache is a disk.  For devices that keep to the block device contract, any history of
  reads, writes, periodic write-back, sync and unmount, with any device failures in between, is a
  history of an abstract disk that starts as the view and ends as the view: a successful read
  returns the last sector successfully written, and a request that failed changed nothing.
\<close>

theorem bcache_refines_disk:
  assumes "driver_ok dv plat" "bcache_inv plat s"
    and "store_run cd_read cd_write cd_ctl (dv, plat, s) ops = (es, (dv', plat', t))"
  shows "disk_run (view plat s) es = Some (view plat' t) \<and> bcache_inv plat' t"
  using cd.run_is_disk [of "(dv, plat, s)" ops es] assms by (simp add: cd_inv_def cd_view_def)

theorem bcache_refines_disk_witness:
  "\<exists>es c. store_run cd_read cd_write cd_ctl (ram_devs, fst, ram_cache [False])
        [Write_op 0 1 5 [7], Sync_op, Read_op 1 5] = (es, c) \<and>
     (\<exists>m. disk_run (\<lambda>_ _. zero_sector) es = Some m)"
proof -
  obtain es dv' plat' t where r: "store_run cd_read cd_write cd_ctl (ram_devs, fst, ram_cache [False])
    [Write_op 0 1 5 [7], Sync_op, Read_op 1 5] = (es, (dv', plat', t))" by (metis prod_cases4)
  have "view fst (ram_cache [False]) = (\<lambda>_ _. zero_sector)"
    unfolding ram_cache_def by (simp add: bcache_init_spec)
  then show ?thesis using bcache_refines_disk [OF ram_ok ram_cache_inv r] r by auto
qed

text \<open>
  (C17) Durability of sync: \<^verbatim>\<open>bcache_flush\<close> never changes what clients see; when it reports success the
  platter itself holds the whole view and no slot is dirty, and it fails with \<open>E_IO\<close> otherwise.
\<close>

theorem bcache_flush_durable:
  assumes "driver_ok dv plat" "bcache_inv plat s" "bcache_flush dv s = (st, t)"
  shows "bcache_inv plat t \<and> view plat t = view plat s \<and>
    (case st of None \<Rightarrow> plat (world t) = view plat s \<and> bcache_dirty_count t = 0 | Some e \<Rightarrow> e = E_IO)"
proof -
  note sp = bcache_flush_spec [OF assms(2,1) assms(3) [unfolded bcache_flush_def]]
  have "plat (world t) = view plat s \<and> bcache_dirty_count t = 0" if "st = None"
    using sp that no_dirty_platter [of plat t] bcache_invD(5) [of plat t] by (auto simp: bcache_dirty_count_def unat_eq_0)
  then show ?thesis using sp by (auto split: option.splits)
qed

theorem bcache_flush_durable_witness:
  "\<exists>st t. bcache_flush ram_devs (ram_cache []) = (st, t) \<and> view fst t = view fst (ram_cache [])"
proof -
  obtain st t where f: "bcache_flush ram_devs (ram_cache []) = (st, t)" by fastforce
  show ?thesis using bcache_flush_durable [OF ram_ok ram_cache_inv f] f by auto
qed

text \<open>
  (C18) Unmounting: when \<^verbatim>\<open>bcache_flush_dev\<close> succeeds, no slot refers to the device any more and its platter
  holds everything that was written to it; when it fails, nothing accepted has been lost.
\<close>

theorem bcache_flush_dev_releases:
  assumes "driver_ok dv plat" "bcache_inv plat s" "bcache_flush_dev dv d s = (st, t)"
  shows "bcache_inv plat t \<and> view plat t = view plat s \<and>
    (st = None \<longrightarrow> plat (world t) d = view plat s d \<and>
       (\<forall>i < BCACHE_SIZE. is_valid (cache t ! i) \<longrightarrow> dev (cache t ! i) \<noteq> d))"
  using bcache_flush_dev_spec [OF assms(2,1,3)] by (auto simp: dev_slots_def)

theorem bcache_flush_dev_releases_witness:
  "\<exists>st t. bcache_flush_dev ram_devs 1 (ram_cache [True]) = (st, t) \<and> view fst t = view fst (ram_cache [True])"
proof -
  obtain st t where f: "bcache_flush_dev ram_devs 1 (ram_cache [True]) = (st, t)" by fastforce
  show ?thesis using bcache_flush_dev_releases [OF ram_ok ram_cache_inv f] f by auto
qed

end
