(* ===== verification/Fat.thy ===== *)
theory Fat
  imports Prelude
begin

text \<open>
  The file allocation table of \<^verbatim>\<open>fs/vfs.c\<close>, in memory: one word per cluster, naming the next cluster
  of the same file, or \<open>FAT_EOF\<close>, or \<open>FAT_FREE\<close>.  \<open>tot\<close> is \<^verbatim>\<open>fs_total_clusters\<close>.  Cluster numbers are
  32-bit words as in the code; they index the list by the number they denote.
\<close>

abbreviation FAT_EOF :: u32 where
  "FAT_EOF \<equiv> 0xFFFFFFFF"

abbreviation FAT_FREE :: u32 where
  "FAT_FREE \<equiv> 0"

definition FS_FIRST_DATA_CLUSTER :: nat where
  "FS_FIRST_DATA_CLUSTER = 2"

definition FS_MAX_CLUSTERS_CAP :: nat where
  "FS_MAX_CLUSTERS_CAP = 262144"

subsection \<open>Reserving a chain\<close>

record alloc_st =
  a_fat :: "u32 list"
  a_start :: u32
  a_cur :: u32
  a_count :: u32

text \<open>The body of the search loop, run over the cluster numbers in order while clusters are wanted.\<close>

fun alloc_scan :: "u32 \<Rightarrow> nat list \<Rightarrow> alloc_st \<Rightarrow> alloc_st" where
  "alloc_scan want [] a = a"
| "alloc_scan want (i # is) a =
     (if \<not> a_count a < want then a
      else if a_fat a ! i = FAT_FREE
      then alloc_scan want is
             (let fat1 = (if a_start a = FAT_EOF then a_fat a else (a_fat a)[unat (a_cur a) := of_nat i])
              in \<lparr>a_fat = fat1[i := FAT_EOF],
                  a_start = (if a_start a = FAT_EOF then of_nat i else a_start a),
                  a_cur = of_nat i, a_count = a_count a + 1\<rparr>)
      else alloc_scan want is a)"

text \<open>The roll-back loop; indexing outside the table is \<open>None\<close>, as is running for ever.\<close>

partial_function (option) rollback_chain :: "u32 list \<Rightarrow> u32 \<Rightarrow> u32 list option" where
  "rollback_chain fat c =
     (if c = FAT_EOF then Some fat
      else if unat c < length fat then rollback_chain (fat[unat c := FAT_FREE]) (fat ! unat c)
      else None)"

text \<open>The table and the first cluster; the code saves the table to disk only on success.\<close>

definition allocate_fat_chain :: "u32 list \<Rightarrow> u32 \<Rightarrow> u32 \<Rightarrow> (u32 \<times> u32 list) option" where
  "allocate_fat_chain fat tot want =
     (if want = 0 then Some (FAT_EOF, fat)
      else let a = alloc_scan want [FS_FIRST_DATA_CLUSTER..<unat tot]
                     \<lparr>a_fat = fat, a_start = FAT_EOF, a_cur = FAT_EOF, a_count = 0\<rparr> in
           if a_count a < want
           then map_option (\<lambda>f. (FAT_FREE, f)) (rollback_chain (a_fat a) (a_start a))
           else Some (a_start a, a_fat a))"

subsection \<open>Releasing a chain\<close>

lemma used_update_less:
  "i < length fat \<Longrightarrow> fat ! i \<noteq> (0 :: u32) \<Longrightarrow>
   length (filter (\<lambda>x. x \<noteq> 0) (fat[i := 0])) < length (filter (\<lambda>x. x \<noteq> 0) fat)"
proof (induction fat arbitrary: i)
  case (Cons x xs)
  then show ?case by (cases i) auto
qed simp

lemma used_update_zero:
  "fat ! i = (0 :: u32) \<Longrightarrow> fat[i := 0] = fat"
  by (metis list_update_id)

text \<open>The loop of \<^verbatim>\<open>fs_delete\<close>, which ends whatever the table holds: every turn clears
  an entry.  The table has \<open>tot\<close> entries, so the bound on \<open>tot\<close> is the bound on the list.\<close>

function free_chain :: "u32 list \<Rightarrow> u32 \<Rightarrow> u32 \<Rightarrow> u32 list" where
  "free_chain fat tot c =
     (if c = FAT_EOF \<or> c = FAT_FREE then fat
      else if tot \<le> c \<or> length fat \<le> unat c then fat
      else free_chain (fat[unat c := FAT_FREE]) tot (fat ! unat c))"
  by auto
termination
proof (relation "measure (\<lambda>(fat, tot, c). 2 * length (filter (\<lambda>x. x \<noteq> 0) fat) + (if c = 0 then 0 else 1))")
  fix fat :: "u32 list" and tot c :: u32
  assume "\<not> (c = FAT_EOF \<or> c = FAT_FREE)" "\<not> (tot \<le> c \<or> length fat \<le> unat c)"
  then show "((fat[unat c := FAT_FREE], tot, fat ! unat c), fat, tot, c) \<in>
      measure (\<lambda>(fat, tot, c). 2 * length (filter (\<lambda>x. x \<noteq> 0) fat) + (if c = 0 then 0 else 1))"
    using used_update_less [of "unat c" fat] used_update_zero [of fat "unat c"]
    by (cases "fat ! unat c = 0") auto
qed simp

declare free_chain.simps [simp del]

subsection \<open>Chains\<close>

text \<open>\<open>chain fat c cs\<close>: following the table from \<open>c\<close> visits exactly the data clusters \<open>cs\<close> and ends.\<close>

fun chain :: "u32 list \<Rightarrow> u32 \<Rightarrow> u32 list \<Rightarrow> bool" where
  "chain fat c [] \<longleftrightarrow> c = FAT_EOF"
| "chain fat c (x # xs) \<longleftrightarrow> c = x \<and> FS_FIRST_DATA_CLUSTER \<le> unat x \<and> unat x < length fat \<and> x \<noteq> FAT_EOF \<and>
     chain fat (fat ! unat x) xs"

lemma chain_unique: "chain fat c xs \<Longrightarrow> chain fat c ys \<Longrightarrow> xs = ys"
proof (induction xs arbitrary: c ys)
  case Nil
  then show ?case by (cases ys) auto
next
  case (Cons x xs)
  then show ?case by (cases ys) auto
qed

lemma chain_append: "chain fat c (xs @ y # ys) \<Longrightarrow> chain fat y (y # ys)"
proof (induction xs arbitrary: c)
  case (Cons x xs)
  then show ?case using Cons.IH [of "fat ! unat x"] by simp
qed auto

lemma chain_distinct:
  assumes "chain fat c xs"
  shows "distinct xs"
proof (rule ccontr)
  assume "\<not> distinct xs"
  then obtain as x bs cs where xs: "xs = as @ [x] @ bs @ [x] @ cs"
    using not_distinct_decomp by blast
  have "chain fat x (x # bs @ x # cs)" using chain_append [of fat c as x "bs @ x # cs"] assms xs by simp
  moreover have "chain fat x (x # cs)" using chain_append [of fat c "as @ x # bs" x cs] assms xs by simp
  ultimately have "x # bs @ x # cs = x # cs" by (rule chain_unique)
  then have "length (x # bs @ x # cs) = length (x # cs)" by (rule arg_cong)
  then show False by simp
qed

lemma chain_cong:
  assumes "chain fat c xs" "length fat' = length fat" "\<And>x. x \<in> set xs \<Longrightarrow> fat' ! unat x = fat ! unat x"
  shows "chain fat' c xs"
  using assms by (induction xs arbitrary: c) auto

lemma chain_used: "chain fat c xs \<Longrightarrow> x \<in> set xs \<Longrightarrow> fat ! unat x \<noteq> FAT_FREE"
proof (induction xs arbitrary: c)
  case (Cons y ys)
  then show ?case by (cases ys) (auto simp: FS_FIRST_DATA_CLUSTER_def)
qed simp

lemma chain_range: "chain fat c xs \<Longrightarrow> x \<in> set xs \<Longrightarrow> FS_FIRST_DATA_CLUSTER \<le> unat x \<and> unat x < length fat"
  by (induction xs arbitrary: c) auto

subsection \<open>What reserving does\<close>

fun link :: "nat list \<Rightarrow> u32 list \<Rightarrow> u32 list" where
  "link [] fat = fat"
| "link (x # xs) fat = (link xs fat)[x := (case xs of [] \<Rightarrow> FAT_EOF | y # ys \<Rightarrow> of_nat y)]"

lemma length_link [simp]: "length (link xs fat) = length fat"
  by (induction xs) auto

lemma link_other: "i \<notin> set xs \<Longrightarrow> link xs fat ! i = fat ! i"
  by (induction xs) auto

lemma link_snoc:
  assumes "xs \<noteq> []" "distinct (xs @ [i])"
  shows "link (xs @ [i]) fat = (link xs fat)[last xs := of_nat i, i := FAT_EOF]"
  using assms
proof (induction xs)
  case (Cons x xs)
  show ?case
  proof (cases xs)
    case Nil
    then show ?thesis using Cons.prems by (simp add: list_update_swap)
  next
    case (Cons y ys)
    have d: "x \<noteq> i" "x \<noteq> last xs" using Cons.prems(2) Cons last_in_set [of xs] by auto
    have "link (xs @ [i]) fat = (link xs fat)[last xs := of_nat i, i := FAT_EOF]"
      using Cons.IH Cons.prems Cons by simp
    then show ?thesis using d Cons by (simp add: list_update_swap)
  qed
qed simp

lemma of_nat_cluster:
  assumes "y < FS_MAX_CLUSTERS_CAP"
  shows "unat (of_nat y :: u32) = y" "(of_nat y :: u32) \<noteq> FAT_EOF"
proof -
  have y: "y < 262144" using assms by (simp add: FS_MAX_CLUSTERS_CAP_def)
  then show u: "unat (of_nat y :: u32) = y" by (simp add: unat_of_nat)
  show "(of_nat y :: u32) \<noteq> FAT_EOF"
  proof
    assume "(of_nat y :: u32) = FAT_EOF"
    then have "y = unat FAT_EOF" using u by metis
    then show False using y by simp
  qed
qed

lemma chain_link:
  assumes "distinct xs" "xs \<noteq> []" "\<forall>x \<in> set xs. FS_FIRST_DATA_CLUSTER \<le> x \<and> x < length fat" "length fat \<le> FS_MAX_CLUSTERS_CAP"
  shows "chain (link xs fat) (of_nat (hd xs)) (map of_nat xs)"
  using assms(1-3)
proof (induction xs)
  case (Cons x xs)
  have lt: "y < FS_MAX_CLUSTERS_CAP" if "y \<in> set (x # xs)" for y
  proof -
    have "y < length fat" using Cons.prems(3) that by blast
    then show ?thesis using assms(4) by linarith
  qed
  note un = of_nat_cluster(1) [OF lt]
  have x: "FS_FIRST_DATA_CLUSTER \<le> x" "x < length fat" using Cons.prems(3) by simp_all
  have ux: "unat (of_nat x :: u32) = x" "(of_nat x :: u32) \<noteq> FAT_EOF"
    using of_nat_cluster [OF lt [of x]] by simp_all
  have nth: "link (x # xs) fat ! x = (case xs of [] \<Rightarrow> FAT_EOF | y # ys \<Rightarrow> of_nat y)" using x(2) by simp
  show ?case
  proof (cases "xs = []")
    case True
    then show ?thesis using x ux by simp
  next
    case False
    then have c: "chain (link xs fat) (of_nat (hd xs)) (map of_nat xs)" using Cons.IH Cons.prems(1,3) by simp
    have "link (x # xs) fat ! unat z = link xs fat ! unat z" if z: "z \<in> set (map of_nat xs)" for z :: u32
    proof -
      obtain y where y: "y \<in> set xs" "z = of_nat y" using z by auto
      then have "x \<noteq> y" using Cons.prems(1) by auto
      then show ?thesis using un [of y] y by simp
    qed
    from chain_cong [OF c _ this] have "chain (link (x # xs) fat) (of_nat (hd xs)) (map of_nat xs)" by simp
    moreover have "link (x # xs) fat ! x = of_nat (hd xs)" using nth False by (simp add: list.case_eq_if)
    ultimately show ?thesis using x ux by (simp del: link.simps)
  qed
qed simp

text \<open>The state of the search after it has taken the clusters \<open>xs\<close>.\<close>

definition taken :: "u32 list \<Rightarrow> nat list \<Rightarrow> alloc_st \<Rightarrow> bool" where
  "taken fat xs a \<longleftrightarrow> a_fat a = link xs fat \<and> a_count a = of_nat (length xs) \<and>
     (if xs = [] then a_start a = FAT_EOF else a_start a = of_nat (hd xs) \<and> a_cur a = of_nat (last xs))"

lemma taken_step:
  assumes "taken fat xs a" "distinct (xs @ [i])" "\<forall>x \<in> set (xs @ [i]). x < FS_MAX_CLUSTERS_CAP"
  shows "taken fat (xs @ [i])
    (let fat1 = (if a_start a = FAT_EOF then a_fat a else (a_fat a)[unat (a_cur a) := of_nat i])
     in \<lparr>a_fat = fat1[i := FAT_EOF], a_start = (if a_start a = FAT_EOF then of_nat i else a_start a),
         a_cur = of_nat i, a_count = a_count a + 1\<rparr>)"
proof (cases "xs = []")
  case True
  then show ?thesis using assms(1) by (simp add: taken_def)
next
  case False
  then have "hd xs \<in> set xs" "last xs \<in> set xs" by auto
  then have "of_nat (hd xs) \<noteq> FAT_EOF" "unat (of_nat (last xs) :: u32) = last xs"
    using assms(3) of_nat_cluster by auto
  then show ?thesis using assms False link_snoc [OF False assms(2), of fat] by (simp add: taken_def Let_def)
qed

lemma alloc_scan_spec:
  assumes "taken fat xs a" "distinct (xs @ is)" "\<forall>x \<in> set (xs @ is). x < FS_MAX_CLUSTERS_CAP"
    and "length xs \<le> unat want" "length xs + length is \<le> FS_MAX_CLUSTERS_CAP"
  shows "taken fat (xs @ take (unat want - length xs) (filter (\<lambda>i. fat ! i = FAT_FREE) is)) (alloc_scan want is a)"
  using assms
proof (induction "is" arbitrary: xs a)
  case Nil
  then show ?case by simp
next
  case (Cons i "is")
  have cnt: "unat (a_count a) = length xs"
    using Cons.prems(1,5) by (simp add: taken_def unat_of_nat FS_MAX_CLUSTERS_CAP_def)
  show ?case
  proof (cases "length xs < unat want")
    case False
    then have "length xs = unat want" using Cons.prems(4) by simp
    moreover have "\<not> a_count a < want" using False cnt by (simp add: word_less_nat_alt)
    ultimately show ?thesis using Cons.prems(1) by simp
  next
    case True
    then have lt: "a_count a < want" using cnt by (simp add: word_less_nat_alt)
    have eq: "a_fat a ! i = fat ! i" using Cons.prems(1,2) by (simp add: taken_def link_other)
    show ?thesis
    proof (cases "fat ! i = FAT_FREE")
      case True
      have "taken fat (xs @ [i]) (let fat1 = (if a_start a = FAT_EOF then a_fat a else (a_fat a)[unat (a_cur a) := of_nat i])
         in \<lparr>a_fat = fat1[i := FAT_EOF], a_start = (if a_start a = FAT_EOF then of_nat i else a_start a),
             a_cur = of_nat i, a_count = a_count a + 1\<rparr>)"
        using Cons.prems(2,3) by (intro taken_step [OF Cons.prems(1)]) auto
      from Cons.IH [OF this] Cons.prems(2-5) \<open>length xs < unat want\<close>
      have "taken fat ((xs @ [i]) @ take (unat want - Suc (length xs)) (filter (\<lambda>i. fat ! i = FAT_FREE) is))
        (alloc_scan want (i # is) a)" using lt eq True by simp
      moreover have "unat want - length xs = Suc (unat want - Suc (length xs))" using \<open>length xs < unat want\<close> by simp
      ultimately show ?thesis using True by simp
    next
      case False
      from Cons.IH [OF Cons.prems(1)] Cons.prems(2-5) show ?thesis using lt eq False by simp
    qed
  qed
qed

lemma rollback_link:
  assumes "distinct xs" "\<forall>x \<in> set xs. x < length fat \<and> fat ! x = FAT_FREE" "length fat \<le> FS_MAX_CLUSTERS_CAP"
  shows "rollback_chain (link xs fat) (case xs of [] \<Rightarrow> FAT_EOF | y # ys \<Rightarrow> of_nat y) = Some fat"
  using assms(1,2)
proof (induction xs)
  case Nil
  then show ?case by (simp add: rollback_chain.simps)
next
  case (Cons x xs)
  have x: "x < length fat" "fat ! x = FAT_FREE" "unat (of_nat x :: u32) = x" "(of_nat x :: u32) \<noteq> FAT_EOF"
    using Cons.prems(2) assms(3) of_nat_cluster [of x] by auto
  have "(link xs fat)[x := FAT_FREE] = link xs fat"
    using link_other [of x xs fat] Cons.prems(1) x(2) by (metis distinct.simps(2) list_update_id)
  then show ?case using Cons.IH Cons.prems x by (subst rollback_chain.simps) simp
qed

lemma free_chain_spec:
  assumes "chain fat c cs" "length fat = unat tot"
  shows "length (free_chain fat tot c) = length fat \<and>
    free_chain fat tot c ! j = (if \<exists>x \<in> set cs. unat x = j then FAT_FREE else fat ! j)"
  using assms
proof (induction cs arbitrary: fat c)
  case Nil
  then show ?case by (simp add: free_chain.simps)
next
  case (Cons x xs)
  let ?f = "fat[unat x := FAT_FREE]"
  have x: "c = x" "unat x < length fat" "x \<noteq> FAT_EOF" "x \<noteq> FAT_FREE" "\<not> tot \<le> x" "x \<notin> set xs"
    using Cons.prems chain_distinct [OF Cons.prems(1)] by (auto simp: FS_FIRST_DATA_CLUSTER_def word_le_nat_alt)
  have tl: "chain fat (fat ! unat x) xs" using Cons.prems(1) by simp
  have "?f ! unat y = fat ! unat y" if "y \<in> set xs" for y
    using that x(6) by (metis nth_list_update_neq word_unat_eq_iff)
  from chain_cong [OF tl _ this] have "chain ?f (fat ! unat x) xs" by simp
  from Cons.IH [OF this] have ih: "length (free_chain ?f tot (fat ! unat x)) = length fat \<and>
    free_chain ?f tot (fat ! unat x) ! j = (if \<exists>x \<in> set xs. unat x = j then FAT_FREE else ?f ! j)"
    using Cons.prems(2) by simp
  have "free_chain fat tot c = free_chain ?f tot (fat ! unat x)"
    using x by (subst free_chain.simps) simp
  then show ?case using ih x(2) by auto
qed

definition free_clusters :: "u32 list \<Rightarrow> nat list" where
  "free_clusters fat = filter (\<lambda>i. fat ! i = FAT_FREE) [FS_FIRST_DATA_CLUSTER..<length fat]"

lemma set_free_clusters: "x \<in> set (free_clusters fat) \<longleftrightarrow> FS_FIRST_DATA_CLUSTER \<le> x \<and> x < length fat \<and> fat ! x = FAT_FREE"
  by (auto simp: free_clusters_def)

lemma distinct_free_clusters: "distinct (free_clusters fat)"
  by (simp add: free_clusters_def)

lemma allocate_fat_chain_spec:
  assumes len: "length fat = unat tot" "unat tot \<le> FS_MAX_CLUSTERS_CAP" and want: "want \<noteq> 0"
  shows "allocate_fat_chain fat tot want =
    (if length (free_clusters fat) < unat want then Some (FAT_FREE, fat)
     else Some (of_nat (hd (free_clusters fat)), link (take (unat want) (free_clusters fat)) fat))"
proof -
  let ?ini = "\<lparr>a_fat = fat, a_start = FAT_EOF, a_cur = FAT_EOF, a_count = 0\<rparr>"
  let ?a = "alloc_scan want [FS_FIRST_DATA_CLUSTER..<unat tot] ?ini"
  let ?xs = "take (unat want) (free_clusters fat)"
  have "taken fat [] ?ini" by (simp add: taken_def)
  from alloc_scan_spec [OF this, of "[FS_FIRST_DATA_CLUSTER..<unat tot]" want]
  have tk: "taken fat ?xs ?a" using len by (simp add: free_clusters_def)
  have "length (free_clusters fat) \<le> length fat" by (simp add: free_clusters_def order.trans [OF length_filter_le])
  then have "length ?xs < 2 ^ 32" using len by (simp add: FS_MAX_CLUSTERS_CAP_def)
  then have cnt: "unat (a_count ?a) = length ?xs" using tk by (simp add: taken_def unat_of_nat)
  have w: "0 < unat want" using want by (simp add: unat_gt_0)
  show ?thesis
  proof (cases "length (free_clusters fat) < unat want")
    case True
    define xs where "xs = free_clusters fat"
    have "taken fat xs ?a" using tk True by (simp add: xs_def)
    then have start: "a_start ?a = (case xs of [] \<Rightarrow> FAT_EOF | y # ys \<Rightarrow> of_nat y)" "a_fat ?a = link xs fat"
      by (cases xs; simp add: taken_def)+
    have "\<forall>x \<in> set xs. x < length fat \<and> fat ! x = FAT_FREE" by (simp add: xs_def set_free_clusters)
    then have "rollback_chain (a_fat ?a) (a_start ?a) = Some fat"
      unfolding start using len distinct_free_clusters by (intro rollback_link) (auto simp: xs_def)
    moreover have "a_count ?a < want" using True cnt by (simp add: word_less_nat_alt)
    ultimately show ?thesis using True want by (simp add: allocate_fat_chain_def Let_def)
  next
    case False
    then have ne: "?xs \<noteq> []" using w by auto
    have "hd ?xs = hd (free_clusters fat)" using w by simp
    moreover have "\<not> a_count ?a < want" using False cnt by (simp add: word_less_nat_alt)
    moreover have "a_start ?a = of_nat (hd ?xs)" "a_fat ?a = link ?xs fat"
      using tk ne unfolding taken_def by (simp_all only: if_False)
    ultimately show ?thesis using False want by (simp add: allocate_fat_chain_def Let_def)
  qed
qed

lemma allocated_chain:
  assumes len: "length fat = unat tot" "unat tot \<le> FS_MAX_CLUSTERS_CAP" and want: "want \<noteq> 0"
    and room: "unat want \<le> length (free_clusters fat)"
  defines "xs \<equiv> take (unat want) (free_clusters fat)"
  shows "allocate_fat_chain fat tot want = Some (of_nat (hd xs), link xs fat)"
    "chain (link xs fat) (of_nat (hd xs)) (map of_nat xs)" "length xs = unat want" "distinct xs"
    "\<And>x. x \<in> set xs \<Longrightarrow> FS_FIRST_DATA_CLUSTER \<le> x \<and> x < length fat \<and> fat ! x = FAT_FREE \<and> unat (of_nat x :: u32) = x"
proof -
  have w: "0 < unat want" using want by (simp add: unat_gt_0)
  then have hd: "hd xs = hd (free_clusters fat)" by (simp add: xs_def)
  show "allocate_fat_chain fat tot want = Some (of_nat (hd xs), link xs fat)"
    unfolding hd unfolding xs_def using allocate_fat_chain_spec [OF len want] room by simp
  show n: "length xs = unat want" using room by (simp add: xs_def)
  show d: "distinct xs" using distinct_free_clusters by (simp add: xs_def)
  show in_free: "FS_FIRST_DATA_CLUSTER \<le> x \<and> x < length fat \<and> fat ! x = FAT_FREE \<and> unat (of_nat x :: u32) = x"
    if "x \<in> set xs" for x
  proof -
    have "x \<in> set (free_clusters fat)" using that by (auto simp: xs_def dest: in_set_takeD)
    then show ?thesis using of_nat_cluster(1) [of x] len by (simp add: set_free_clusters)
  qed
  have "xs \<noteq> []" using n w by auto
  then show "chain (link xs fat) (of_nat (hd xs)) (map of_nat xs)"
    using d in_free len by (intro chain_link) simp_all
qed

lemma allocate_fresh:
  assumes "length fat = unat tot" "unat tot \<le> FS_MAX_CLUSTERS_CAP" "want \<noteq> 0" "unat want \<le> length (free_clusters fat)"
  obtains c fat' cs where "allocate_fat_chain fat tot want = Some (c, fat')" "chain fat' c cs" "length cs = unat want"
    "length fat' = length fat" "\<forall>x \<in> set cs. fat ! unat x = FAT_FREE" "\<forall>j. (\<forall>x \<in> set cs. unat x \<noteq> j) \<longrightarrow> fat' ! j = fat ! j"
proof -
  let ?xs = "take (unat want) (free_clusters fat)"
  note ac = allocated_chain [OF assms]
  have "link ?xs fat ! j = fat ! j" if "\<forall>x \<in> set (map of_nat ?xs). unat (x :: u32) \<noteq> j" for j
  proof (rule link_other)
    show "j \<notin> set ?xs" using that ac(5) [of j] by auto
  qed
  then show ?thesis using ac by (intro that [of "of_nat (hd ?xs)" "link ?xs fat" "map of_nat ?xs"]) auto
qed

subsection \<open>Properties\<close>

text \<open>
  (C19) \<^verbatim>\<open>allocate_fat_chain\<close> always returns.  It fails exactly when fewer free data clusters are left than
  are wanted, and then the roll-back has restored the table; otherwise the result heads a chain of
  exactly the wanted length, every cluster of it was free, and no other entry of the table changed.
\<close>

theorem allocate_chain_fresh:
  assumes "length fat = unat tot" "unat tot \<le> FS_MAX_CLUSTERS_CAP" "want \<noteq> 0"
  shows "\<exists>c fat'. allocate_fat_chain fat tot want = Some (c, fat') \<and>
    (if length (free_clusters fat) < unat want then c = FAT_FREE \<and> fat' = fat
     else \<exists>cs. chain fat' c cs \<and> length cs = unat want \<and> (\<forall>x \<in> set cs. fat ! unat x = FAT_FREE) \<and>
            (\<forall>j. (\<forall>x \<in> set cs. unat x \<noteq> j) \<longrightarrow> fat' ! j = fat ! j))"
proof (cases "length (free_clusters fat) < unat want")
  case True
  then show ?thesis using allocate_fat_chain_spec [OF assms] by simp
next
  case False
  then obtain c fat' cs where "allocate_fat_chain fat tot want = Some (c, fat')" "chain fat' c cs" "length cs = unat want"
    "\<forall>x \<in> set cs. fat ! unat x = FAT_FREE" "\<forall>j. (\<forall>x \<in> set cs. unat x \<noteq> j) \<longrightarrow> fat' ! j = fat ! j"
    using allocate_fresh [OF assms] by (metis not_less)
  then show ?thesis using False by (auto intro!: exI [of _ cs])
qed

theorem allocate_chain_fresh_witness:
  "\<exists>c fat'. allocate_fat_chain [FAT_EOF, FAT_EOF, 0, 7, 0, 0] 6 2 = Some (c, fat') \<and> chain fat' c [2, 4]"
proof -
  let ?f = "[FAT_EOF, FAT_EOF, 0, 7, 0, 0]"
  have len: "length ?f = unat (6 :: u32)" "unat (6 :: u32) \<le> FS_MAX_CLUSTERS_CAP" "(2 :: u32) \<noteq> 0"
    by (simp_all add: FS_MAX_CLUSTERS_CAP_def)
  have ex: "allocate_fat_chain ?f 6 2 = Some (2, [FAT_EOF, FAT_EOF, 4, 7, FAT_EOF, 0])"
    using allocate_fat_chain_spec [OF len] by (simp add: free_clusters_def FS_FIRST_DATA_CLUSTER_def upt_rec)
  have "chain [FAT_EOF, FAT_EOF, 4, 7, FAT_EOF, 0] 2 [2, 4]" by (simp add: FS_FIRST_DATA_CLUSTER_def)
  then show ?thesis using allocate_chain_fresh [OF len] ex by auto
qed

text \<open>
  (C20) Deleting undoes creating: releasing a chain just reserved gives back the very table there was
  before, and releasing any chain leaves every chain that shares no cluster with it intact.
\<close>

theorem allocate_then_free:
  assumes "length fat = unat tot" "unat tot \<le> FS_MAX_CLUSTERS_CAP" "want \<noteq> 0"
    and "unat want \<le> length (free_clusters fat)" "allocate_fat_chain fat tot want = Some (c, fat')"
  shows "free_chain fat' tot c = fat \<and>
    (\<forall>d ds. chain fat' d ds \<longrightarrow> set ds \<inter> {x. fat ! unat x = FAT_FREE} = {} \<longrightarrow> chain (free_chain fat' tot c) d ds)"
proof -
  let ?xs = "take (unat want) (free_clusters fat)"
  note ac = allocated_chain [OF assms(1-4)]
  have c: "c = of_nat (hd ?xs)" "fat' = link ?xs fat" using ac(1) assms(5) by auto
  have "length fat' = unat tot" using c assms(1) by simp
  note fr = free_chain_spec [OF ac(2) [folded c] this]
  have mem: "(\<exists>x \<in> set (map of_nat ?xs). unat (x :: u32) = j) \<longleftrightarrow> j \<in> set ?xs" for j
    using ac(5) by auto
  have eq: "free_chain fat' tot c = fat"
  proof (rule nth_equalityI)
    show "length (free_chain fat' tot c) = length fat" using fr c by simp
    fix j
    show "free_chain fat' tot c ! j = fat ! j"
      using fr [of j] mem [of j] ac(5) [of j] link_other [of j ?xs fat] c by auto
  qed
  have "chain fat d ds" if "chain fat' d ds" "set ds \<inter> {x. fat ! unat x = FAT_FREE} = {}" for d ds
  proof (rule chain_cong [OF that(1)])
    show "fat ! unat x = fat' ! unat x" if x: "x \<in> set ds" for x
    proof -
      have "fat ! unat x \<noteq> FAT_FREE" using x \<open>set ds \<inter> _ = {}\<close> by blast
      then have "unat x \<notin> set ?xs" using ac(5) [of "unat x"] by blast
      then show ?thesis using link_other [of "unat x" ?xs fat] c by simp
    qed
  qed (simp add: c)
  then show ?thesis using eq by simp
qed

theorem allocate_then_free_witness:
  "\<exists>c fat'. allocate_fat_chain [FAT_EOF, FAT_EOF, 0, 7, 0, 0] 6 2 = Some (c, fat') \<and>
     free_chain fat' 6 c = [FAT_EOF, FAT_EOF, 0, 7, 0, 0]"
proof -
  let ?f = "[FAT_EOF, FAT_EOF, 0, 7, 0, 0]"
  have len: "length ?f = unat (6 :: u32)" "unat (6 :: u32) \<le> FS_MAX_CLUSTERS_CAP" "(2 :: u32) \<noteq> 0"
    "unat (2 :: u32) \<le> length (free_clusters ?f)"
    by (simp_all add: FS_MAX_CLUSTERS_CAP_def free_clusters_def FS_FIRST_DATA_CLUSTER_def upt_rec)
  have ex: "allocate_fat_chain ?f 6 2 = Some (2, [FAT_EOF, FAT_EOF, 4, 7, FAT_EOF, 0])"
    using allocate_fat_chain_spec [OF len(1-3)] by (simp add: free_clusters_def FS_FIRST_DATA_CLUSTER_def upt_rec)
  then show ?thesis using allocate_then_free [OF len ex] by auto
qed

end
