(* ===== verification/Dirtab.thy ===== *)
theory Dirtab
  imports Fat
begin

text \<open>
  The directory table of \<^verbatim>\<open>fs/vfs.c\<close> in memory, and its image on the disk.  The table is a list whose
  length is \<^verbatim>\<open>fs_max_entries\<close>.  A file name is the 64-byte array of the entry, read as a C string; an
  argument that is a C string is its bytes.  An entry names its parent by entry id, 0 being the root.
\<close>

definition MAX_FILENAME :: nat where
  "MAX_FILENAME = 64"

abbreviation FT_REGULAR :: u8 where "FT_REGULAR \<equiv> 0"

abbreviation FT_DIR :: u8 where "FT_DIR \<equiv> 1"

definition FS_MODE_PERM_MASK :: u16 where
  "FS_MODE_PERM_MASK = 0xFFF"

record disk_file_entry_t =
  filename :: "u8 list"
  file_size :: u32
  start_cluster :: u32
  owner_uid :: u32
  owner_gid :: u32
  mtime :: u32
  ctime :: u32
  entry_id :: u16
  parent_id :: u16
  mode :: u16
  file_type :: u8
  is_used :: u8

type_synonym dir_tab = "disk_file_entry_t list"

definition safe_strcpy :: "u8 list \<Rightarrow> u8 list \<Rightarrow> nat \<Rightarrow> u8 list" where
  "safe_strcpy dest src max_len =
     (if max_len = 0 then dest
      else let n = take (max_len - 1) (cstr src) in n @ 0 # drop (Suc (length n)) dest)"

subsection \<open>Looking up\<close>

definition fs_dir_exists :: "dir_tab \<Rightarrow> u16 \<Rightarrow> bool" where
  "fs_dir_exists tab p \<longleftrightarrow>
     p = 0 \<or> find (\<lambda>i. is_used (tab ! i) \<noteq> 0 \<and> file_type (tab ! i) = FT_DIR \<and> entry_id (tab ! i) = p)
               [0..<length tab] \<noteq> None"

text \<open>An entry that carries a name in a directory; the code asks for a used entry in two ways.\<close>

definition names :: "dir_tab \<Rightarrow> u8 list \<Rightarrow> u16 \<Rightarrow> nat \<Rightarrow> bool" where
  "names tab nm p i \<longleftrightarrow> parent_id (tab ! i) = p \<and> cstr (filename (tab ! i)) = cstr nm"

definition fs_get_entry_idx :: "dir_tab \<Rightarrow> u8 list \<Rightarrow> u16 \<Rightarrow> nat option" where
  "fs_get_entry_idx tab nm p = find (\<lambda>i. is_used (tab ! i) \<noteq> 0 \<and> names tab nm p i) [0..<length tab]"

definition find_used1 :: "dir_tab \<Rightarrow> u8 list \<Rightarrow> u16 \<Rightarrow> nat option" where
  "find_used1 tab nm p = find (\<lambda>i. is_used (tab ! i) = 1 \<and> names tab nm p i) [0..<length tab]"

definition free_slot :: "dir_tab \<Rightarrow> nat option" where
  "free_slot tab = find (\<lambda>i. is_used (tab ! i) = 0) [1..<length tab]"

definition fs_slot_of :: "dir_tab \<Rightarrow> u16 \<Rightarrow> nat option" where
  "fs_slot_of tab e = find (\<lambda>i. is_used (tab ! i) \<noteq> 0 \<and> entry_id (tab ! i) = e) [0..<length tab]"

subsection \<open>Validation at mount\<close>

fun parent_walk :: "dir_tab \<Rightarrow> nat \<Rightarrow> u16 \<Rightarrow> bool" where
  "parent_walk tab hops cur =
     (if cur = 0 then True
      else case hops of
             0 \<Rightarrow> False
           | Suc h \<Rightarrow>
               (if length tab \<le> unat cur \<or> is_used (tab ! unat cur) = 0 \<or>
                   entry_id (tab ! unat cur) \<noteq> cur \<or> file_type (tab ! unat cur) \<noteq> FT_DIR
                then False
                else parent_walk tab h (parent_id (tab ! unat cur))))"

definition entry_ok :: "dir_tab \<Rightarrow> u32 \<Rightarrow> nat \<Rightarrow> bool" where
  "entry_ok tab tot i \<longleftrightarrow>
     entry_id (tab ! i) = of_nat i \<and>
     (file_type (tab ! i) = FT_REGULAR \<or> file_type (tab ! i) = FT_DIR) \<and>
     (start_cluster (tab ! i) = 0 \<or>
      (FS_FIRST_DATA_CLUSTER \<le> unat (start_cluster (tab ! i)) \<and> start_cluster (tab ! i) < tot))"

definition fs_validate_directory_table :: "dir_tab \<Rightarrow> u32 \<Rightarrow> bool" where
  "fs_validate_directory_table tab tot \<longleftrightarrow>
     list_all (\<lambda>i. is_used (tab ! i) = 0 \<or>
                   (entry_ok tab tot i \<and> parent_walk tab (length tab) (parent_id (tab ! i))))
       [0..<length tab]"

subsection \<open>The image on the disk\<close>

definition encode_entry :: "disk_file_entry_t \<Rightarrow> u8 list" where
  "encode_entry e =
     filename e @ le32 (file_size e) @ le32 (start_cluster e) @ le32 (owner_uid e) @ le32 (owner_gid e) @
     le32 (mtime e) @ le32 (ctime e) @ le16 (entry_id e) @ le16 (parent_id e) @ le16 (mode e) @
     [file_type e, is_used e]"

definition decode_entry :: "u8 list \<Rightarrow> disk_file_entry_t" where
  "decode_entry bs =
     \<lparr>filename = take 64 bs, file_size = of_le32 (drop 64 bs), start_cluster = of_le32 (drop 68 bs),
      owner_uid = of_le32 (drop 72 bs), owner_gid = of_le32 (drop 76 bs), mtime = of_le32 (drop 80 bs),
      ctime = of_le32 (drop 84 bs), entry_id = of_le16 (drop 88 bs), parent_id = of_le16 (drop 90 bs),
      mode = of_le16 (drop 92 bs), file_type = bs ! 94, is_used = bs ! 95\<rparr>"

definition ENTRY_SIZE :: nat where
  "ENTRY_SIZE = 96"

definition encode_table :: "dir_tab \<Rightarrow> u8 list" where
  "encode_table tab = concat (map encode_entry tab)"

fun decode_table :: "nat \<Rightarrow> u8 list \<Rightarrow> dir_tab" where
  "decode_table 0 bs = []"
| "decode_table (Suc n) bs = decode_entry (take ENTRY_SIZE bs) # decode_table n (drop ENTRY_SIZE bs)"

text \<open>Sector \<open>i\<close> of the image as \<^verbatim>\<open>save_directory_to_disk\<close> builds it: the last one is padded with zeros.\<close>

definition dir_sector :: "dir_tab \<Rightarrow> nat \<Rightarrow> u8 list" where
  "dir_sector tab i =
     (let total_bytes = ENTRY_SIZE * length tab;
          copy_size = (if i * 512 + 512 > total_bytes then total_bytes mod 512 else 512);
          bs = take copy_size (drop (i * 512) (encode_table tab))
      in bs @ replicate (512 - length bs) 0)"

definition dir_sectors_needed :: "dir_tab \<Rightarrow> nat" where
  "dir_sectors_needed tab = (ENTRY_SIZE * length tab + 511) div 512"

definition wf_entry :: "disk_file_entry_t \<Rightarrow> bool" where
  "wf_entry e \<longleftrightarrow> length (filename e) = MAX_FILENAME"

lemma length_encode_entry: "wf_entry e \<Longrightarrow> length (encode_entry e) = ENTRY_SIZE"
  by (simp add: encode_entry_def wf_entry_def MAX_FILENAME_def ENTRY_SIZE_def)

lemma of_le_append [simp]: "of_le32 (le32 w @ bs) = w" "of_le16 (le16 v @ bs) = v"
proof -
  have "of_le32 (le32 w @ bs) = of_le32 (le32 w)" by (simp add: of_le32_def nth_append le32_def)
  moreover have "of_le16 (le16 v @ bs) = of_le16 (le16 v)" by (simp add: of_le16_def nth_append le16_def)
  ultimately show "of_le32 (le32 w @ bs) = w" "of_le16 (le16 v @ bs) = v" by simp_all
qed

lemma decode_encode_entry:
  assumes "wf_entry e"
  shows "decode_entry (encode_entry e @ bs) = e"
proof -
  have len: "length (filename e) = 64" using assms by (simp add: wf_entry_def MAX_FILENAME_def)
  show ?thesis by (simp add: decode_entry_def encode_entry_def len nth_append)
qed

lemma length_encode_table: "list_all wf_entry tab \<Longrightarrow> length (encode_table tab) = ENTRY_SIZE * length tab"
  by (induction tab) (simp_all add: encode_table_def length_encode_entry)

lemma decode_encode_table:
  "list_all wf_entry tab \<Longrightarrow> decode_table (length tab) (encode_table tab @ bs) = tab"
proof (induction tab)
  case (Cons e tab)
  have "length (encode_entry e) = ENTRY_SIZE" using Cons.prems by (simp add: length_encode_entry)
  then have "take ENTRY_SIZE (encode_table (e # tab) @ bs) = encode_entry e"
    "drop ENTRY_SIZE (encode_table (e # tab) @ bs) = encode_table tab @ bs"
    by (simp_all add: encode_table_def)
  then show ?case using Cons decode_encode_entry [of e "[]"] by simp
qed simp

subsection \<open>What validation establishes\<close>

declare parent_walk.simps [simp del]

definition is_dir :: "dir_tab \<Rightarrow> u16 \<Rightarrow> bool" where
  "is_dir tab c \<longleftrightarrow> unat c < length tab \<and> is_used (tab ! unat c) \<noteq> 0 \<and> entry_id (tab ! unat c) = c \<and>
     file_type (tab ! unat c) = FT_DIR"

inductive reach_root :: "dir_tab \<Rightarrow> u16 \<Rightarrow> bool" for tab where
  at_root: "reach_root tab 0"
| up: "is_dir tab c \<Longrightarrow> reach_root tab (parent_id (tab ! unat c)) \<Longrightarrow> reach_root tab c"

inductive_cases reach_rootE: "reach_root tab c"

lemma parent_walk_0: "parent_walk tab 0 c \<longleftrightarrow> c = 0"
  by (simp add: parent_walk.simps)

lemma parent_walk_Suc:
  "parent_walk tab (Suc h) c \<longleftrightarrow> c = 0 \<or> (is_dir tab c \<and> parent_walk tab h (parent_id (tab ! unat c)))"
  by (subst parent_walk.simps) (auto simp: is_dir_def not_le)

lemma parent_walk_root [simp]: "parent_walk tab h 0"
  by (simp add: parent_walk.simps)

lemma parent_walk_mono: "parent_walk tab h c \<Longrightarrow> h \<le> k \<Longrightarrow> parent_walk tab k c"
proof (induction h arbitrary: c k)
  case (Suc h)
  then show ?case by (cases k) (auto simp: parent_walk_Suc)
qed (simp add: parent_walk_0)

lemma parent_walk_reach: "parent_walk tab h c \<Longrightarrow> reach_root tab c"
  by (induction h arbitrary: c) (auto simp: parent_walk_0 parent_walk_Suc intro: reach_root.intros)

lemma reach_walk: "reach_root tab c \<Longrightarrow> \<exists>h. parent_walk tab h c"
proof (induction rule: reach_root.induct)
  case (up c)
  then obtain h where "parent_walk tab h (parent_id (tab ! unat c))" by blast
  then show ?case using up(1) parent_walk_Suc by blast
qed (use parent_walk_root in blast)

text \<open>
  The table length is enough hops: the directories on a way to the root have different
  distances from it, so there are no more of them than slots.
\<close>

definition depth :: "dir_tab \<Rightarrow> u16 \<Rightarrow> nat" where
  "depth tab c = (LEAST h. parent_walk tab h c)"

lemma depth_walk: "reach_root tab c \<Longrightarrow> parent_walk tab (depth tab c) c"
  unfolding depth_def using reach_walk LeastI_ex by metis

lemma depth_le: "parent_walk tab h c \<Longrightarrow> depth tab c \<le> h"
  unfolding depth_def by (rule Least_le)

lemma depth_parent:
  assumes "reach_root tab c" "depth tab c = Suc h"
  shows "is_dir tab c" "reach_root tab (parent_id (tab ! unat c))" "depth tab (parent_id (tab ! unat c)) = h"
proof -
  let ?p = "parent_id (tab ! unat c)"
  have ne: "c \<noteq> 0" using assms(2) depth_le [of tab 0 c] by auto
  then have w: "is_dir tab c" "parent_walk tab h ?p"
    using depth_walk [OF assms(1)] assms(2) by (auto simp: parent_walk_Suc)
  show "is_dir tab c" by (rule w(1))
  show r: "reach_root tab ?p" by (rule parent_walk_reach [OF w(2)])
  have "parent_walk tab (Suc (depth tab ?p)) c" using w(1) depth_walk [OF r] by (simp add: parent_walk_Suc)
  then have "Suc h \<le> Suc (depth tab ?p)" using depth_le assms(2) by metis
  then show "depth tab ?p = h" using depth_le [OF w(2)] by simp
qed

lemma depth_all:
  "reach_root tab c \<Longrightarrow> 0 < k \<Longrightarrow> k \<le> depth tab c \<Longrightarrow> \<exists>d. is_dir tab d \<and> depth tab d = k"
proof (induction "depth tab c" arbitrary: c)
  case (Suc h)
  note dp = depth_parent [OF Suc.prems(1) Suc.hyps(2) [symmetric]]
  show ?case
  proof (cases "k = Suc h")
    case True
    then show ?thesis using dp(1) Suc.hyps(2) by metis
  next
    case False
    then show ?thesis using Suc.hyps(1) [OF dp(3) [symmetric] dp(2)] Suc.prems Suc.hyps(2) dp(3) by simp
  qed
qed simp

lemma depth_bound:
  assumes "reach_root tab c"
  shows "depth tab c \<le> length tab"
proof -
  define D where "D = {d. is_dir tab d}"
  have fin: "finite D" by (rule finite)
  have "{1..depth tab c} \<subseteq> depth tab ` D"
  proof
    fix k assume "k \<in> {1..depth tab c}"
    then obtain d where "is_dir tab d" "depth tab d = k" using depth_all [OF assms, of k] by auto
    then show "k \<in> depth tab ` D" unfolding D_def by blast
  qed
  then have "card {1..depth tab c} \<le> card (depth tab ` D)" by (rule card_mono [OF finite_imageI [OF fin]])
  also have "\<dots> \<le> card D" by (rule card_image_le [OF fin])
  also have "\<dots> = card (unat ` D)" by (rule card_image [symmetric]) (rule inj_onI, simp only: word_unat_eq_iff)
  also have "unat ` D \<subseteq> {..<length tab}" by (auto simp: D_def is_dir_def)
  then have "card (unat ` D) \<le> length tab" using card_mono [of "{..<length tab}" "unat ` D"] by simp
  finally show ?thesis by simp
qed

lemma parent_walk_iff: "parent_walk tab (length tab) c \<longleftrightarrow> reach_root tab c"
  using parent_walk_reach depth_walk depth_bound parent_walk_mono by blast

definition tree_ok :: "dir_tab \<Rightarrow> u32 \<Rightarrow> bool" where
  "tree_ok tab tot \<longleftrightarrow> (\<forall>i < length tab. is_used (tab ! i) \<noteq> 0 \<longrightarrow>
     entry_ok tab tot i \<and> reach_root tab (parent_id (tab ! i)))"

lemma validate_iff: "fs_validate_directory_table tab tot \<longleftrightarrow> tree_ok tab tot"
  by (auto simp: fs_validate_directory_table_def tree_ok_def list_all_iff parent_walk_iff)

text \<open>
  (C21) Mount-time validation is exact.  \<^verbatim>\<open>fs_validate_directory_table\<close> accepts a table precisely when every
  used entry carries its own slot as id, has a valid type and start cluster, and its parents lead
  to the root through existing directories: the hop limit turns every cycle into a refusal and
  never refuses a proper tree.
\<close>

theorem validate_exact:
  "fs_validate_directory_table tab tot \<longleftrightarrow>
     (\<forall>i < length tab. is_used (tab ! i) \<noteq> 0 \<longrightarrow> entry_ok tab tot i \<and> reach_root tab (parent_id (tab ! i)))"
  using validate_iff by (simp add: tree_ok_def)

definition sample_entry :: "nat \<Rightarrow> u16 \<Rightarrow> u8 \<Rightarrow> u8 \<Rightarrow> disk_file_entry_t" where
  "sample_entry i p ty used =
     \<lparr>filename = replicate MAX_FILENAME 65, file_size = 0, start_cluster = 0, owner_uid = 0, owner_gid = 0, mtime = 0,
      ctime = 0, entry_id = of_nat i, parent_id = p, mode = 0, file_type = ty, is_used = used\<rparr>"

definition sample_tree :: dir_tab where
  "sample_tree = [sample_entry 0 0 0 0, sample_entry 1 0 1 1, sample_entry 2 1 1 1, sample_entry 3 2 0 1]"

definition cyclic_tree :: dir_tab where
  "cyclic_tree = [sample_entry 0 0 0 0, sample_entry 1 2 1 1, sample_entry 2 1 1 1]"

theorem validate_exact_witness:
  "reach_root sample_tree (parent_id (sample_tree ! 3)) \<and> \<not> tree_ok cyclic_tree 9"
proof -
  have "fs_validate_directory_table sample_tree 9" "\<not> fs_validate_directory_table cyclic_tree 9" by code_simp+
  moreover have "3 < length sample_tree" "is_used (sample_tree ! 3) \<noteq> 0" by code_simp+
  ultimately show ?thesis
    using validate_exact [of sample_tree 9] validate_exact [of cyclic_tree 9] unfolding tree_ok_def by blast
qed

end
