(* ===== verification/Sha256.thy ===== *)
theory Sha256
  imports Prelude
begin

text \<open>
  The hash of \<^verbatim>\<open>crypto/sha256.c\<close>: the compression function, and the context that absorbs a message
  in pieces.  The context's buffer is kept as the bytes it holds, the first \<^verbatim>\<open>buffer_len\<close> of the array.
\<close>

definition ROTRIGHT :: "u32 \<Rightarrow> nat \<Rightarrow> u32" where
  "ROTRIGHT w b = drop_bit b w OR push_bit (32 - b) w"

definition CH :: "u32 \<Rightarrow> u32 \<Rightarrow> u32 \<Rightarrow> u32" where
  "CH x y z = (x AND y) XOR (NOT x AND z)"

definition MAJ :: "u32 \<Rightarrow> u32 \<Rightarrow> u32 \<Rightarrow> u32" where
  "MAJ x y z = (x AND y) XOR (x AND z) XOR (y AND z)"

definition EP0 :: "u32 \<Rightarrow> u32" where
  "EP0 x = ROTRIGHT x 2 XOR ROTRIGHT x 13 XOR ROTRIGHT x 22"

definition EP1 :: "u32 \<Rightarrow> u32" where
  "EP1 x = ROTRIGHT x 6 XOR ROTRIGHT x 11 XOR ROTRIGHT x 25"

definition SIG0 :: "u32 \<Rightarrow> u32" where
  "SIG0 x = ROTRIGHT x 7 XOR ROTRIGHT x 18 XOR drop_bit 3 x"

definition SIG1 :: "u32 \<Rightarrow> u32" where
  "SIG1 x = ROTRIGHT x 17 XOR ROTRIGHT x 19 XOR drop_bit 10 x"

text \<open>The round constants, row by row as the source lays them out.\<close>

definition sha256_k :: "u32 list" where
  "sha256_k = concat
    [[0x428a2f98, 0x71374491, 0xb5c0fbcf, 0xe9b5dba5, 0x3956c25b, 0x59f111f1, 0x923f82a4, 0xab1c5ed5],
     [0xd807aa98, 0x12835b01, 0x243185be, 0x550c7dc3, 0x72be5d74, 0x80deb1fe, 0x9bdc06a7, 0xc19bf174],
     [0xe49b69c1, 0xefbe4786, 0x0fc19dc6, 0x240ca1cc, 0x2de92c6f, 0x4a7484aa, 0x5cb0a9dc, 0x76f988da],
     [0x983e5152, 0xa831c66d, 0xb00327c8, 0xbf597fc7, 0xc6e00bf3, 0xd5a79147, 0x06ca6351, 0x14292967],
     [0x27b70a85, 0x2e1b2138, 0x4d2c6dfc, 0x53380d13, 0x650a7354, 0x766a0abb, 0x81c2c92e, 0x92722c85],
     [0xa2bfe8a1, 0xa81a664b, 0xc24b8b70, 0xc76c51a3, 0xd192e819, 0xd6990624, 0xf40e3585, 0x106aa070],
     [0x19a4c116, 0x1e376c08, 0x2748774c, 0x34b0bcb5, 0x391c0cb3, 0x4ed8aa4a, 0x5b9cca4f, 0x682e6ff3],
     [0x748f82ee, 0x78a5636f, 0x84c87814, 0x8cc70208, 0x90befffa, 0xa4506ceb, 0xbef9a3f7, 0xc67178f2]]"

subsection \<open>The compression function\<close>

definition be_word :: "u8 list \<Rightarrow> nat \<Rightarrow> u32" where
  "be_word d j = push_bit 24 (ucast (d ! j)) OR push_bit 16 (ucast (d ! (j + 1))) OR push_bit 8 (ucast (d ! (j + 2))) OR ucast (d ! (j + 3))"

definition schedule :: "u8 list \<Rightarrow> u32 list" where
  "schedule d =
     fold (\<lambda>i m. m @ [SIG1 (m ! (i - 2)) + m ! (i - 7) + SIG0 (m ! (i - 15)) + m ! (i - 16)]) [16..<64]
       (map (\<lambda>i. be_word d (4 * i)) [0..<16])"

type_synonym sha_regs = "u32 \<times> u32 \<times> u32 \<times> u32 \<times> u32 \<times> u32 \<times> u32 \<times> u32"

definition sha256_round :: "u32 list \<Rightarrow> nat \<Rightarrow> sha_regs \<Rightarrow> sha_regs" where
  "sha256_round m i = (\<lambda>(a, b, c, d, e, f, g, h).
     let t1 = h + EP1 e + CH e f g + sha256_k ! i + m ! i;
         t2 = EP0 a + MAJ a b c
     in (t1 + t2, a, b, c, d + t1, e, f, g))"

definition sha256_transform :: "u32 list \<Rightarrow> u8 list \<Rightarrow> u32 list" where
  "sha256_transform s data =
     (let m = schedule data
      in case fold (sha256_round m) [0..<64] (s ! 0, s ! 1, s ! 2, s ! 3, s ! 4, s ! 5, s ! 6, s ! 7) of
           (a, b, c, d, e, f, g, h) \<Rightarrow>
             [s ! 0 + a, s ! 1 + b, s ! 2 + c, s ! 3 + d, s ! 4 + e, s ! 5 + f, s ! 6 + g, s ! 7 + h])"

subsection \<open>The context\<close>

record sha256_ctx_t =
  sha_state :: "u32 list"
  total_len :: u32
  sha_buffer :: "u8 list"

definition sha256_init :: sha256_ctx_t where
  "sha256_init = \<lparr>sha_state = [0x6a09e667, 0xbb67ae85, 0x3c6ef372, 0xa54ff53a, 0x510e527f, 0x9b05688c, 0x1f83d9ab, 0x5be0cd19],
     total_len = 0, sha_buffer = []\<rparr>"

text \<open>
  The loop of \<^verbatim>\<open>sha256_update\<close>.  A buffer of more than 64 bytes never occurs; the first test keeps
  the function total there.
\<close>

function sha256_absorb :: "sha256_ctx_t \<Rightarrow> u8 list \<Rightarrow> sha256_ctx_t" where
  "sha256_absorb ctx d =
     (if d = [] \<or> 64 < length (sha_buffer ctx) then ctx
      else let t = min (length d) (64 - length (sha_buffer ctx));
               b = sha_buffer ctx @ take t d
           in sha256_absorb
                (if length b = 64 then ctx\<lparr>sha_state := sha256_transform (sha_state ctx) b, sha_buffer := []\<rparr>
                 else ctx\<lparr>sha_buffer := b\<rparr>)
                (drop t d))"
  by auto
termination
proof (relation "measure (\<lambda>(ctx, d). 2 * length d + (if length (sha_buffer ctx) = 64 then 1 else 0))")
  fix ctx :: sha256_ctx_t and d b :: "u8 list" and t
  assume a: "\<not> (d = [] \<or> 64 < length (sha_buffer ctx))" and t: "t = min (length d) (64 - length (sha_buffer ctx))"
    and b: "b = sha_buffer ctx @ take t d"
  show "((if length b = 64 then ctx\<lparr>sha_state := sha256_transform (sha_state ctx) b, sha_buffer := []\<rparr> else ctx\<lparr>sha_buffer := b\<rparr>, drop t d),
      ctx, d) \<in> measure (\<lambda>(ctx, d). 2 * length d + (if length (sha_buffer ctx) = 64 then 1 else 0))"
    using a t b by (cases "length (sha_buffer ctx) = 64") auto
qed simp

declare sha256_absorb.simps [simp del]

definition sha256_update :: "sha256_ctx_t \<Rightarrow> u8 list \<Rightarrow> sha256_ctx_t" where
  "sha256_update ctx d =
     (if d = [] then ctx else sha256_absorb (ctx\<lparr>total_len := total_len ctx + of_nat (length d)\<rparr>) d)"

definition be32 :: "u32 \<Rightarrow> u8 list" where
  "be32 w = [ucast (drop_bit 24 w), ucast (drop_bit 16 w), ucast (drop_bit 8 w), ucast w]"

definition sha256_final :: "sha256_ctx_t \<Rightarrow> u8 list" where
  "sha256_final ctx =
     (let b0 = sha_buffer ctx @ [0x80];
          (s1, b1) = (if 56 < length b0
                      then (sha256_transform (sha_state ctx) (b0 @ replicate (64 - length b0) 0), [])
                      else (sha_state ctx, b0));
          b2 = b1 @ replicate (56 - length b1) 0 @ be32 (drop_bit 29 (total_len ctx)) @ be32 (push_bit 3 (total_len ctx));
          s2 = sha256_transform s1 b2
      in concat (map be32 s2))"

definition sha256_binary :: "u8 list \<Rightarrow> u8 list" where
  "sha256_binary input = sha256_final (sha256_update sha256_init input)"

definition hex_chars :: "u8 list" where
  "hex_chars = [48, 49, 50, 51, 52, 53, 54, 55, 56, 57, 97, 98, 99, 100, 101, 102]"

definition sha256_to_hex :: "u8 list \<Rightarrow> u8 list" where
  "sha256_to_hex input =
     concat (map (\<lambda>b. [hex_chars ! unat (drop_bit 4 b), hex_chars ! unat (b AND 0x0F)]) (sha256_binary (cstr input))) @ [0]"

subsection \<open>Absorbing in pieces is absorbing at once\<close>

function compress_all :: "u32 list \<Rightarrow> u8 list \<Rightarrow> u32 list" where
  "compress_all s w = (if length w < 64 then s else compress_all (sha256_transform s (take 64 w)) (drop 64 w))"
  by auto
termination by (relation "measure (\<lambda>(s, w). length w)") auto

declare compress_all.simps [simp del]

definition leftover :: "u8 list \<Rightarrow> u8 list" where
  "leftover w = drop (64 * (length w div 64)) w"

lemma leftover_short [simp]: "length w < 64 \<Longrightarrow> leftover w = w" "length w < 64 \<Longrightarrow> compress_all s w = s"
  by (simp_all add: leftover_def compress_all.simps)

lemma length_leftover: "length (leftover w) = length w mod 64"
  by (simp add: leftover_def minus_mult_div_eq_mod)

lemma leftover_step:
  assumes "length b = 64"
  shows "compress_all s (b @ w) = compress_all (sha256_transform s b) w" "leftover (b @ w) = leftover w"
proof -
  show "compress_all s (b @ w) = compress_all (sha256_transform s b) w"
    using assms by (subst compress_all.simps) simp
  have "(64 + length w) div 64 = Suc (length w div 64)" by simp
  then show "leftover (b @ w) = leftover w" using assms by (simp add: leftover_def)
qed

lemma sha256_absorb_spec:
  "length (sha_buffer ctx) < 64 \<Longrightarrow>
   sha256_absorb ctx d = ctx\<lparr>sha_state := compress_all (sha_state ctx) (sha_buffer ctx @ d), sha_buffer := leftover (sha_buffer ctx @ d)\<rparr>"
proof (induction "length d" arbitrary: ctx d rule: less_induct)
  case less
  let ?t = "min (length d) (64 - length (sha_buffer ctx))"
  let ?b = "sha_buffer ctx @ take ?t d"
  consider "d = []" | "d \<noteq> []" "length ?b = 64" | "d \<noteq> []" "length ?b < 64" using less.prems by fastforce
  then show ?case
  proof cases
    case 1
    then show ?thesis using less.prems by (subst sha256_absorb.simps) simp
  next
    case 2
    let ?c = "ctx\<lparr>sha_state := sha256_transform (sha_state ctx) ?b, sha_buffer := []\<rparr>"
    have "length (drop ?t d) < length d" using 2(1) less.prems by auto
    from less.hyps [OF this, of ?c]
    have "sha256_absorb ?c (drop ?t d) = ?c\<lparr>sha_state := compress_all (sha256_transform (sha_state ctx) ?b) (drop ?t d), sha_buffer := leftover (drop ?t d)\<rparr>"
      by simp
    moreover have "sha256_absorb ctx d = sha256_absorb ?c (drop ?t d)"
      using 2 less.prems by (subst sha256_absorb.simps) (simp add: Let_def)
    moreover have "sha_buffer ctx @ d = ?b @ drop ?t d" by simp
    ultimately show ?thesis using leftover_step(1) [OF 2(2), of _ "drop ?t d"] leftover_step(2) [OF 2(2), of "drop ?t d"] by simp
  next
    case 3
    then have "?t = length d" by auto
    then show ?thesis using 3 less.prems by (subst sha256_absorb.simps) (simp add: sha256_absorb.simps)
  qed
qed

lemma compress_append: "compress_all (compress_all s v) (leftover v @ w) = compress_all s (v @ w)"
  "leftover (leftover v @ w) = leftover (v @ w)"
proof (induction s v rule: compress_all.induct)
  case (1 s v)
  {
    case 1
    show ?case
    proof (cases "length v < 64")
      case False
      let ?b = "take 64 v" and ?v = "drop 64 v"
      have b: "length ?b = 64" "v = ?b @ ?v" using False by simp_all
      have "compress_all s v = compress_all (sha256_transform s ?b) ?v" "leftover v = leftover ?v"
        using leftover_step(1) [OF b(1), of s ?v] leftover_step(2) [OF b(1), of ?v] b(2) by simp_all
      moreover have "compress_all s (v @ w) = compress_all (sha256_transform s ?b) (?v @ w)"
        using leftover_step(1) [OF b(1), of s "?v @ w"] b(2) by (metis append_assoc)
      ultimately show ?thesis using "1.IH"(1) [OF False] by simp
    qed simp
  next
    case 2
    show ?case
    proof (cases "length v < 64")
      case False
      let ?b = "take 64 v" and ?v = "drop 64 v"
      have b: "length ?b = 64" "v = ?b @ ?v" using False by simp_all
      have "leftover v = leftover ?v" using leftover_step(2) [OF b(1), of ?v] b(2) by simp
      moreover have "leftover (v @ w) = leftover (?v @ w)"
        using leftover_step(2) [OF b(1), of "?v @ w"] b(2) by (metis append_assoc)
      ultimately show ?thesis using "1.IH"(2) [OF False] by simp
    qed simp
  }
qed

definition sha_ok :: "sha256_ctx_t \<Rightarrow> bool" where
  "sha_ok ctx \<longleftrightarrow> length (sha_buffer ctx) < 64"

lemma sha256_update_spec:
  "sha_ok ctx \<Longrightarrow> sha256_update ctx d = ctx\<lparr>sha_state := compress_all (sha_state ctx) (sha_buffer ctx @ d),
     total_len := total_len ctx + of_nat (length d), sha_buffer := leftover (sha_buffer ctx @ d)\<rparr>"
  by (auto simp: sha256_update_def sha_ok_def sha256_absorb_spec)

lemma sha_ok_init [simp]: "sha_ok sha256_init"
  by (simp add: sha_ok_def sha256_init_def)

lemma sha_ok_update: "sha_ok ctx \<Longrightarrow> sha_ok (sha256_update ctx d)"
  by (simp add: sha256_update_spec) (simp add: sha_ok_def length_leftover)

lemma sha256_update_append:
  assumes ok: "sha_ok ctx"
  shows "sha256_update (sha256_update ctx a) b = sha256_update ctx (a @ b)"
  unfolding sha256_update_spec [OF sha_ok_update [OF ok]] unfolding sha256_update_spec [OF ok]
  using compress_append(1) [of "sha_state ctx" "sha_buffer ctx @ a" b] compress_append(2) [of "sha_buffer ctx @ a" b]
  by (simp add: add.assoc)

subsection \<open>The standard's definition\<close>

text \<open>The message, a one bit, zeros, and the length in bits as a 64-bit big-endian number.\<close>

definition sha256_pad :: "u8 list \<Rightarrow> u8 list" where
  "sha256_pad msg = msg @ 0x80 # replicate ((119 - length msg mod 64) mod 64) 0 @
     map (\<lambda>i. of_nat (drop_bit (56 - 8 * i) (8 * length msg))) [0..<8]"

definition sha256_spec :: "u8 list \<Rightarrow> u8 list" where
  "sha256_spec msg = concat (map be32 (compress_all (sha_state sha256_init) (sha256_pad msg)))"

lemma length_pad: "length (sha256_pad msg) mod 64 = 0"
proof -
  define m where "m = length msg mod 64"
  have m: "m < 64" "length msg = 64 * (length msg div 64) + m" by (simp_all add: m_def)
  have "m + 1 + (119 - m) mod 64 + 8 = 64 \<or> m + 1 + (119 - m) mod 64 + 8 = 128"
  proof (cases "m < 56")
    case True
    then have "(119 - m) mod 64 = 55 - m" by (simp add: mod_if)
    then show ?thesis using True by simp
  next
    case False
    then show ?thesis using m(1) by simp
  qed
  moreover have "length (sha256_pad msg) = 64 * (length msg div 64) + (m + 1 + (119 - m) mod 64 + 8)"
    using m(2) by (simp add: sha256_pad_def flip: m_def)
  ultimately show ?thesis by auto
qed

lemma be_length:
  assumes "n < 4294967296"
  shows "be32 (drop_bit 29 (of_nat n)) @ be32 (push_bit 3 (of_nat n)) = map (\<lambda>i. of_nat (drop_bit (56 - 8 * i) (8 * n))) [0..<8]"
proof -
  have e: "8 * n = push_bit 3 n" by (simp add: push_bit_eq_mult)
  have top: "\<not> bit n j" if "32 \<le> j" for j
  proof -
    have "n < 2 ^ j" using assms power_increasing [OF that, of "2 :: nat"] by simp
    then show ?thesis by (simp add: bit_nat_iff bit_iff_odd)
  qed
  have hi: "ucast (drop_bit k (drop_bit 29 (of_nat n :: u32))) = (of_nat (drop_bit (k + 32) (8 * n)) :: u8)" for k
    unfolding e
  proof (rule bit_word_eqI)
    fix j assume j: "j < LENGTH(8)"
    have "bit (ucast (drop_bit k (drop_bit 29 (of_nat n :: u32))) :: u8) j \<longleftrightarrow> j + k + 29 < 32 \<and> bit n (j + k + 29)"
      using j by (auto simp: bit_simps ac_simps)
    also have "\<dots> \<longleftrightarrow> bit n (j + k + 29)" using top [of "j + k + 29"] by (cases "j + k + 29 < 32") auto
    also have "\<dots> \<longleftrightarrow> bit (of_nat (drop_bit (k + 32) (push_bit 3 n)) :: u8) j" using j by (simp add: bit_simps ac_simps)
    finally show "bit (ucast (drop_bit k (drop_bit 29 (of_nat n :: u32))) :: u8) j \<longleftrightarrow>
        bit (of_nat (drop_bit (k + 32) (push_bit 3 n)) :: u8) j" .
  qed
  have lo: "ucast (drop_bit k (push_bit 3 (of_nat n :: u32))) = (of_nat (drop_bit k (8 * n)) :: u8)" if "k \<le> 24" for k
    unfolding e by (intro bit_word_eqI) (use that in \<open>auto simp: bit_simps\<close>)
  have "[0..<8] = [0, 1, 2, 3, 4, 5, 6, 7 :: nat]" by code_simp
  then show ?thesis using hi [of 24] hi [of 16] hi [of 8] hi [of 0] lo [of 24] lo [of 16] lo [of 8] lo [of 0]
    by (simp add: be32_def)
qed

lemma compress_one: "length b = 64 \<Longrightarrow> compress_all s b = sha256_transform s b"
  using leftover_step(1) [of b s "[]"] by simp

lemma sha256_final_spec:
  assumes "length (sha_buffer ctx) < 64"
  defines "m \<equiv> length (sha_buffer ctx)"
  shows "sha256_final ctx = concat (map be32 (compress_all (sha_state ctx) (sha_buffer ctx @ 0x80 # replicate ((119 - m) mod 64) 0 @
     be32 (drop_bit 29 (total_len ctx)) @ be32 (push_bit 3 (total_len ctx)))))"
proof -
  let ?len = "be32 (drop_bit 29 (total_len ctx)) @ be32 (push_bit 3 (total_len ctx))"
  let ?b0 = "sha_buffer ctx @ [0x80]"
  have len: "length ?len = 8" by (simp add: be32_def)
  show ?thesis
  proof (cases "m < 56")
    case True
    then have z: "(119 - m) mod 64 = 55 - m" by (simp add: mod_if)
    have "compress_all (sha_state ctx) (?b0 @ replicate (55 - m) 0 @ ?len) = sha256_transform (sha_state ctx) (?b0 @ replicate (55 - m) 0 @ ?len)"
      using len True by (intro compress_one) (simp add: m_def)
    then show ?thesis using True z by (simp add: sha256_final_def Let_def m_def)
  next
    case False
    then have z: "(119 - m) mod 64 = (63 - m) + 56" using assms(1) by (simp add: m_def)
    let ?a = "?b0 @ replicate (63 - m) 0" and ?c = "replicate 56 0 @ ?len"
    have a: "length ?a = 64" using assms(1) by (simp add: m_def)
    have "compress_all (sha_state ctx) (?a @ ?c) = sha256_transform (sha256_transform (sha_state ctx) ?a) ?c"
      using leftover_step(1) [OF a] compress_one [of ?c] len by simp
    then have "concat (map be32 (compress_all (sha_state ctx) (sha_buffer ctx @ 0x80 # replicate ((119 - m) mod 64) 0 @ ?len))) =
        concat (map be32 (sha256_transform (sha256_transform (sha_state ctx) ?a) ?c))"
      unfolding z replicate_add by (simp only: append.assoc append_Cons append_Nil)
    moreover have "sha256_final ctx = concat (map be32 (sha256_transform (sha256_transform (sha_state ctx) ?a) ?c))"
      using False by (simp add: sha256_final_def Let_def m_def)
    ultimately show ?thesis by simp
  qed
qed

lemma sha256_binary_spec:
  assumes "length msg < 4294967296"
  shows "sha256_binary msg = sha256_spec msg"
proof -
  define ctx where "ctx = sha256_update sha256_init msg"
  have c: "sha_state ctx = compress_all (sha_state sha256_init) msg" "sha_buffer ctx = leftover msg" "total_len ctx = of_nat (length msg)"
    unfolding ctx_def sha256_update_spec [OF sha_ok_init] by (simp_all add: sha256_init_def)
  have lt: "length (sha_buffer ctx) < 64" by (simp add: c(2) length_leftover)
  have "sha256_final ctx = concat (map be32 (compress_all (compress_all (sha_state sha256_init) msg) (leftover msg @ 0x80 #
      replicate ((119 - length msg mod 64) mod 64) 0 @ map (\<lambda>i. of_nat (drop_bit (56 - 8 * i) (8 * length msg))) [0..<8])))"
    unfolding sha256_final_spec [OF lt] c be_length [OF assms] length_leftover ..
  then show ?thesis unfolding compress_append(1) by (simp add: sha256_binary_def sha256_spec_def sha256_pad_def flip: ctx_def)
qed

lemma length_transform [simp]: "length (sha256_transform s b) = 8"
  by (simp add: sha256_transform_def Let_def case_prod_beta)

lemma length_sha256_final [simp]: "length (sha256_final ctx) = 32"
proof -
  have "length (concat (map be32 xs)) = 4 * length xs" for xs by (induction xs) (simp_all add: be32_def)
  then show ?thesis by (simp add: sha256_final_def Let_def case_prod_beta)
qed

lemma length_sha256_binary [simp]: "length (sha256_binary msg) = 32"
  by (simp add: sha256_binary_def)

subsection \<open>Properties\<close>

text \<open>
  (C25) The incremental hash is SHA-256.  However a message is cut into pieces, feeding the pieces to
  \<^verbatim>\<open>sha256_update\<close> one after the other and finishing gives the digest the standard defines for the
  whole message: the compression function folded over the padded message with its bit length.
\<close>

theorem sha256_incremental:
  assumes "length (concat pieces) < 4294967296"
  shows "sha256_final (fold (\<lambda>p ctx. sha256_update ctx p) pieces sha256_init) = sha256_spec (concat pieces)"
proof -
  have "sha_ok ctx \<Longrightarrow> fold (\<lambda>p ctx. sha256_update ctx p) pieces ctx = sha256_update ctx (concat pieces)" for ctx
  proof (induction pieces arbitrary: ctx)
    case Nil
    then show ?case by (simp add: sha256_update_def)
  next
    case (Cons p ps)
    then show ?case by (simp add: sha_ok_update sha256_update_append)
  qed
  then show ?thesis using sha256_binary_spec [OF assms] by (simp add: sha256_binary_def)
qed

theorem sha256_incremental_witness:
  "sha256_final (sha256_update (sha256_update sha256_init [97]) [98, 99]) = sha256_spec [97, 98, 99]"
  using sha256_incremental [of "[[97], [98, 99]]"] by simp

end
