(* ===== verification/Entropy.thy ===== *)
theory Entropy
  imports Sha256
begin

text \<open>
  The entropy pool of \<^verbatim>\<open>kernel/security/entropy.c\<close>: samples taken by interrupt handlers, the estimate of what
  they are worth, and extraction.  What the processor delivers is an argument: the time stamp of an
  event, whether there is an RDRAND instruction, and the outcome of each attempt to use it (the
  attempts beyond the end of the list fail).  The seed file is written through the file system and
  is not part of this theory.
\<close>

definition ENTROPY_RING_SIZE :: nat where "ENTROPY_RING_SIZE = 64"

definition ENTROPY_OK_THRESHOLD :: u32 where "ENTROPY_OK_THRESHOLD = 256"

datatype entropy_quality_t = ENTROPY_OK | ENTROPY_WEAK | ENTROPY_FAIL

datatype entropy_src = SRC_TIMER | SRC_KBD | SRC_ATA

fun entropy_cap :: "entropy_src \<Rightarrow> u32" where
  "entropy_cap SRC_KBD = 4"
| "entropy_cap SRC_ATA = 2"
| "entropy_cap SRC_TIMER = 0"

fun entropy_budget :: "entropy_src \<Rightarrow> u32" where
  "entropy_budget SRC_KBD = 4096"
| "entropy_budget SRC_ATA = 64"
| "entropy_budget SRC_TIMER = 0"

fun src_code :: "entropy_src \<Rightarrow> u32" where
  "src_code SRC_TIMER = 0"
| "src_code SRC_KBD = 1"
| "src_code SRC_ATA = 2"

record entropy_pool =
  pool_state :: "u8 list"
  ring :: "u32 list"
  ring_head :: u32
  ring_count :: u32
  seq :: u32
  counter :: "64 word"
  credited_bits :: u32
  events :: "entropy_src \<Rightarrow> u32"
  credited_by_source :: "entropy_src \<Rightarrow> u32"
  last_tsc :: u32
  last_d1 :: u32
  last_d2 :: u32
  delta_lsb_map :: u32
  min_delta :: u32
  max_delta :: u32
  seeded :: bool

text \<open>The number of significant bits, by the loop that shifts them out.\<close>

function bit_length :: "u32 \<Rightarrow> nat" where
  "bit_length v = (if v = 0 then 0 else Suc (bit_length (drop_bit 1 v)))"
  by auto
termination
proof (relation "measure unat")
  fix v :: u32
  assume "v \<noteq> 0"
  then have "0 < unat v" by (simp add: unat_gt_0)
  then have "unat v div 2 < unat v" by simp
  then show "(drop_bit 1 v, v) \<in> measure unat" by (simp add: drop_bit_eq_div unat_div)
qed simp

declare bit_length.simps [simp del]

definition pool_absorb_word :: "entropy_pool \<Rightarrow> u32 \<Rightarrow> entropy_pool" where
  "pool_absorb_word p w =
     p\<lparr>pool_state := sha256_final (sha256_update (sha256_update sha256_init (pool_state p)) (le32 w))\<rparr>"

definition pool_absorb_bytes :: "entropy_pool \<Rightarrow> u8 list \<Rightarrow> u8 list \<Rightarrow> entropy_pool" where
  "pool_absorb_bytes p label bs =
     p\<lparr>pool_state := sha256_final (sha256_update (sha256_update (sha256_update sha256_init (pool_state p)) (cstr label)) bs)\<rparr>"

definition pool_zero :: entropy_pool where
  "pool_zero = \<lparr>pool_state = replicate 32 0, ring = replicate ENTROPY_RING_SIZE 0, ring_head = 0, ring_count = 0, seq = 0,
     counter = 0, credited_bits = 0, events = (\<lambda>_. 0), credited_by_source = (\<lambda>_. 0), last_tsc = 0, last_d1 = 0, last_d2 = 0,
     delta_lsb_map = 0, min_delta = 0, max_delta = 0, seeded = False\<rparr>"

text \<open>The ten words read from the time stamp counter, the clock and the stack are an argument.\<close>

definition entropy_init :: "entropy_pool \<Rightarrow> u32 list \<Rightarrow> entropy_pool" where
  "entropy_init p seed =
     (let p1 = (if seeded p then p else pool_zero\<lparr>min_delta := 0xFFFFFFFF\<rparr>);
          p2 = fold (\<lambda>w q. pool_absorb_word q w) seed p1
      in p2\<lparr>last_tsc := seed ! 9, seeded := True\<rparr>)"

definition src_of_code :: "u32 \<Rightarrow> entropy_src option" where
  "src_of_code n = (if n = 0 then Some SRC_TIMER else if n = 1 then Some SRC_KBD else if n = 2 then Some SRC_ATA else None)"

text \<open>What one event is worth: no more than its least regular delta, the ceiling per event, and what
  is left of the lifetime budget of its source.\<close>

definition event_credit :: "entropy_pool \<Rightarrow> entropy_src \<Rightarrow> u32 \<Rightarrow> u32 \<Rightarrow> u32 \<Rightarrow> u32" where
  "event_credit p source d1 d2 d3 =
     (let b1 = of_nat (bit_length d1); b2 = of_nat (bit_length d2); b3 = of_nat (bit_length d3);
          credit = b1;
          credit = (if b2 < credit then b2 else credit);
          credit = (if b3 < credit then b3 else credit);
          credit = (if entropy_cap source < credit then entropy_cap source else credit);
          spent = credited_by_source p source;
          remaining = (if entropy_budget source \<le> spent then 0 else entropy_budget source - spent)
      in if remaining < credit then remaining else credit)"

definition record_event :: "entropy_pool \<Rightarrow> u32 \<Rightarrow> entropy_src \<Rightarrow> u32 \<Rightarrow> entropy_pool" where
  "record_event p tsc source d =
     (let d1 = tsc - last_tsc p;
          d2 = d1 - last_d1 p;
          d3 = d2 - last_d2 p;
          p1 = p\<lparr>last_tsc := tsc, last_d1 := d1, last_d2 := d2,
                 ring := (ring p)[unat (ring_head p) := d1 XOR push_bit 16 d XOR src_code source XOR tsc],
                 ring_head := (ring_head p + 1) AND (of_nat ENTROPY_RING_SIZE - 1),
                 ring_count := (if ring_count p < of_nat ENTROPY_RING_SIZE then ring_count p + 1 else ring_count p),
                 events := (events p)(source := events p source + 1),
                 delta_lsb_map := delta_lsb_map p OR push_bit (unat (d1 AND 31)) 1,
                 min_delta := (if d1 < min_delta p then d1 else min_delta p),
                 max_delta := (if max_delta p < d1 then d1 else max_delta p)\<rparr>;
          credit = event_credit p source d1 d2 d3
      in if credit = 0 then p1
         else p1\<lparr>credited_by_source := (credited_by_source p)(source := credited_by_source p source + credit),
                 credited_bits := credited_bits p + credit\<rparr>)"

definition entropy_add_event :: "entropy_pool \<Rightarrow> u32 \<Rightarrow> u32 \<Rightarrow> u32 \<Rightarrow> entropy_pool" where
  "entropy_add_event p tsc source d = (case src_of_code source of None \<Rightarrow> p | Some src \<Rightarrow> record_event p tsc src d)"

definition entropy_quality :: "bool \<Rightarrow> entropy_pool \<Rightarrow> entropy_quality_t" where
  "entropy_quality has_rdrand p =
     (if \<not> seeded p then ENTROPY_FAIL
      else if has_rdrand then ENTROPY_OK
      else if ENTROPY_OK_THRESHOLD \<le> credited_bits p then ENTROPY_OK else ENTROPY_WEAK)"

definition entropy_next_counter :: "entropy_pool \<Rightarrow> 64 word \<times> entropy_pool" where
  "entropy_next_counter p = (counter p, p\<lparr>counter := counter p + 1\<rparr>)"

definition pool_drain_ring :: "entropy_pool \<Rightarrow> entropy_pool" where
  "pool_drain_ring p =
     (let samples = take (unat (ring_count p)) (ring p);
          p1 = p\<lparr>ring_count := 0, ring_head := 0\<rparr>
      in if ring_count p = 0 then p1
         else p1\<lparr>pool_state := sha256_final (sha256_update (sha256_update sha256_init (pool_state p)) (concat (map le32 samples)))\<rparr>)"

text \<open>One block of output, and the blocks that make up \<open>n\<close> bytes.\<close>

definition extract_block :: "u8 list \<Rightarrow> u32 \<Rightarrow> u32 \<Rightarrow> u8 list" where
  "extract_block st sq index =
     sha256_final (sha256_update (sha256_update (sha256_update sha256_init st) (le32 sq)) (le32 index))"

function extract_bytes :: "u8 list \<Rightarrow> u32 \<Rightarrow> u32 \<Rightarrow> nat \<Rightarrow> u8 list" where
  "extract_bytes st sq index n =
     (if n = 0 then [] else take n (extract_block st sq index) @ extract_bytes st sq (index + 1) (n - 32))"
  by auto
termination by (relation "measure (\<lambda>(st, sq, index, n). n)") auto

declare extract_bytes.simps [simp del]

definition pool_extract :: "entropy_pool \<Rightarrow> nat \<Rightarrow> u8 list \<times> entropy_pool" where
  "pool_extract p n =
     (let sq = seq p + 1
      in (extract_bytes (pool_state p) sq 0 n,
          p\<lparr>seq := sq, pool_state := sha256_final (sha256_update (sha256_update sha256_init (pool_state p)) [0x01])\<rparr>))"

text \<open>Up to ten attempts at RDRAND, and filling a buffer with what they give.\<close>

fun rdrand_word :: "nat \<Rightarrow> u32 option list \<Rightarrow> u32 option \<times> u32 option list" where
  "rdrand_word 0 hw = (None, hw)"
| "rdrand_word (Suc k) hw =
     (case hw of [] \<Rightarrow> (None, [])
      | Some w # hw' \<Rightarrow> (Some w, hw')
      | None # hw' \<Rightarrow> rdrand_word k hw')"

function rdrand_fill :: "entropy_pool \<Rightarrow> nat \<Rightarrow> u32 option list \<Rightarrow> u8 list option \<times> entropy_pool" where
  "rdrand_fill p n hw =
     (if n = 0 then (Some [], p)
      else case rdrand_word 10 hw of
             (None, hw') \<Rightarrow> (None, p)
           | (Some w, hw') \<Rightarrow>
               (case rdrand_fill (pool_absorb_word p w) (n - 4) hw' of
                  (bs, p') \<Rightarrow> (map_option (\<lambda>b. take n (le32 w) @ b) bs, p')))"
  by auto
termination by (relation "measure (\<lambda>(p, n, hw). n)") auto

declare rdrand_fill.simps [simp del]

text \<open>A buffer of \<open>n\<close> bytes; \<open>None\<close> leaves the caller's buffer as it was.\<close>

definition generate_random_bytes :: "bool \<Rightarrow> u32 option list \<Rightarrow> entropy_pool \<Rightarrow> nat \<Rightarrow>
  entropy_quality_t \<times> u8 list option \<times> entropy_pool" where
  "generate_random_bytes has_rdrand hw p n =
     (if n = 0 then (entropy_quality has_rdrand p, None, p)
      else if \<not> seeded p then (ENTROPY_FAIL, None, p)
      else let (filled, p1) = (if has_rdrand then rdrand_fill p n hw else (None, p)) in
           case filled of
             Some bs \<Rightarrow> (ENTROPY_OK, Some bs, p1\<lparr>seq := seq p1 + 1\<rparr>)
           | None \<Rightarrow>
               let (bs, p2) = pool_extract (pool_drain_ring p1) n
               in (if ENTROPY_OK_THRESHOLD \<le> credited_bits p2 then ENTROPY_OK else ENTROPY_WEAK, Some bs, p2))"

subsection \<open>How much is delivered\<close>

lemma length_extract_block: "length (extract_block st sq index) = 32"
  by (simp add: extract_block_def)

lemma length_extract_bytes: "length (extract_bytes st sq index n) = n"
proof (induction st sq index n rule: extract_bytes.induct)
  case (1 st sq index n)
  show ?case
  proof (cases "n = 0")
    case True
    then show ?thesis by (subst extract_bytes.simps) simp
  next
    case False
    then show ?thesis using "1.IH" by (subst extract_bytes.simps) (simp add: length_extract_block)
  qed
qed

lemma length_rdrand_fill: "rdrand_fill p n hw = (Some bs, p') \<Longrightarrow> length bs = n"
proof (induction p n hw arbitrary: bs p' rule: rdrand_fill.induct)
  case (1 p n hw)
  show ?case
  proof (cases "n = 0")
    case True
    then show ?thesis using "1.prems" by (subst (asm) rdrand_fill.simps) simp
  next
    case False
    obtain r hw' where r: "rdrand_word 10 hw = (r, hw')" by fastforce
    show ?thesis
    proof (cases r)
      case None
      then show ?thesis using "1.prems" False r by (subst (asm) rdrand_fill.simps) simp
    next
      case (Some w)
      obtain b1 p1 where f: "rdrand_fill (pool_absorb_word p w) (n - 4) hw' = (b1, p1)" by fastforce
      then obtain bs1 where b: "b1 = Some bs1" "bs = take n (le32 w) @ bs1"
        using "1.prems" False r Some by (subst (asm) rdrand_fill.simps) (cases b1; simp)
      then show ?thesis using "1.IH" [OF False r [symmetric] Some f [unfolded b(1)]] by simp
    qed
  qed
qed

lemma length_random_bytes:
  assumes "generate_random_bytes has_rdrand hw p n = (q, bs, p')" "q \<noteq> ENTROPY_FAIL" "0 < n"
  shows "\<exists>b. bs = Some b \<and> length b = n"
proof -
  have seeded: "seeded p" using assms by (auto simp: generate_random_bytes_def split: if_splits)
  obtain filled p1 where f: "(if has_rdrand then rdrand_fill p n hw else (None, p)) = (filled, p1)" by fastforce
  show ?thesis
  proof (cases filled)
    case None
    then show ?thesis using assms seeded f
      by (auto simp: generate_random_bytes_def pool_extract_def Let_def length_extract_bytes)
  next
    case (Some b)
    then have "length b = n" using f length_rdrand_fill by (auto split: if_splits)
    then show ?thesis using assms seeded f Some by (auto simp: generate_random_bytes_def Let_def)
  qed
qed

lemma rdrand_fill_seeded: "rdrand_fill p n hw = (bs, p') \<Longrightarrow> seeded p' = seeded p"
proof (induction p n hw arbitrary: bs p' rule: rdrand_fill.induct)
  case (1 p n hw)
  obtain r hw' where r: "rdrand_word 10 hw = (r, hw')" by fastforce
  show ?case
  proof (cases "n = 0 \<or> r = None")
    case True
    then show ?thesis using "1.prems" r by (subst (asm) rdrand_fill.simps) (auto split: if_splits)
  next
    case False
    then obtain w where n: "n \<noteq> 0" and w: "r = Some w" by auto
    obtain bs1 p1 where f: "rdrand_fill (pool_absorb_word p w) (n - 4) hw' = (bs1, p1)" by fastforce
    have "p' = p1" using "1.prems" n r w f by (subst (asm) rdrand_fill.simps) simp
    then show ?thesis using "1.IH" [OF n r [symmetric] w f] by (simp add: pool_absorb_word_def)
  qed
qed

text \<open>A pool that was initialised always serves, and stays initialised.\<close>

lemma random_bytes_seeded:
  assumes "generate_random_bytes has_rdrand hw p n = (q, bs, p')" "seeded p"
  shows "q \<noteq> ENTROPY_FAIL" "seeded p'"
proof -
  obtain filled p1 where f: "(if has_rdrand then rdrand_fill p n hw else (None, p)) = (filled, p1)" by fastforce
  then have "seeded p1" using assms(2) rdrand_fill_seeded by (auto split: if_splits)
  then show "q \<noteq> ENTROPY_FAIL" "seeded p'" using assms f
    by (auto simp: generate_random_bytes_def entropy_quality_def pool_extract_def pool_drain_ring_def Let_def
      split: if_splits option.splits)
qed

subsection \<open>What the pool claims to hold\<close>

text \<open>The pools that can be reached when events come from the sources in \<open>S\<close> only.\<close>

inductive pool_reach :: "entropy_src set \<Rightarrow> entropy_pool \<Rightarrow> bool" for S where
  reach_zero: "pool_reach S pool_zero"
| reach_init: "pool_reach S p \<Longrightarrow> pool_reach S (entropy_init p seed)"
| reach_event: "pool_reach S p \<Longrightarrow> src_of_code code = None \<or> (\<exists>x \<in> S. src_of_code code = Some x) \<Longrightarrow>
    pool_reach S (entropy_add_event p tsc code d)"
| reach_counter: "pool_reach S p \<Longrightarrow> entropy_next_counter p = (n, p') \<Longrightarrow> pool_reach S p'"
| reach_bytes: "pool_reach S p \<Longrightarrow> generate_random_bytes has_rdrand hw p n = (q, bs, p') \<Longrightarrow> pool_reach S p'"
| reach_seed: "pool_reach S p \<Longrightarrow> pool_reach S (pool_absorb_bytes p label bs)"

definition credit_inv :: "entropy_src set \<Rightarrow> entropy_pool \<Rightarrow> bool" where
  "credit_inv S p \<longleftrightarrow> (\<forall>x. credited_by_source p x \<le> entropy_budget x) \<and> (\<forall>x. x \<notin> S \<longrightarrow> credited_by_source p x = 0) \<and>
     unat (credited_bits p) = unat (credited_by_source p SRC_TIMER) + unat (credited_by_source p SRC_KBD) + unat (credited_by_source p SRC_ATA)"

lemma credit_inv_cong:
  "credited_by_source p' = credited_by_source p \<Longrightarrow> credited_bits p' = credited_bits p \<Longrightarrow> credit_inv S p \<Longrightarrow> credit_inv S p'"
  by (simp add: credit_inv_def)

lemma absorb_credit [simp]:
  "credited_by_source (pool_absorb_word p w) = credited_by_source p" "credited_bits (pool_absorb_word p w) = credited_bits p"
  by (simp_all add: pool_absorb_word_def)

lemma absorb_all_credit:
  "credited_by_source (fold (\<lambda>w q. pool_absorb_word q w) ws p) = credited_by_source p"
  "credited_bits (fold (\<lambda>w q. pool_absorb_word q w) ws p) = credited_bits p"
  by (induction ws arbitrary: p) simp_all

lemma rdrand_fill_credit:
  "rdrand_fill p n hw = (bs, p') \<Longrightarrow> credited_by_source p' = credited_by_source p \<and> credited_bits p' = credited_bits p"
proof (induction p n hw arbitrary: bs p' rule: rdrand_fill.induct)
  case (1 p n hw)
  show ?case
  proof (cases "n = 0")
    case True
    then show ?thesis using "1.prems" by (subst (asm) rdrand_fill.simps) simp
  next
    case False
    obtain r hw' where r: "rdrand_word 10 hw = (r, hw')" by fastforce
    show ?thesis
    proof (cases r)
      case None
      then show ?thesis using "1.prems" False r by (subst (asm) rdrand_fill.simps) simp
    next
      case (Some w)
      obtain bs1 p1 where f: "rdrand_fill (pool_absorb_word p w) (n - 4) hw' = (bs1, p1)" by fastforce
      have "p' = p1" using "1.prems" False r Some f by (subst (asm) rdrand_fill.simps) simp
      then show ?thesis using "1.IH" [OF False r [symmetric] Some f] by simp
    qed
  qed
qed

lemma bytes_credit:
  assumes "generate_random_bytes has_rdrand hw p n = (q, bs, p')"
  shows "credited_by_source p' = credited_by_source p \<and> credited_bits p' = credited_bits p"
proof -
  obtain filled p1 where f: "(if has_rdrand then rdrand_fill p n hw else (None, p)) = (filled, p1)" by fastforce
  then have "credited_by_source p1 = credited_by_source p \<and> credited_bits p1 = credited_bits p"
    using rdrand_fill_credit by (auto split: if_splits)
  then show ?thesis using assms f
    by (auto simp: generate_random_bytes_def pool_extract_def pool_drain_ring_def Let_def split: if_splits option.splits)
qed

lemma budget_sum:
  fixes spent credit :: u32
  assumes "spent \<le> b" "credit \<le> (if b \<le> spent then 0 else b - spent)" "unat b \<le> 4096"
  shows "spent + credit \<le> b" "unat (spent + credit) = unat spent + unat credit"
proof -
  have le: "unat credit \<le> unat b - unat spent" "unat spent \<le> unat b"
    using assms(1,2) by (auto simp: word_le_nat_alt unat_sub split: if_splits)
  then show u: "unat (spent + credit) = unat spent + unat credit" using assms(3) by (intro unat_add_u32) linarith
  show "spent + credit \<le> b" using u le by (simp add: word_le_nat_alt)
qed

lemma event_credit_le:
  "event_credit p x d1 d2 d3 \<le> (if entropy_budget x \<le> credited_by_source p x then 0 else entropy_budget x - credited_by_source p x)"
  by (simp add: event_credit_def Let_def not_less)

lemma entropy_budget_le: "unat (entropy_budget x) \<le> 4096"
  by (cases x) simp_all

lemma record_event_credit:
  assumes "c = event_credit p x (tsc - last_tsc p) (tsc - last_tsc p - last_d1 p) (tsc - last_tsc p - last_d1 p - last_d2 p)"
  shows "credited_by_source (record_event p tsc x d) = (credited_by_source p)(x := credited_by_source p x + c)"
    and "credited_bits (record_event p tsc x d) = credited_bits p + c"
  unfolding record_event_def Let_def assms [symmetric] by simp_all

lemma credit_inv_bits:
  assumes "credit_inv S p"
  shows "unat (credited_bits p) \<le> 4160"
proof -
  have "unat (credited_by_source p x) \<le> unat (entropy_budget x)" for x
    using assms by (simp add: credit_inv_def word_le_nat_alt)
  from this [of SRC_TIMER] this [of SRC_KBD] this [of SRC_ATA] show ?thesis
    using assms by (simp add: credit_inv_def)
qed

lemma record_event_keeps_credit:
  assumes inv: "credit_inv S p" and x: "x \<in> S"
  shows "credit_inv S (record_event p tsc x d)"
proof -
  define c where
    "c = event_credit p x (tsc - last_tsc p) (tsc - last_tsc p - last_d1 p) (tsc - last_tsc p - last_d1 p - last_d2 p)"
  note rec = record_event_credit [OF c_def]
  have spent: "credited_by_source p x \<le> entropy_budget x" using inv by (simp add: credit_inv_def)
  have lim: "c \<le> (if entropy_budget x \<le> credited_by_source p x then 0 else entropy_budget x - credited_by_source p x)"
    unfolding c_def by (rule event_credit_le)
  note sum = budget_sum [OF spent lim entropy_budget_le]
  have "unat c \<le> 4096" using sum [unfolded word_le_nat_alt] entropy_budget_le [of x] by linarith
  then have bits: "unat (credited_bits p + c) = unat (credited_bits p) + unat c"
    using credit_inv_bits [OF inv] by (intro unat_add_u32) linarith
  show ?thesis
    unfolding credit_inv_def rec
  proof (intro conjI allI impI)
    fix y
    show "((credited_by_source p)(x := credited_by_source p x + c)) y \<le> entropy_budget y"
      using inv sum(1) by (simp add: credit_inv_def)
    assume "y \<notin> S"
    then show "((credited_by_source p)(x := credited_by_source p x + c)) y = 0"
      using inv x by (auto simp: credit_inv_def)
  next
    have old: "unat (credited_bits p) = unat (credited_by_source p SRC_TIMER) + unat (credited_by_source p SRC_KBD) +
        unat (credited_by_source p SRC_ATA)" using inv by (simp add: credit_inv_def)
    show "unat (credited_bits p + c) = unat (((credited_by_source p)(x := credited_by_source p x + c)) SRC_TIMER) +
        unat (((credited_by_source p)(x := credited_by_source p x + c)) SRC_KBD) +
        unat (((credited_by_source p)(x := credited_by_source p x + c)) SRC_ATA)"
      unfolding bits old by (cases x) (use sum(2) in simp_all)
  qed
qed

lemma pool_reach_credit: "pool_reach S p \<Longrightarrow> credit_inv S p"
proof (induction rule: pool_reach.induct)
  case reach_zero
  show ?case by (simp add: credit_inv_def pool_zero_def)
next
  case (reach_init p seed)
  have "credit_inv S (if seeded p then p else pool_zero\<lparr>min_delta := 0xFFFFFFFF\<rparr>)"
    using reach_init.IH by (simp add: credit_inv_def pool_zero_def)
  then show ?case by (rule credit_inv_cong [rotated 2]) (simp_all add: entropy_init_def Let_def absorb_all_credit)
next
  case (reach_event p code tsc d)
  then show ?case by (auto simp: entropy_add_event_def record_event_keeps_credit split: option.splits)
next
  case (reach_counter p n p')
  then show ?case by (auto intro: credit_inv_cong [rotated 2] simp: entropy_next_counter_def)
next
  case (reach_bytes p has_rdrand hw n q bs p')
  show ?case using bytes_credit [OF reach_bytes.hyps(2)] by (intro credit_inv_cong [OF _ _ reach_bytes.IH]) simp_all
next
  case (reach_seed p label bs)
  then show ?case by (auto intro: credit_inv_cong [rotated 2] simp: pool_absorb_bytes_def)
qed

text \<open>The extraction without RDRAND reports the quality of the pool it was given.\<close>

lemma generate_without_rdrand:
  "0 < n \<Longrightarrow> fst (generate_random_bytes False hw p n) = entropy_quality False p"
  by (simp add: generate_random_bytes_def entropy_quality_def pool_extract_def pool_drain_ring_def Let_def)

text \<open>
  Safety (C28): however many events arrive and whatever is extracted in between, no source is ever
  credited more than its lifetime budget, the total is exactly the sum over the sources (so it never
  wraps), and a pool on a machine without RDRAND that never saw a key press is never reported good,
  neither by the quality query nor by the extraction itself.
\<close>

theorem entropy_credit_bounded:
  assumes "pool_reach S p"
  shows "(\<forall>x. credited_by_source p x \<le> entropy_budget x) \<and>
    unat (credited_bits p) = unat (credited_by_source p SRC_TIMER) + unat (credited_by_source p SRC_KBD) +
      unat (credited_by_source p SRC_ATA) \<and>
    (SRC_KBD \<notin> S \<longrightarrow> 0 < n \<longrightarrow> entropy_quality False p \<noteq> ENTROPY_OK \<and>
       fst (generate_random_bytes False hw p n) \<noteq> ENTROPY_OK)"
proof -
  have inv: "credit_inv S p" by (rule pool_reach_credit [OF assms])
  have "entropy_quality False p \<noteq> ENTROPY_OK" if "SRC_KBD \<notin> S"
  proof -
    have "unat (credited_by_source p x) \<le> unat (entropy_budget x)" for x
      using inv by (simp add: credit_inv_def word_le_nat_alt)
    from this [of SRC_TIMER] this [of SRC_ATA] have "unat (credited_bits p) \<le> 64"
      using inv that by (simp add: credit_inv_def)
    then have "\<not> ENTROPY_OK_THRESHOLD \<le> credited_bits p" by (simp add: ENTROPY_OK_THRESHOLD_def word_le_nat_alt)
    then show ?thesis by (simp add: entropy_quality_def)
  qed
  then show ?thesis using inv by (simp add: credit_inv_def generate_without_rdrand)
qed

theorem entropy_credit_bounded_witness:
  "pool_reach {SRC_ATA} (entropy_add_event pool_zero 1000 2 0) \<and>
   credited_bits (entropy_add_event pool_zero 1000 2 0) = 2 \<and>
   entropy_quality False (entropy_add_event pool_zero 1000 2 0) \<noteq> ENTROPY_OK"
proof -
  have r: "pool_reach {SRC_ATA} (entropy_add_event pool_zero 1000 2 0)"
    by (rule pool_reach.reach_event [OF pool_reach.reach_zero]) (simp add: src_of_code_def)
  have "bit_length 1000 = 10" by (simp add: bit_length.simps)
  then have "credited_bits (entropy_add_event pool_zero 1000 2 0) = 2"
    by (simp add: entropy_add_event_def src_of_code_def record_event_credit(2) [OF refl] event_credit_def pool_zero_def)
  with r show ?thesis using entropy_credit_bounded [OF r, where n = 1] by simp
qed

end
