(* ===== verification/Security.thy ===== *)
theory Security
  imports Entropy
begin

text \<open>
  The security levels and the keys of \<^verbatim>\<open>kernel/security/security.c\<close>: the level that only rises, the
  key of the file system and the key of the embedded programs, and the hexadecimal form of keys and
  hashes.  The level is the number a caller passes: the system call hands it over unchecked, so
  values beyond the four names occur.
\<close>

abbreviation (input) SEC_LEVEL_CRYPTO_ENFORCED :: nat where "SEC_LEVEL_CRYPTO_ENFORCED \<equiv> 1"

abbreviation (input) SEC_LEVEL_LOCKDOWN :: nat where "SEC_LEVEL_LOCKDOWN \<equiv> 2"

abbreviation (input) SEC_LEVEL_IMMUTABLE :: nat where "SEC_LEVEL_IMMUTABLE \<equiv> 3"

record sec_state =
  sec_level :: nat
  kernel_master_key :: "u8 list"
  master_key_available :: bool
  elf_asset_key :: "u8 list"
  asset_key_available :: bool

definition sec_boot :: sec_state where
  "sec_boot = \<lparr>sec_level = SEC_LEVEL_CRYPTO_ENFORCED, kernel_master_key = replicate 32 0, master_key_available = False,
     elf_asset_key = replicate 32 0, asset_key_available = False\<rparr>"

definition crypto_fs_key_is_usable :: "sec_state \<Rightarrow> bool" where
  "crypto_fs_key_is_usable s = (if sec_level s < SEC_LEVEL_CRYPTO_ENFORCED then True else master_key_available s)"

subsection \<open>Hexadecimal\<close>

definition bytes_to_hex :: "u8 list \<Rightarrow> u8 list" where
  "bytes_to_hex bs =
     concat (map (\<lambda>b. [hex_chars ! unat (drop_bit 4 b AND 0x0F), hex_chars ! unat (b AND 0x0F)]) bs) @ [0]"

definition hex_nibble :: "u8 \<Rightarrow> u8 option" where
  "hex_nibble c =
     (if 48 \<le> c \<and> c \<le> 57 then Some (c - 48)
      else if 97 \<le> c \<and> c \<le> 102 then Some (c - 97 + 10)
      else if 65 \<le> c \<and> c \<le> 70 then Some (c - 65 + 10)
      else None)"

text \<open>
  The loop over the output positions.  Both characters of a position are read before either is
  tested; reading or writing outside the arrays is \<open>None\<close>.  The flag is the C result 0.
\<close>

fun hex_scan :: "u8 list \<Rightarrow> nat list \<Rightarrow> u8 list \<Rightarrow> (bool \<times> u8 list) option" where
  "hex_scan hex [] out = Some (True, out)"
| "hex_scan hex (i # is) out =
     (if length hex \<le> i * 2 + 1 \<or> length out \<le> i then None
      else let ch = hex ! (i * 2); cl = hex ! (i * 2 + 1) in
        if ch = 0 \<or> cl = 0 then Some (False, out)
        else case hex_nibble ch of None \<Rightarrow> Some (False, out)
             | Some hi \<Rightarrow>
                 (case hex_nibble cl of None \<Rightarrow> Some (False, out)
                  | Some lo \<Rightarrow> hex_scan hex is (out[i := push_bit 4 hi OR lo])))"

definition hex_to_bytes :: "u8 list \<Rightarrow> u8 list \<Rightarrow> nat \<Rightarrow> (bool \<times> u8 list) option" where
  "hex_to_bytes hex out out_len = hex_scan hex [0..<out_len] out"

subsection \<open>Keys and levels\<close>

text \<open>The key compiled into the image is an argument; \<open>None\<close> when the build defines none.\<close>

definition init_image_asset_key :: "u8 list option \<Rightarrow> sec_state \<Rightarrow> sec_state option" where
  "init_image_asset_key hex_key s =
     (case hex_key of
        None \<Rightarrow> Some (s\<lparr>elf_asset_key := replicate 32 0, asset_key_available := False\<rparr>)
      | Some h \<Rightarrow>
          (case hex_to_bytes h (elf_asset_key s) 32 of
             None \<Rightarrow> None
           | Some (False, _) \<Rightarrow> Some (s\<lparr>elf_asset_key := replicate 32 0, asset_key_available := False\<rparr>)
           | Some (True, key) \<Rightarrow> Some (s\<lparr>elf_asset_key := key, asset_key_available := True\<rparr>)))"

definition install_master_key :: "u8 list \<Rightarrow> sec_state \<Rightarrow> sec_state" where
  "install_master_key key s = s\<lparr>kernel_master_key := take 32 key, master_key_available := True\<rparr>"

definition set_security_level :: "nat \<Rightarrow> sec_state \<Rightarrow> sec_state" where
  "set_security_level level s =
     (if level < sec_level s then s
      else let s1 = s\<lparr>sec_level := level\<rparr>
           in if level = SEC_LEVEL_LOCKDOWN
              then s1\<lparr>kernel_master_key := replicate 32 0, master_key_available := False\<rparr>
              else s1)"

subsection \<open>What they keep\<close>

lemma hex_chars_nibble: "list_all (\<lambda>n. hex_chars ! n \<noteq> 0 \<and> hex_nibble (hex_chars ! n) = Some (of_nat n)) [0..<16]"
  by code_simp

lemma hex_nibble_digit:
  assumes "(n :: u8) < 16"
  shows "hex_chars ! unat n \<noteq> 0" "hex_nibble (hex_chars ! unat n) = Some n"
proof -
  have "unat n < 16" using assms by (simp add: word_less_nat_alt)
  then show "hex_chars ! unat n \<noteq> 0" "hex_nibble (hex_chars ! unat n) = Some n"
    using hex_chars_nibble by (simp_all add: list_all_iff)
qed

lemma nibbles:
  fixes b :: u8
  shows "drop_bit 4 b AND 0x0F < 16" "b AND 0x0F < 16" "push_bit 4 (drop_bit 4 b AND 0x0F) OR (b AND 0x0F) = b"
proof -
  have m: "(0x0F :: u8) = mask 4" by (simp add: mask_eq_exp_minus_1)
  have "x AND 0x0F < 16" for x :: u8
  proof -
    have "unat (take_bit 4 x) < 2 ^ 4" unfolding unsigned_take_bit_eq by (rule take_bit_nat_less_exp)
    then show ?thesis unfolding m take_bit_eq_mask [symmetric] by (simp add: word_less_nat_alt)
  qed
  then show "drop_bit 4 b AND 0x0F < 16" "b AND 0x0F < 16" by blast+
  show "push_bit 4 (drop_bit 4 b AND 0x0F) OR (b AND 0x0F) = b"
    unfolding m by (rule bit_word_eqI) (auto simp: bit_simps)
qed

lemma bytes_to_hex_nth:
  assumes "i < length bs"
  shows "bytes_to_hex bs ! (i * 2) = hex_chars ! unat (drop_bit 4 (bs ! i) AND 0x0F)"
    and "bytes_to_hex bs ! (i * 2 + 1) = hex_chars ! unat (bs ! i AND 0x0F)"
    and "length (bytes_to_hex bs) = 2 * length bs + 1"
proof -
  define f where "f = (\<lambda>b :: u8. [hex_chars ! unat (drop_bit 4 b AND 0x0F), hex_chars ! unat (b AND 0x0F)])"
  have len: "length (concat (map f xs)) = 2 * length xs" for xs
    by (induction xs) (simp_all add: f_def)
  have nth: "concat (map f xs) ! (k * 2) = f (xs ! k) ! 0 \<and> concat (map f xs) ! (k * 2 + 1) = f (xs ! k) ! 1"
    if "k < length xs" for xs k
    using that by (induction xs arbitrary: k) (auto simp: f_def less_Suc_eq_0_disj nth_Cons')
  show "length (bytes_to_hex bs) = 2 * length bs + 1"
    using len [of bs] by (simp add: bytes_to_hex_def f_def)
  show "bytes_to_hex bs ! (i * 2) = hex_chars ! unat (drop_bit 4 (bs ! i) AND 0x0F)"
    "bytes_to_hex bs ! (i * 2 + 1) = hex_chars ! unat (bs ! i AND 0x0F)"
    using nth [OF assms] len [of bs] assms
    unfolding bytes_to_hex_def f_def [symmetric] by (simp_all add: nth_append f_def)
qed


lemma hex_scan_back:
  assumes "length out = length bs" "i + n \<le> length bs" "\<forall>k < i. out ! k = bs ! k"
  shows "\<exists>out'. hex_scan (bytes_to_hex bs) [i..<i + n] out = Some (True, out') \<and> length out' = length bs \<and>
    (\<forall>k < i + n. out' ! k = bs ! k)"
  using assms
proof (induction n arbitrary: i out)
  case 0
  then show ?case by simp
next
  case (Suc n)
  have i: "i < length bs" using Suc.prems(2) by simp
  note at = bytes_to_hex_nth [OF i]
  have "\<forall>k < Suc i. (out[i := bs ! i]) ! k = bs ! k"
    using Suc.prems(1,3) i by (auto simp: nth_list_update less_Suc_eq)
  then obtain out' where out': "hex_scan (bytes_to_hex bs) [Suc i..<Suc i + n] (out[i := bs ! i]) = Some (True, out')"
    "length out' = length bs" "\<forall>k < Suc i + n. out' ! k = bs ! k"
    using Suc.IH [of "out[i := bs ! i]" "Suc i"] Suc.prems(1,2) by auto
  have "[i..<i + Suc n] = i # [Suc i..<Suc i + n]" by (simp add: upt_conv_Cons)
  moreover have "hex_scan (bytes_to_hex bs) (i # [Suc i..<Suc i + n]) out =
      hex_scan (bytes_to_hex bs) [Suc i..<Suc i + n] (out[i := bs ! i])"
    using i Suc.prems(1) unfolding hex_scan.simps Let_def at
      hex_nibble_digit(2) [OF nibbles(1)] hex_nibble_digit(2) [OF nibbles(2)] nibbles(3) option.case
    by (simp add: hex_nibble_digit(1) nibbles del: upt_Suc)
  ultimately show ?case using out' by simp
qed

subsection \<open>Properties\<close>

text \<open>
  Round trip (C35): reading back the hexadecimal form of any bytes succeeds and gives exactly those
  bytes, whatever the output buffer held before.
\<close>

theorem hex_round_trip:
  assumes "length out = length bs"
  shows "hex_to_bytes (bytes_to_hex bs) out (length bs) = Some (True, bs)"
proof -
  obtain out' where out': "hex_scan (bytes_to_hex bs) [0..<length bs] out = Some (True, out')"
    "length out' = length bs" "\<forall>k < length bs. out' ! k = bs ! k"
    using hex_scan_back [OF assms, of 0 "length bs"] by auto
  have "out' = bs" using out'(2,3) by (simp add: nth_equalityI)
  then show ?thesis using out'(1) by (simp add: hex_to_bytes_def)
qed

theorem hex_round_trip_witness:
  "bytes_to_hex [0xA5, 0x0F] = [97, 53, 48, 102, 0] \<and> hex_to_bytes [97, 53, 48, 102, 0] [1, 2] 2 = Some (True, [0xA5, 0x0F])"
proof -
  have h: "bytes_to_hex [0xA5, 0x0F] = [97, 53, 48, 102, 0]"
    by (simp add: bytes_to_hex_def hex_chars_def)
  have "hex_to_bytes (bytes_to_hex [0xA5, 0x0F]) [1, 2] (length [0xA5 :: u8, 0x0F]) = Some (True, [0xA5, 0x0F])"
    by (rule hex_round_trip) simp
  then show ?thesis using h by (simp add: numeral_2_eq_2)
qed

text \<open>What can happen to the keys and the level after the boot.\<close>

datatype sec_op = Set_level nat | Install_key "u8 list"

fun sec_run :: "sec_op list \<Rightarrow> sec_state \<Rightarrow> sec_state" where
  "sec_run [] s = s"
| "sec_run (Set_level l # ops) s = sec_run ops (set_security_level l s)"
| "sec_run (Install_key k # ops) s = sec_run ops (install_master_key k s)"

text \<open>
  Safety (C36): the security level never goes down, whatever the sequence of requests.  Once lockdown
  has been entered, the key is gone: its bytes are zero and no encrypted access is allowed, and no
  further change of level brings it back.  Only installing a key again, which takes the passphrase,
  does.
\<close>

theorem sec_level_rises:
  "sec_level s \<le> sec_level (sec_run ops s) \<and>
   (sec_level s \<le> SEC_LEVEL_LOCKDOWN \<and> (\<forall>k. Install_key k \<notin> set ops) \<longrightarrow>
     (let s' = sec_run (Set_level SEC_LEVEL_LOCKDOWN # ops) s
      in \<not> crypto_fs_key_is_usable s' \<and> kernel_master_key s' = replicate 32 0))"
proof -
  have up: "sec_level t \<le> sec_level (sec_run ops t)" for t
  proof (induction ops arbitrary: t)
    case (Cons op ops)
    have "sec_level t \<le> sec_level (sec_run [op] t)"
      by (cases op) (simp_all add: set_security_level_def install_master_key_def Let_def)
    moreover have "sec_run (op # ops) t = sec_run ops (sec_run [op] t)" by (cases op) simp_all
    ultimately show ?case using Cons.IH [of "sec_run [op] t"] by simp
  qed simp
  have gone: "\<not> master_key_available (sec_run ops t) \<and> kernel_master_key (sec_run ops t) = replicate 32 0"
    if "\<forall>k. Install_key k \<notin> set ops" "\<not> master_key_available t" "kernel_master_key t = replicate 32 0" for t
    using that
  proof (induction ops arbitrary: t)
    case (Cons op ops)
    then obtain l where op: "op = Set_level l" by (cases op) auto
    show ?case unfolding op sec_run.simps
      by (rule Cons.IH) (use Cons.prems in \<open>auto simp: set_security_level_def Let_def\<close>)
  qed simp
  let ?t = "set_security_level SEC_LEVEL_LOCKDOWN s"
  have "SEC_LEVEL_LOCKDOWN \<le> sec_level (sec_run ops ?t)" if "sec_level s \<le> SEC_LEVEL_LOCKDOWN"
    using up [of ?t] that by (simp add: set_security_level_def Let_def)
  moreover have "\<not> master_key_available (sec_run ops ?t) \<and> kernel_master_key (sec_run ops ?t) = replicate 32 0"
    if "sec_level s \<le> SEC_LEVEL_LOCKDOWN" "\<forall>k. Install_key k \<notin> set ops"
    by (rule gone) (use that in \<open>simp_all add: set_security_level_def Let_def\<close>)
  ultimately show ?thesis using up [of s] by (auto simp: Let_def crypto_fs_key_is_usable_def)
qed

theorem sec_level_rises_witness:
  "crypto_fs_key_is_usable (install_master_key [7] sec_boot) \<and>
   \<not> crypto_fs_key_is_usable (sec_run [Set_level SEC_LEVEL_LOCKDOWN, Set_level SEC_LEVEL_IMMUTABLE] (install_master_key [7] sec_boot))"
  using sec_level_rises [of "install_master_key [7] sec_boot" "[Set_level SEC_LEVEL_IMMUTABLE]"]
  by (simp add: sec_boot_def install_master_key_def crypto_fs_key_is_usable_def Let_def)

end
