(* ===== verification/Vfs.thy ===== *)
theory Vfs
  imports Bcache Dirtab Security
begin

text \<open>
  The file system of \<^verbatim>\<open>fs/vfs.c\<close> over the block cache: sectors named from the start of the
  partition, the two tables written through to the disk, and the operations on files and
  directories in their unencrypted form.  \<open>fs_state\<close> is the file's globals with the cache below it.
  \<open>fs_env\<close> is what one operation reads and does not change: the devices and which of them is the
  root, the timer, the clock, the caller's ids, the security level, and two pieces of memory whose
  contents the code does not control: what lies behind the allocation table on the heap, and what a
  sector buffer on the stack holds before it is filled.  The locks are not modelled: the kernel is
  not preemptible and the code says so.  A result \<open>None\<close> is behaviour C leaves undefined.
\<close>

record disk_superblock_t =
  magic :: u32
  format_version :: u16
  sb_sector_size :: u16
  total_sectors :: u32
  dir_start :: u32
  dir_sectors :: u32
  max_entries :: u32
  entry_size :: u16
  cluster_sectors :: u16
  fat_start :: u32
  data_start :: u32
  total_clusters :: u32
  sb_flags :: u32
  keyslot :: "u8 list"

record 'w fs_state =
  dir_table :: dir_tab
  file_allocation_table :: "u32 list"
  fs_super :: disk_superblock_t
  fs_mounted :: bool
  fs_was_formatted :: bool
  fs_part_start :: u32
  fs_max_sectors :: u32
  fs_total_clusters :: u32
  disk :: "'w bcache"

record 'w fs_env =
  devs :: "'w dev_store"
  root :: dev_ptr
  ticks :: u32
  now :: u32
  cur_uid :: u32
  cur_gid :: u32
  current_sec_level :: nat
  heap_after_fat :: "u8 list"
  stack_junk :: "u8 list"

abbreviation FS_MODE_DEFAULT_FILE :: u16 where "FS_MODE_DEFAULT_FILE \<equiv> 0x1A4"

abbreviation FS_MODE_DEFAULT_DIR :: u16 where "FS_MODE_DEFAULT_DIR \<equiv> 0x1ED"

subsection \<open>Sectors of the partition\<close>

definition fs_read_sector :: "'w fs_env \<Rightarrow> 'w fs_state \<Rightarrow> u32 \<Rightarrow> u8 list \<Rightarrow> status \<times> u8 list \<times> 'w fs_state" where
  "fs_read_sector E s rel buf =
     (case bcache_read_sector (devs E) (disk s) (root E) (fs_part_start s + rel) (Some buf) of
        (st, b, d) \<Rightarrow> (st, the b, s\<lparr>disk := d\<rparr>))"

definition fs_write_sector :: "'w fs_env \<Rightarrow> 'w fs_state \<Rightarrow> u32 \<Rightarrow> u8 list \<Rightarrow> status \<times> 'w fs_state" where
  "fs_write_sector E s rel buf =
     (case bcache_write_sector (devs E) (ticks E) (disk s) (root E) (fs_part_start s + rel) (Some buf) of
        (st, d) \<Rightarrow> (st, s\<lparr>disk := d\<rparr>))"

definition fs_cluster_to_sector :: "'w fs_state \<Rightarrow> u32 \<Rightarrow> u32" where
  "fs_cluster_to_sector s c = data_start (fs_super s) + c * ucast (cluster_sectors (fs_super s))"

text \<open>
  Sector \<open>i\<close> of the allocation table as it is written: 512 bytes from the table's own memory, so the
  last one takes in what the heap holds behind the table.
\<close>

definition fat_sector :: "'w fs_env \<Rightarrow> u32 list \<Rightarrow> nat \<Rightarrow> u8 list" where
  "fat_sector E fat i = take 512 (drop (i * 512) (concat (map le32 fat) @ heap_after_fat E))"

definition save_fat_to_disk :: "'w fs_env \<Rightarrow> 'w fs_state \<Rightarrow> 'w fs_state" where
  "save_fat_to_disk E s =
     fold (\<lambda>i t. snd (fs_write_sector E t (fat_start (fs_super s) + of_nat i)
                        (fat_sector E (file_allocation_table s) i)))
       [0..<unat ((fs_total_clusters s * 4 + 511) div 512)] s"

definition save_directory_to_disk :: "'w fs_env \<Rightarrow> 'w fs_state \<Rightarrow> 'w fs_state" where
  "save_directory_to_disk E s =
     fold (\<lambda>i t. snd (fs_write_sector E t (dir_start (fs_super s) + of_nat i) (dir_sector (dir_table s) i)))
       [0..<dir_sectors_needed (dir_table s)] s"

definition fs_allocate :: "'w fs_env \<Rightarrow> 'w fs_state \<Rightarrow> u32 \<Rightarrow> (u32 \<times> 'w fs_state) option" where
  "fs_allocate E s want =
     (case allocate_fat_chain (file_allocation_table s) (fs_total_clusters s) want of
        None \<Rightarrow> None
      | Some (c, fat) \<Rightarrow>
          let s1 = s\<lparr>file_allocation_table := fat\<rparr> in
          Some (c, if want = 0 \<or> c = FAT_FREE then s1 else save_fat_to_disk E s1))"

subsection \<open>Creating a file\<close>

definition sector_chunk :: "u8 list \<Rightarrow> nat \<Rightarrow> u8 list" where
  "sector_chunk content bw =
     (let chunk = take 512 (drop bw content) in chunk @ replicate (512 - length chunk) 0)"

text \<open>The sectors of one cluster, from sector \<open>k\<close> of it on.\<close>

fun write_cluster :: "'w fs_env \<Rightarrow> u32 \<Rightarrow> u8 list \<Rightarrow> nat list \<Rightarrow> nat \<Rightarrow> 'w fs_state \<Rightarrow> nat \<times> 'w fs_state" where
  "write_cluster E base content [] bw s = (bw, s)"
| "write_cluster E base content (k # ks) bw s =
     write_cluster E base content ks (bw + length (take 512 (drop bw content)))
       (snd (fs_write_sector E s (base + of_nat k) (sector_chunk content bw)))"

fun write_clusters :: "'w fs_env \<Rightarrow> u8 list \<Rightarrow> nat \<Rightarrow> u32 \<Rightarrow> nat \<Rightarrow> 'w fs_state \<Rightarrow> 'w fs_state" where
  "write_clusters E content 0 c bw s = s"
| "write_clusters E content (Suc n) c bw s =
     (if c = FAT_EOF \<or> fs_total_clusters s \<le> c then s
      else case write_cluster E (fs_cluster_to_sector s c) content
                  [0..<unat (cluster_sectors (fs_super s))] bw s of
             (bw', s') \<Rightarrow> write_clusters E content n (file_allocation_table s' ! unat c) bw' s')"

definition new_entry :: "'w fs_env \<Rightarrow> disk_file_entry_t \<Rightarrow> u8 list \<Rightarrow> u32 \<Rightarrow> u32 \<Rightarrow> nat \<Rightarrow> u16 \<Rightarrow> u8 \<Rightarrow> u16 \<Rightarrow>
  disk_file_entry_t" where
  "new_entry E old nm sz c i p ty md =
     old\<lparr>filename := safe_strcpy (replicate MAX_FILENAME 0) nm MAX_FILENAME,
         file_size := sz, start_cluster := c, is_used := 1, file_type := ty, entry_id := of_nat i, parent_id := p,
         owner_uid := cur_uid E, owner_gid := cur_gid E, mode := md, ctime := now E, mtime := now E\<rparr>"

definition cluster_bytes :: "'w fs_state \<Rightarrow> u32" where
  "cluster_bytes s = 512 * ucast (cluster_sectors (fs_super s))"

definition fs_create_file_raw :: "'w fs_env \<Rightarrow> 'w fs_state \<Rightarrow> u8 list \<Rightarrow> u8 list \<Rightarrow> u32 \<Rightarrow> u16 \<Rightarrow>
  (status \<times> 'w fs_state) option" where
  "fs_create_file_raw E s nm content sz p =
     (if \<not> fs_mounted s then Some (Some E_NODEV, s)
      else if MAX_FILENAME \<le> length (cstr nm) then Some (Some E_INVAL, s)
      else if \<not> fs_dir_exists (dir_table s) p then Some (Some E_NOENT, s)
      else if fs_get_entry_idx (dir_table s) nm p \<noteq> None then Some (Some E_EXIST, s)
      else case free_slot (dir_table s) of
             None \<Rightarrow> Some (Some E_NFILE, s)
           | Some i \<Rightarrow>
               if cluster_bytes s = 0 \<and> sz \<noteq> 0 then None
               else let need = (if sz = 0 then 1 else (sz + cluster_bytes s - 1) div cluster_bytes s) in
                 (case fs_allocate E s need of
                    None \<Rightarrow> None
                  | Some (c, s1) \<Rightarrow>
                      if c = FAT_FREE then Some (Some E_NOSPC, s1)
                      else let s2 = write_clusters E (take (unat sz) content) (unat need) c 0 s1;
                               s3 = s2\<lparr>dir_table := (dir_table s2)
                                  [i := new_entry E (dir_table s2 ! i) nm sz c i p FT_REGULAR FS_MODE_DEFAULT_FILE]\<rparr>
                           in Some (None, save_directory_to_disk E s3)))"

definition fs_mkdir :: "'w fs_env \<Rightarrow> 'w fs_state \<Rightarrow> u8 list \<Rightarrow> u16 \<Rightarrow> status \<times> 'w fs_state" where
  "fs_mkdir E s nm p =
     (if \<not> fs_mounted s then (Some E_NODEV, s)
      else if SEC_LEVEL_IMMUTABLE \<le> current_sec_level E then (Some E_ROFS, s)
      else if MAX_FILENAME \<le> length (cstr nm) then (Some E_INVAL, s)
      else if \<not> fs_dir_exists (dir_table s) p then (Some E_NOENT, s)
      else if fs_get_entry_idx (dir_table s) nm p \<noteq> None then (Some E_EXIST, s)
      else case free_slot (dir_table s) of
             None \<Rightarrow> (Some E_NFILE, s)
           | Some i \<Rightarrow>
               (None, save_directory_to_disk E (s\<lparr>dir_table := (dir_table s)
                  [i := new_entry E (dir_table s ! i) nm 0 0 i p FT_DIR FS_MODE_DEFAULT_DIR]\<rparr>)))"

subsection \<open>Opening and reading\<close>

record vfs_file_t =
  vf_name :: "u8 list"
  vf_size :: u32
  current_offset :: u32
  vf_cluster :: u32
  ref_count :: int
  inode_idx :: nat
  write_buf :: "u8 list option"
  write_len :: u32
  write_cap :: u32
  vf_dirty :: bool

definition fs_open :: "'w fs_state \<Rightarrow> u8 list \<Rightarrow> u16 \<Rightarrow> errno + vfs_file_t" where
  "fs_open s nm p =
     (if \<not> fs_mounted s then Inl E_NODEV
      else case find_used1 (dir_table s) nm p of
             None \<Rightarrow> Inl E_NOENT
           | Some i \<Rightarrow>
               Inr \<lparr>vf_name = take (MAX_FILENAME - 1) (cstr (filename (dir_table s ! i))),
                    vf_size = file_size (dir_table s ! i), current_offset = 0,
                    vf_cluster = start_cluster (dir_table s ! i), ref_count = 1, inode_idx = i,
                    write_buf = None, write_len = 0, write_cap = 0, vf_dirty = False\<rparr>)"

text \<open>The clusters before the offset; \<open>None\<close> is the early return of 0 for a chain that ends first.\<close>

fun skip_clusters :: "u32 list \<Rightarrow> u32 \<Rightarrow> nat \<Rightarrow> u32 \<Rightarrow> u32 option" where
  "skip_clusters fat tot 0 c = Some c"
| "skip_clusters fat tot (Suc n) c =
     (if c = FAT_EOF \<or> tot \<le> c then None else skip_clusters fat tot n (fat ! unat c))"

text \<open>The copy loop inside one cluster: bytes still wanted, offset in the cluster, bytes so far.\<close>

function read_in_cluster :: "'w fs_env \<Rightarrow> u32 \<Rightarrow> nat \<Rightarrow> nat \<Rightarrow> nat \<Rightarrow> u8 list \<Rightarrow> 'w fs_state \<Rightarrow> nat \<times> u8 list \<times> 'w fs_state" where
  "read_in_cluster E base cb want off acc s =
     (if off < cb \<and> 0 < want
      then (case fs_read_sector E s (base + of_nat (off div 512)) (stack_junk E) of
              (st, buf, s') \<Rightarrow>
                let n = min (512 - off mod 512) want
                in read_in_cluster E base cb (want - n) (off + n) (acc @ take n (drop (off mod 512) buf)) s')
      else (want, acc, s))"
  by auto
termination
proof (relation "measure (\<lambda>(E, base, cb, want, off, acc, s). want)")
  fix E :: "'w fs_env" and base :: u32 and cb want off n :: nat and acc buf and s s' :: "'w fs_state"
  assume "off < cb \<and> 0 < want" and n: "n = min (512 - off mod 512) want"
  moreover have "off mod 512 < 512" by simp
  ultimately have "0 < n" "n \<le> want" by linarith+
  then show "((E, base, cb, want - n, off + n, acc @ take n (drop (off mod 512) buf), s'), E, base, cb, want, off, acc, s) \<in>
      measure (\<lambda>(E, base, cb, want, off, acc, s). want)" by simp
qed simp

declare read_in_cluster.simps [simp del]

lemma read_in_cluster_want:
  "read_in_cluster E base cb want off acc s = (want', acc', s') \<Longrightarrow>
   want' \<le> want \<and> (off < cb \<and> 0 < want \<longrightarrow> want' < want)"
proof (induction E base cb want off acc s rule: read_in_cluster.induct)
  case (1 E base cb want off acc s)
  show ?case
  proof (cases "off < cb \<and> 0 < want")
    case True
    let ?n = "min (512 - off mod 512) want"
    obtain st buf t where r: "fs_read_sector E s (base + of_nat (off div 512)) (stack_junk E) = (st, buf, t)"
      by (metis prod_cases3)
    have "read_in_cluster E base cb (want - ?n) (off + ?n) (acc @ take ?n (drop (off mod 512) buf)) t = (want', acc', s')"
      using "1.prems" True r by (subst (asm) read_in_cluster.simps) (simp add: Let_def)
    from "1.IH" [OF True r [symmetric] refl refl this] have "want' \<le> want - ?n" by simp
    moreover have "off mod 512 < 512" by simp
    ultimately show ?thesis using True by linarith
  next
    case False
    then show ?thesis using "1.prems" by (subst (asm) read_in_cluster.simps) auto
  qed
qed

text \<open>
  The walk along the chain.  The offset in a cluster is always below the cluster's size, which the
  first test only repeats; it is what makes every turn read something.
\<close>

function read_clusters :: "'w fs_env \<Rightarrow> nat \<Rightarrow> nat \<Rightarrow> u32 \<Rightarrow> nat \<Rightarrow> u8 list \<Rightarrow> 'w fs_state \<Rightarrow> u8 list \<times> 'w fs_state" where
  "read_clusters E cb want c off acc s =
     (if cb \<le> off then (acc, s)
      else if 0 < want \<and> c \<noteq> FAT_EOF
      then (if fs_total_clusters s \<le> c then (acc, s)
            else case read_in_cluster E (fs_cluster_to_sector s c) cb want off acc s of
                   (want', acc', s') \<Rightarrow> read_clusters E cb want' (file_allocation_table s' ! unat c) 0 acc' s')
      else (acc, s))"
  by auto
termination
proof (relation "measure (\<lambda>(E, cb, want, c, off, acc, s). want)")
  fix E :: "'w fs_env" and cb want want' off :: nat and c :: u32 and acc acc' and s s' :: "'w fs_state" and x y
  assume "\<not> cb \<le> off" "0 < want \<and> c \<noteq> FAT_EOF" "(want', y) = read_in_cluster E (fs_cluster_to_sector s c) cb want off acc s"
    "(acc', s') = y"
  then show "((E, cb, want', file_allocation_table s' ! unat c, 0, acc', s'), E, cb, want, c, off, acc, s) \<in>
      measure (\<lambda>(E, cb, want, c, off, acc, s). want)"
    using read_in_cluster_want [of E "fs_cluster_to_sector s c" cb want off acc s want' acc' s'] by simp
qed simp

declare read_clusters.simps [simp del]

text \<open>The bytes read, the file with its offset moved, and the state; \<open>None\<close> is a division by zero.\<close>

definition fs_read_raw :: "'w fs_env \<Rightarrow> 'w fs_state \<Rightarrow> vfs_file_t \<Rightarrow> u32 \<Rightarrow> (u8 list \<times> vfs_file_t \<times> 'w fs_state) option" where
  "fs_read_raw E s f sz =
     (if vf_size f \<le> current_offset f then Some ([], f, s)
      else let sz1 = (if vf_size f < current_offset f + sz then vf_size f - current_offset f else sz) in
        if cluster_bytes s = 0 then None
        else case skip_clusters (file_allocation_table s) (fs_total_clusters s)
                    (unat (current_offset f div cluster_bytes s)) (vf_cluster f) of
               None \<Rightarrow> Some ([], f, s)
             | Some c \<Rightarrow>
                 (case read_clusters E (unat (cluster_bytes s)) (unat sz1) c
                         (unat (current_offset f mod cluster_bytes s)) [] s of
                    (bs, s') \<Rightarrow> Some (bs, f\<lparr>current_offset := current_offset f + of_nat (length bs)\<rparr>, s')))"

subsection \<open>Changing entries\<close>

definition has_child :: "dir_tab \<Rightarrow> nat \<Rightarrow> bool" where
  "has_child tab i \<longleftrightarrow>
     find (\<lambda>c. is_used (tab ! c) = 1 \<and> parent_id (tab ! c) = entry_id (tab ! i)) [0..<length tab] \<noteq> None"

definition fs_delete :: "'w fs_env \<Rightarrow> 'w fs_state \<Rightarrow> u8 list \<Rightarrow> u16 \<Rightarrow> status \<times> 'w fs_state" where
  "fs_delete E s nm p =
     (if \<not> fs_mounted s then (Some E_NODEV, s)
      else if SEC_LEVEL_IMMUTABLE \<le> current_sec_level E then (Some E_ROFS, s)
      else case find_used1 (dir_table s) nm p of
             None \<Rightarrow> (Some E_NOENT, s)
           | Some i \<Rightarrow>
               if file_type (dir_table s ! i) = FT_DIR \<and> has_child (dir_table s) i then (Some E_NOTEMPTY, s)
               else let s1 = save_fat_to_disk E (s\<lparr>file_allocation_table :=
                                free_chain (file_allocation_table s) (fs_total_clusters s)
                                  (start_cluster (dir_table s ! i))\<rparr>)
                    in (None, save_directory_to_disk E (s1\<lparr>dir_table := (dir_table s1)
                          [i := (dir_table s1 ! i)\<lparr>is_used := 0, filename := replicate MAX_FILENAME 0\<rparr>]\<rparr>)))"

definition fs_rename :: "'w fs_env \<Rightarrow> 'w fs_state \<Rightarrow> u8 list \<Rightarrow> u8 list \<Rightarrow> u16 \<Rightarrow> status \<times> 'w fs_state" where
  "fs_rename E s old_nm new_nm p =
     (if \<not> fs_mounted s then (Some E_NODEV, s)
      else if MAX_FILENAME \<le> length (cstr new_nm) then (Some E_INVAL, s)
      else if SEC_LEVEL_IMMUTABLE \<le> current_sec_level E then (Some E_ROFS, s)
      else if find_used1 (dir_table s) new_nm p \<noteq> None then (Some E_EXIST, s)
      else case find_used1 (dir_table s) old_nm p of
             None \<Rightarrow> (Some E_NOENT, s)
           | Some i \<Rightarrow>
               (None, save_directory_to_disk E (s\<lparr>dir_table := (dir_table s)
                  [i := (dir_table s ! i)\<lparr>filename := safe_strcpy (replicate MAX_FILENAME 0) new_nm MAX_FILENAME,
                                          ctime := now E\<rparr>]\<rparr>)))"

definition fs_chmod :: "'w fs_env \<Rightarrow> 'w fs_state \<Rightarrow> u16 \<Rightarrow> u16 \<Rightarrow> status \<times> 'w fs_state" where
  "fs_chmod E s e md =
     (if \<not> fs_mounted s then (Some E_NODEV, s)
      else if SEC_LEVEL_IMMUTABLE \<le> current_sec_level E then (Some E_ROFS, s)
      else case fs_slot_of (dir_table s) e of
             None \<Rightarrow> (Some E_NOENT, s)
           | Some i \<Rightarrow>
               (None, save_directory_to_disk E (s\<lparr>dir_table := (dir_table s)
                  [i := (dir_table s ! i)\<lparr>mode := md AND FS_MODE_PERM_MASK, ctime := now E\<rparr>]\<rparr>)))"

definition fs_chown :: "'w fs_env \<Rightarrow> 'w fs_state \<Rightarrow> u16 \<Rightarrow> u32 \<Rightarrow> u32 \<Rightarrow> status \<times> 'w fs_state" where
  "fs_chown E s e u g =
     (if \<not> fs_mounted s then (Some E_NODEV, s)
      else if SEC_LEVEL_IMMUTABLE \<le> current_sec_level E then (Some E_ROFS, s)
      else case fs_slot_of (dir_table s) e of
             None \<Rightarrow> (Some E_NOENT, s)
           | Some i \<Rightarrow>
               (None, save_directory_to_disk E (s\<lparr>dir_table := (dir_table s)
                  [i := (dir_table s ! i)\<lparr>owner_uid := u, owner_gid := g, ctime := now E\<rparr>]\<rparr>)))"

end
