(* ===== verification/Fsdisk.thy ===== *)
theory Fsdisk
  imports Vfs
begin

text \<open>
  What the partition holds while the file system works on it, on devices that do not fail.  Every
  operation's effect on the disk is a list of sector writes; \<open>fview\<close> is the partition as a map from
  sectors to their contents, through the cache.
\<close>

definition fs_ok :: "'w fs_env \<Rightarrow> ('w \<Rightarrow> dev_ptr \<Rightarrow> u32 \<Rightarrow> u8 list) \<Rightarrow> 'w fs_state \<Rightarrow> bool" where
  "fs_ok E plat s \<longleftrightarrow> driver_ok (devs E) plat \<and> healthy (devs E) \<and> bcache_inv plat (disk s) \<and>
     dirty_ok (devs E) (disk s) \<and> root E \<noteq> 0 \<and> sector_size (devs E (root E)) = 512 \<and>
     dev_read (devs E (root E)) \<noteq> None \<and> dev_write (devs E (root E)) \<noteq> None \<and>
     unat (fs_part_start s) + unat (fs_max_sectors s) \<le> unat (sector_count (devs E (root E)))"

definition fview :: "'w fs_env \<Rightarrow> ('w \<Rightarrow> dev_ptr \<Rightarrow> u32 \<Rightarrow> u8 list) \<Rightarrow> 'w fs_state \<Rightarrow> u32 \<Rightarrow> u8 list" where
  "fview E plat s r = view plat (disk s) (root E) (fs_part_start s + r)"

lemma fs_ok_disk:
  "fs_ok E plat (s\<lparr>disk := d\<rparr>) \<longleftrightarrow> driver_ok (devs E) plat \<and> healthy (devs E) \<and> bcache_inv plat d \<and>
     dirty_ok (devs E) d \<and> root E \<noteq> 0 \<and> sector_size (devs E (root E)) = 512 \<and>
     dev_read (devs E (root E)) \<noteq> None \<and> dev_write (devs E (root E)) \<noteq> None \<and>
     unat (fs_part_start s) + unat (fs_max_sectors s) \<le> unat (sector_count (devs E (root E)))"
  by (simp add: fs_ok_def)

lemma in_range:
  assumes "fs_ok E plat s" "r < fs_max_sectors s"
  shows "blockdev_check (devs E) (root E) (fs_part_start s + r) = None"
proof -
  have "unat r < unat (fs_max_sectors s)" using assms(2) by (simp add: word_less_nat_alt)
  then have lt: "unat (fs_part_start s) + unat r < unat (sector_count (devs E (root E)))"
    using assms(1) by (simp add: fs_ok_def)
  then have "unat (fs_part_start s + r) = unat (fs_part_start s) + unat r"
    using unat_u32_less [of "sector_count (devs E (root E))"] by (intro unat_add_u32) simp
  then show ?thesis using lt assms(1) by (simp add: blockdev_check_def fs_ok_def word_le_nat_alt)
qed

lemma fs_write_ok:
  assumes ok: "fs_ok E plat s" and r: "r < fs_max_sectors s"
  obtains d where "fs_write_sector E s r b = (None, s\<lparr>disk := d\<rparr>)" "fs_ok E plat (s\<lparr>disk := d\<rparr>)"
    "fview E plat (s\<lparr>disk := d\<rparr>) = (fview E plat s)(r := b)"
proof -
  let ?l = "fs_part_start s + r"
  obtain st d where w: "bcache_write_sector (devs E) (ticks E) (disk s) (root E) ?l (Some b) = (st, d)" by fastforce
  have c: "bcache_inv plat (disk s)" "driver_ok (devs E) plat" "healthy (devs E)" "dirty_ok (devs E) (disk s)"
    "sector_size (devs E (root E)) = 512" using ok by (auto simp: fs_ok_def)
  have "blockdev_check_write (devs E) (root E) ?l (Some b) = None"
    using in_range [OF ok r] ok by (simp add: blockdev_check_write_def fs_ok_def)
  note h = bcache_write_healthy [OF c(1-4) this c(5) w]
  note sp = bcache_write_spec [OF c(1,2) w]
  have fv: "fview E plat (s\<lparr>disk := d\<rparr>) = (fview E plat s)(r := b)"
    using sp h(1) by (auto simp: fview_def fun_eq_iff)
  have "fs_ok E plat (s\<lparr>disk := d\<rparr>)" using ok sp h by (simp add: fs_ok_def)
  then show ?thesis using that [of d] w h(1) fv by (simp add: fs_write_sector_def)
qed

lemma fs_read_ok:
  assumes ok: "fs_ok E plat s" and r: "r < fs_max_sectors s"
  obtains d where "fs_read_sector E s r j = (None, fview E plat s r, s\<lparr>disk := d\<rparr>)" "fs_ok E plat (s\<lparr>disk := d\<rparr>)"
    "fview E plat (s\<lparr>disk := d\<rparr>) = fview E plat s"
proof -
  let ?l = "fs_part_start s + r"
  obtain st b d where w: "bcache_read_sector (devs E) (disk s) (root E) ?l (Some j) = (st, b, d)" by (metis prod_cases3)
  have c: "bcache_inv plat (disk s)" "driver_ok (devs E) plat" "healthy (devs E)" "dirty_ok (devs E) (disk s)"
    "sector_size (devs E (root E)) = 512" using ok by (auto simp: fs_ok_def)
  have "blockdev_check_read (devs E) (root E) ?l (Some j) = None"
    using in_range [OF ok r] ok by (simp add: blockdev_check_read_def fs_ok_def)
  note h = bcache_read_healthy [OF c(1-4) this c(5) w]
  note sp = bcache_read_spec [OF c(1,2) w]
  have fv: "fview E plat (s\<lparr>disk := d\<rparr>) = fview E plat s" using sp by (simp add: fview_def fun_eq_iff)
  have "fs_ok E plat (s\<lparr>disk := d\<rparr>)" using ok sp h by (simp add: fs_ok_def)
  then show ?thesis using that [of d] w h(1) fv sp by (simp add: fs_read_sector_def fview_def)
qed

subsection \<open>Lists of writes\<close>

definition do_writes :: "'w fs_env \<Rightarrow> (u32 \<times> u8 list) list \<Rightarrow> 'w fs_state \<Rightarrow> 'w fs_state" where
  "do_writes E ws s = fold (\<lambda>(r, b) t. snd (fs_write_sector E t r b)) ws s"

definition apply_writes :: "(u32 \<times> u8 list) list \<Rightarrow> (u32 \<Rightarrow> u8 list) \<Rightarrow> u32 \<Rightarrow> u8 list" where
  "apply_writes ws f = fold (\<lambda>(r, b) g. g(r := b)) ws f"

lemma apply_writes_other: "r \<notin> fst ` set ws \<Longrightarrow> apply_writes ws f r = f r"
  by (induction ws arbitrary: f) (auto simp: apply_writes_def)

lemma apply_writes_in:
  assumes "distinct (map fst ws)" "(r, b) \<in> set ws"
  shows "apply_writes ws f r = b"
  using assms
proof (induction ws arbitrary: f)
  case (Cons x ws)
  obtain r' b' where x: "x = (r', b')" by fastforce
  show ?case
  proof (cases "(r, b) = (r', b')")
    case True
    then have "r \<notin> fst ` set ws" using Cons.prems(1) x by auto
    then show ?thesis using True x apply_writes_other [of r ws "f(r' := b')"] by (simp add: apply_writes_def)
  next
    case False
    then have "(r, b) \<in> set ws" using Cons.prems(2) x by auto
    then have "apply_writes ws (f(r' := b')) r = b" using Cons.IH Cons.prems(1) by simp
    then show ?thesis using x by (simp add: apply_writes_def)
  qed
qed simp

lemma do_writes_ok:
  assumes "fs_ok E plat s" "\<forall>(r, b) \<in> set ws. r < fs_max_sectors s"
  shows "\<exists>d. do_writes E ws s = s\<lparr>disk := d\<rparr> \<and> fs_ok E plat (s\<lparr>disk := d\<rparr>) \<and>
    fview E plat (s\<lparr>disk := d\<rparr>) = apply_writes ws (fview E plat s)"
  using assms
proof (induction ws arbitrary: s)
  case Nil
  then show ?case by (intro exI [of _ "disk s"]) (simp add: do_writes_def apply_writes_def)
next
  case (Cons x ws)
  obtain r b where x: "x = (r, b)" by fastforce
  have "r < fs_max_sectors s" using Cons.prems(2) x by auto
  from fs_write_ok [OF Cons.prems(1) this, of b] obtain d1 where
    d1: "fs_write_sector E s r b = (None, s\<lparr>disk := d1\<rparr>)" "fs_ok E plat (s\<lparr>disk := d1\<rparr>)"
    "fview E plat (s\<lparr>disk := d1\<rparr>) = (fview E plat s)(r := b)" by blast
  have "\<forall>(r, b) \<in> set ws. r < fs_max_sectors (s\<lparr>disk := d1\<rparr>)" using Cons.prems(2) by auto
  from Cons.IH [OF d1(2) this] obtain d where
    d: "do_writes E ws (s\<lparr>disk := d1\<rparr>) = s\<lparr>disk := d\<rparr>" "fs_ok E plat (s\<lparr>disk := d\<rparr>)"
    "fview E plat (s\<lparr>disk := d\<rparr>) = apply_writes ws (fview E plat (s\<lparr>disk := d1\<rparr>))" by auto
  have "apply_writes (x # ws) (fview E plat s) = apply_writes ws ((fview E plat s)(r := b))"
    by (simp add: apply_writes_def x)
  then show ?case using x d1(1) d unfolding d1(3) by (intro exI [of _ d]) (simp add: do_writes_def)
qed

lemma do_writes_append: "do_writes E (ws @ vs) s = do_writes E vs (do_writes E ws s)"
  by (simp add: do_writes_def)

definition fat_writes :: "'w fs_env \<Rightarrow> 'w fs_state \<Rightarrow> (u32 \<times> u8 list) list" where
  "fat_writes E s = map (\<lambda>i. (fat_start (fs_super s) + of_nat i, fat_sector E (file_allocation_table s) i))
     [0..<unat ((fs_total_clusters s * 4 + 511) div 512)]"

definition dir_writes :: "'w fs_state \<Rightarrow> (u32 \<times> u8 list) list" where
  "dir_writes s = map (\<lambda>i. (dir_start (fs_super s) + of_nat i, dir_sector (dir_table s) i))
     [0..<dir_sectors_needed (dir_table s)]"

lemma save_fat_writes: "save_fat_to_disk E s = do_writes E (fat_writes E s) s"
  by (simp add: save_fat_to_disk_def do_writes_def fat_writes_def fold_map o_def)

lemma save_dir_writes: "save_directory_to_disk E s = do_writes E (dir_writes s) s"
  by (simp add: save_directory_to_disk_def do_writes_def dir_writes_def fold_map o_def)

lemma do_writes_frame: "\<exists>d. do_writes E ws s = s\<lparr>disk := d\<rparr>"
proof (induction ws arbitrary: s)
  case Nil
  show ?case by (rule exI [of _ "disk s"]) (simp add: do_writes_def)
next
  case (Cons x ws)
  obtain r b where x: "x = (r, b)" by fastforce
  obtain d1 where "snd (fs_write_sector E s r b) = s\<lparr>disk := d1\<rparr>"
    unfolding fs_write_sector_def case_prod_beta snd_conv by blast
  then have "do_writes E (x # ws) s = do_writes E ws (s\<lparr>disk := d1\<rparr>)" by (simp add: do_writes_def x)
  then show ?case using Cons.IH [of "s\<lparr>disk := d1\<rparr>"] by auto
qed

lemma do_writes_fields [simp]:
  "dir_table (do_writes E ws s) = dir_table s" "file_allocation_table (do_writes E ws s) = file_allocation_table s"
  "fs_super (do_writes E ws s) = fs_super s" "fs_mounted (do_writes E ws s) = fs_mounted s"
  "fs_part_start (do_writes E ws s) = fs_part_start s" "fs_max_sectors (do_writes E ws s) = fs_max_sectors s"
  "fs_total_clusters (do_writes E ws s) = fs_total_clusters s"
  using do_writes_frame [of E ws s] by auto

lemma do_writes_view:
  assumes "fs_ok E plat s" "\<forall>(r, b) \<in> set ws. r < fs_max_sectors s"
  shows "fs_ok E plat (do_writes E ws s)" "fview E plat (do_writes E ws s) = apply_writes ws (fview E plat s)"
  using do_writes_ok [OF assms] by auto

lemma apply_writes_append: "apply_writes (ws @ vs) f = apply_writes vs (apply_writes ws f)"
  by (simp add: apply_writes_def)

subsection \<open>Where things lie\<close>

abbreviation csecs :: "'w fs_state \<Rightarrow> nat" where
  "csecs s \<equiv> unat (cluster_sectors (fs_super s))"

definition fat_sectors_needed :: "'w fs_state \<Rightarrow> nat" where
  "fat_sectors_needed s = (unat (fs_total_clusters s) * 4 + 511) div 512"

definition geom_ok :: "'w fs_state \<Rightarrow> bool" where
  "geom_ok s \<longleftrightarrow> 0 < csecs s \<and> length (file_allocation_table s) = unat (fs_total_clusters s) \<and>
     unat (fs_total_clusters s) \<le> FS_MAX_CLUSTERS_CAP \<and> length (dir_table s) \<le> 8192 \<and>
     unat (dir_start (fs_super s)) + dir_sectors_needed (dir_table s) \<le> unat (fat_start (fs_super s)) \<and>
     unat (fat_start (fs_super s)) + fat_sectors_needed s \<le> unat (data_start (fs_super s)) \<and>
     unat (data_start (fs_super s)) + unat (fs_total_clusters s) * csecs s \<le> unat (fs_max_sectors s)"

lemma geom_ok_disk [simp]: "geom_ok (s\<lparr>disk := d\<rparr>) = geom_ok s"
  by (simp add: geom_ok_def fat_sectors_needed_def)

lemma unat_add_below:
  assumes "unat (a :: u32) + k \<le> unat (m :: u32)"
  shows "unat (a + of_nat k) = unat a + k"
proof -
  have k: "unat (of_nat k :: u32) = k" using assms unat_u32_less [of m] by (simp add: unat_of_nat)
  then show ?thesis using assms unat_u32_less [of m] by (subst unat_add_u32) simp_all
qed

definition dsec :: "'w fs_state \<Rightarrow> u32 \<Rightarrow> nat \<Rightarrow> u32" where
  "dsec s c k = fs_cluster_to_sector s c + of_nat k"

lemma mul_add_less:
  assumes "(c :: nat) < t" "k < n"
  shows "c * n + k < t * n"
proof -
  have "c * n + k < Suc c * n" using assms(2) by simp
  also have "\<dots> \<le> t * n" using assms(1) by (intro mult_le_mono1) simp
  finally show ?thesis .
qed

lemma dsec_unat:
  assumes g: "geom_ok s" and c: "c < fs_total_clusters s" and k: "k < csecs s"
  shows "unat (dsec s c k) = unat (data_start (fs_super s)) + unat c * csecs s + k"
proof -
  let ?cs = "ucast (cluster_sectors (fs_super s)) :: u32"
  have cs: "unat ?cs = csecs s" by (rule unat_ucast_u16_u32)
  have lt: "unat c * csecs s + k < unat (fs_total_clusters s) * csecs s"
    using c k by (intro mul_add_less) (simp_all add: word_less_nat_alt)
  have top: "unat (data_start (fs_super s)) + unat (fs_total_clusters s) * csecs s \<le> unat (fs_max_sectors s)"
    using g by (simp add: geom_ok_def)
  note m = unat_u32_less [of "fs_max_sectors s"]
  have "unat (c * ?cs) = unat c * csecs s"
    using lt top m cs by (simp add: unat_word_ariths)
  moreover from this have "unat (data_start (fs_super s) + c * ?cs) = unat (data_start (fs_super s)) + unat c * csecs s"
    using lt top m by (subst unat_add_u32) simp_all
  ultimately show ?thesis unfolding dsec_def fs_cluster_to_sector_def
    using lt top by (subst unat_add_below [of _ _ "fs_max_sectors s"]) simp_all
qed

lemma dsec_less:
  assumes "geom_ok s" "c < fs_total_clusters s" "k < csecs s"
  shows "dsec s c k < fs_max_sectors s"
proof -
  have "unat c * csecs s + k < unat (fs_total_clusters s) * csecs s"
    using assms(2,3) by (intro mul_add_less) (simp_all add: word_less_nat_alt)
  then show ?thesis using dsec_unat [OF assms] assms(1) by (simp add: geom_ok_def word_less_nat_alt)
qed

lemma dsec_inj:
  assumes "geom_ok s" "c < fs_total_clusters s" "k < csecs s" "c' < fs_total_clusters s" "k' < csecs s"
    and "dsec s c k = dsec s c' k'"
  shows "c = c' \<and> k = k'"
proof -
  have eq: "unat c * csecs s + k = unat c' * csecs s + k'"
    using dsec_unat [OF assms(1-3)] dsec_unat [OF assms(1,4,5)] assms(6) by simp
  have "unat c = (unat c * csecs s + k) div csecs s" "k = (unat c * csecs s + k) mod csecs s" using assms(3) by simp_all
  moreover have "unat c' = (unat c' * csecs s + k') div csecs s" "k' = (unat c' * csecs s + k') mod csecs s"
    using assms(5) by simp_all
  ultimately have "unat c = unat c'" "k = k'" using eq by metis+
  then show ?thesis by (simp add: word_unat_eq_iff)
qed

subsection \<open>The data of a chain\<close>

definition cdata :: "'w fs_state \<Rightarrow> (u32 \<Rightarrow> u8 list) \<Rightarrow> u32 \<Rightarrow> u8 list" where
  "cdata s f c = concat (map (\<lambda>k. f (dsec s c k)) [0..<csecs s])"

lemma cdata_cong: "(\<And>k. k < csecs s \<Longrightarrow> f (dsec s c k) = g (dsec s c k)) \<Longrightarrow> cdata s f c = cdata s g c"
  unfolding cdata_def by (rule arg_cong [where f = concat]) (rule map_cong, auto)

fun data_writes :: "'w fs_state \<Rightarrow> u8 list \<Rightarrow> u32 list \<Rightarrow> nat \<Rightarrow> (u32 \<times> u8 list) list" where
  "data_writes s content [] t = []"
| "data_writes s content (c # cs) t =
     map (\<lambda>k. (dsec s c k, sector_chunk content (512 * (t + k)))) [0..<csecs s] @ data_writes s content cs (t + csecs s)"

lemma data_writes_sectors:
  "(r, b) \<in> set (data_writes s content cs t) \<Longrightarrow> (\<exists>c \<in> set cs. \<exists>k < csecs s. r = dsec s c k) \<and> length b = 512"
  by (induction cs arbitrary: t) (auto simp: sector_chunk_def Let_def)

lemma sector_chunk_min: "sector_chunk content (min n (length content)) = sector_chunk content n"
  by (simp add: sector_chunk_def min_def)

lemma dsec_disk [simp]: "dsec (s\<lparr>disk := d\<rparr>) = dsec s"
  by (simp add: fun_eq_iff dsec_def fs_cluster_to_sector_def)

lemma write_cluster_do_writes:
  assumes "bw = min (512 * (t + a)) (length content)" "a \<le> n"
  shows "write_cluster E (fs_cluster_to_sector s c) content [a..<n] bw u =
    (min (512 * (t + n)) (length content),
     do_writes E (map (\<lambda>k. (dsec s c k, sector_chunk content (512 * (t + k)))) [a..<n]) u)"
  using assms
proof (induction "n - a" arbitrary: a bw u)
  case 0
  then show ?case by (simp add: do_writes_def)
next
  case (Suc m)
  then have ab: "[a..<n] = a # [Suc a..<n]" "m = n - Suc a" "Suc a \<le> n" by (simp_all add: upt_conv_Cons)
  let ?u = "snd (fs_write_sector E u (dsec s c a) (sector_chunk content (512 * (t + a))))"
  have bw: "bw + length (take 512 (drop bw content)) = min (512 * (t + Suc a)) (length content)"
    using Suc.prems(1) by (auto simp: min_def)
  have "sector_chunk content bw = sector_chunk content (512 * (t + a))" unfolding Suc.prems(1) by (rule sector_chunk_min)
  then have "write_cluster E (fs_cluster_to_sector s c) content [a..<n] bw u =
      write_cluster E (fs_cluster_to_sector s c) content [Suc a..<n] (min (512 * (t + Suc a)) (length content)) ?u"
    unfolding ab(1) write_cluster.simps bw by (simp only: dsec_def)
  also have "\<dots> = (min (512 * (t + n)) (length content),
     do_writes E (map (\<lambda>k. (dsec s c k, sector_chunk content (512 * (t + k)))) [Suc a..<n]) ?u)"
    by (rule Suc.hyps(1) [OF ab(2) refl ab(3)])
  finally show ?case unfolding ab(1) by (simp add: do_writes_def)
qed

lemma data_writes_disk [simp]: "data_writes (s\<lparr>disk := d\<rparr>) content cs t = data_writes s content cs t"
  by (induction cs arbitrary: t) simp_all

lemma write_clusters_do_writes:
  assumes "chain (file_allocation_table s) c cs" "length (file_allocation_table s) = unat (fs_total_clusters s)"
    and "bw = min (512 * t) (length content)"
  shows "write_clusters E content (length cs) c bw s = do_writes E (data_writes s content cs t) s"
  using assms
proof (induction cs arbitrary: c bw t s)
  case Nil
  then show ?case by (simp add: do_writes_def)
next
  case (Cons x cs)
  let ?ws = "map (\<lambda>k. (dsec s x k, sector_chunk content (512 * (t + k)))) [0..<csecs s]"
  have x: "c = x" "x \<noteq> FAT_EOF" "x < fs_total_clusters s" "chain (file_allocation_table s) (file_allocation_table s ! unat x) cs"
    using Cons.prems(1,2) by (auto simp: word_less_nat_alt)
  have wc: "write_cluster E (fs_cluster_to_sector s x) content [0..<csecs s] bw s =
      (min (512 * (t + csecs s)) (length content), do_writes E ?ws s)"
    by (rule write_cluster_do_writes) (simp_all add: Cons.prems(3))
  obtain d where d: "do_writes E ?ws s = s\<lparr>disk := d\<rparr>" using do_writes_frame by blast
  have "write_clusters E content (length cs) (file_allocation_table s ! unat x) (min (512 * (t + csecs s)) (length content)) (s\<lparr>disk := d\<rparr>) =
      do_writes E (data_writes (s\<lparr>disk := d\<rparr>) content cs (t + csecs s)) (s\<lparr>disk := d\<rparr>)"
    using Cons.IH [of "s\<lparr>disk := d\<rparr>" "file_allocation_table s ! unat x" "min (512 * (t + csecs s)) (length content)" "t + csecs s"]
      x(4) Cons.prems(2) by simp
  then show ?case using x wc d by (simp add: not_le do_writes_append)
qed

lemma apply_data_writes_other:
  assumes "geom_ok s" "\<forall>c \<in> set cs. c < fs_total_clusters s"
    and "c' < fs_total_clusters s" "c' \<notin> set cs" "k < csecs s"
  shows "apply_writes (data_writes s content cs t) f (dsec s c' k) = f (dsec s c' k)"
proof (rule apply_writes_other, rule notI)
  assume "dsec s c' k \<in> fst ` set (data_writes s content cs t)"
  then obtain c k' where "c \<in> set cs" "k' < csecs s" "dsec s c' k = dsec s c k'"
    using data_writes_sectors [of _ _ s content cs t] by force
  then show False using dsec_inj [OF assms(1,3,5)] assms(2,4) by blast
qed

lemma map_shift_upt: "map (\<lambda>k. g (t + k)) [0..<n] = map g [t..<t + n]"
  by (induction n) simp_all

lemma cdata_writes:
  assumes g: "geom_ok s" and "distinct cs" "\<forall>c \<in> set cs. c < fs_total_clusters s"
  shows "concat (map (cdata s (apply_writes (data_writes s content cs t) f)) cs) =
    concat (map (\<lambda>i. sector_chunk content (512 * i)) [t..<t + csecs s * length cs])"
  using assms(2,3)
proof (induction cs arbitrary: t f)
  case (Cons c cs)
  let ?A = "map (\<lambda>k. (dsec s c k, sector_chunk content (512 * (t + k)))) [0..<csecs s]"
  define g where "g = apply_writes (data_writes s content (c # cs) t) f"
  have eq: "g = apply_writes (data_writes s content cs (t + csecs s)) (apply_writes ?A f)"
    by (simp add: g_def apply_writes_append)
  have c: "c < fs_total_clusters s" "c \<notin> set cs" "\<forall>c \<in> set cs. c < fs_total_clusters s" "distinct cs"
    using Cons.prems by auto
  have "inj_on (dsec s c) {0..<csecs s}" by (rule inj_onI) (use dsec_inj [OF g c(1) _ c(1)] in simp)
  then have dist: "distinct (map fst ?A)" by (simp add: distinct_map o_def)
  have "g (dsec s c k) = sector_chunk content (512 * (t + k))" if k: "k < csecs s" for k
  proof -
    have "g (dsec s c k) = apply_writes ?A f (dsec s c k)"
      unfolding eq by (rule apply_data_writes_other [OF g c(3,1,2) k])
    also have "\<dots> = sector_chunk content (512 * (t + k))" using k by (intro apply_writes_in [OF dist]) auto
    finally show ?thesis .
  qed
  then have "cdata s g c = concat (map (\<lambda>k. sector_chunk content (512 * (t + k))) [0..<csecs s])"
    unfolding cdata_def by (intro arg_cong [where f = concat] map_cong [OF refl]) simp
  also have "\<dots> = concat (map (\<lambda>i. sector_chunk content (512 * i)) [t..<t + csecs s])"
    by (simp only: map_shift_upt [of "\<lambda>i. sector_chunk content (512 * i)"])
  finally have 1: "cdata s g c = concat (map (\<lambda>i. sector_chunk content (512 * i)) [t..<t + csecs s])" .
  have 2: "concat (map (cdata s g) cs) =
      concat (map (\<lambda>i. sector_chunk content (512 * i)) [t + csecs s..<t + csecs s + csecs s * length cs])"
    unfolding eq by (rule Cons.IH [OF c(4,3)])
  have "[t..<t + csecs s * length (c # cs)] = [t..<t + csecs s] @ [t + csecs s..<t + csecs s + csecs s * length cs]"
    using upt_add_eq_append [of t "t + csecs s" "csecs s * length cs"] by (simp add: add.assoc)
  then show ?case using 1 2 by (simp add: g_def del: data_writes.simps)
qed simp

lemma concat_slices: "concat (map (\<lambda>i. take n (drop (n * i) ys)) [0..<m]) = take (n * m) ys"
  by (induction m) (simp_all add: take_add add.commute [of n])

lemma concat_chunks:
  assumes "length xs \<le> 512 * m"
  shows "take (length xs) (concat (map (\<lambda>i. sector_chunk xs (512 * i)) [0..<m])) = xs"
proof -
  define ys where "ys = xs @ replicate (512 * m - length xs) 0"
  have "sector_chunk xs (512 * i) = take 512 (drop (512 * i) ys)" if "i < m" for i
  proof -
    have "512 * i + 512 \<le> 512 * m" using that by linarith
    then show ?thesis by (auto simp: sector_chunk_def ys_def min_def)
  qed
  then have "map (\<lambda>i. sector_chunk xs (512 * i)) [0..<m] = map (\<lambda>i. take 512 (drop (512 * i) ys)) [0..<m]" by simp
  then have "concat (map (\<lambda>i. sector_chunk xs (512 * i)) [0..<m]) = take (512 * m) ys" using concat_slices by metis
  then show ?thesis using assms by (simp add: ys_def)
qed

subsection \<open>Reading a chain\<close>

lemma concat_512:
  "\<forall>x \<in> set xs. length x = n \<Longrightarrow> i < length xs \<Longrightarrow> drop (n * i) (concat xs) = concat (drop i xs)"
proof (induction xs arbitrary: i)
  case (Cons x xs)
  show ?case
  proof (cases i)
    case (Suc j)
    then have "drop (n * i) (concat (x # xs)) = drop (n * j) (concat xs)" using Cons.prems(1) by simp
    then show ?thesis using Cons Suc by simp
  qed simp
qed simp

lemma drop_concat_nth:
  assumes "\<forall>x \<in> set xs. length x = n" "off < n * length xs"
  shows "take (n - off mod n) (drop off (concat xs)) = drop (off mod n) (xs ! (off div n))"
proof -
  have n: "0 < n" using assms(2) by (cases n) auto
  have i: "off div n < length xs" using assms(2) by (simp add: less_mult_imp_div_less mult.commute)
  have "drop off (concat xs) = drop (off mod n) (drop (n * (off div n)) (concat xs))"
    by (simp only: drop_drop) (simp add: add.commute)
  also have "drop (n * (off div n)) (concat xs) = xs ! (off div n) @ concat (drop (Suc (off div n)) xs)"
    using concat_512 [OF assms(1) i] i by (metis Cons_nth_drop_Suc concat.simps(2))
  finally show ?thesis using assms(1) i nth_mem [OF i] n by (simp add: mod_le_divisor)
qed

text \<open>States that differ in the cache only, and show the same disk.\<close>

definition same_view :: "'w fs_env \<Rightarrow> ('w \<Rightarrow> dev_ptr \<Rightarrow> u32 \<Rightarrow> u8 list) \<Rightarrow> 'w fs_state \<Rightarrow> 'w fs_state \<Rightarrow> bool" where
  "same_view E plat s s' \<longleftrightarrow> (\<exists>d. s' = s\<lparr>disk := d\<rparr>) \<and> fs_ok E plat s' \<and> fview E plat s' = fview E plat s"

lemma same_view_refl: "fs_ok E plat s \<Longrightarrow> same_view E plat s s"
  unfolding same_view_def by (metis fs_state.surjective fs_state.update_convs(9))

lemma same_view_trans: "same_view E plat s t \<Longrightarrow> same_view E plat t u \<Longrightarrow> same_view E plat s u"
  by (auto simp: same_view_def)

lemma same_view_fields:
  "same_view E plat s s' \<Longrightarrow> geom_ok s' = geom_ok s \<and> dsec s' = dsec s \<and> cdata s' = cdata s \<and> cluster_bytes s' = cluster_bytes s \<and>
     fs_cluster_to_sector s' = fs_cluster_to_sector s \<and> file_allocation_table s' = file_allocation_table s \<and>
     fs_total_clusters s' = fs_total_clusters s \<and> fs_super s' = fs_super s \<and> fview E plat s' = fview E plat s \<and> fs_ok E plat s' \<and>
     fs_max_sectors s' = fs_max_sectors s \<and> dir_table s' = dir_table s \<and> fs_mounted s' = fs_mounted s"
  by (auto simp: same_view_def cdata_def fun_eq_iff cluster_bytes_def fs_cluster_to_sector_def)

lemma fs_read_same:
  assumes "fs_ok E plat s" "r < fs_max_sectors s"
  obtains s' where "fs_read_sector E s r j = (None, fview E plat s r, s')" "same_view E plat s s'"
proof -
  from fs_read_ok [OF assms, of j] obtain d where
    d: "fs_read_sector E s r j = (None, fview E plat s r, s\<lparr>disk := d\<rparr>)" "fs_ok E plat (s\<lparr>disk := d\<rparr>)"
    "fview E plat (s\<lparr>disk := d\<rparr>) = fview E plat s" by blast
  then have "same_view E plat s (s\<lparr>disk := d\<rparr>)" unfolding same_view_def by blast
  with d(1) show ?thesis by (rule that)
qed

definition sectors_full :: "'w fs_state \<Rightarrow> (u32 \<Rightarrow> u8 list) \<Rightarrow> bool" where
  "sectors_full s f \<longleftrightarrow> (\<forall>r < fs_max_sectors s. length (f r) = 512)"

lemma length_concat_same: "\<forall>x \<in> set xs. length x = n \<Longrightarrow> length (concat xs) = n * length xs"
  by (induction xs) auto

lemma length_cdata:
  assumes "geom_ok s" "sectors_full s f" "c < fs_total_clusters s"
  shows "length (cdata s f c) = 512 * csecs s"
proof -
  have "\<forall>x \<in> set (map (\<lambda>k. f (dsec s c k)) [0..<csecs s]). length x = 512"
    using assms dsec_less [OF assms(1,3)] by (auto simp: sectors_full_def)
  then show ?thesis unfolding cdata_def using length_concat_same [of _ 512] by fastforce
qed

lemma cdata_slice:
  assumes "geom_ok s" "sectors_full s f" "c < fs_total_clusters s" "off < 512 * csecs s"
  shows "take (512 - off mod 512) (drop off (cdata s f c)) = drop (off mod 512) (f (dsec s c (off div 512)))"
proof -
  let ?xs = "map (\<lambda>k. f (dsec s c k)) [0..<csecs s]"
  have "\<forall>x \<in> set ?xs. length x = 512"
    using assms dsec_less [OF assms(1,3)] by (auto simp: sectors_full_def)
  moreover have "off div 512 < csecs s" using assms(4) by (simp add: less_mult_imp_div_less mult.commute)
  ultimately show ?thesis using drop_concat_nth [of ?xs 512 off] assms(4) by (simp add: cdata_def)
qed

lemma take_drop_step:
  assumes "take m (drop off xs) = ys" "n \<le> m" "n \<le> w"
  shows "take n ys @ take (w - n) (drop (off + n) xs) = take w (drop off xs)"
proof -
  have "take n ys = take n (drop off xs)" using assms(1,2) by (metis min.absorb1 take_take)
  then show ?thesis using assms(3) take_add [of n "w - n" "drop off xs"] by (simp add: add.commute)
qed

lemma within_cluster:
  assumes "off div 512 + 1 \<le> k" "n \<le> 512 - off mod 512"
  shows "off + n \<le> 512 * (k :: nat)"
proof -
  define q m where "q = off div 512" and "m = off mod 512"
  have off: "off = 512 * q + m" "m < 512" by (simp_all add: q_def m_def)
  have "q + 1 \<le> k" "n \<le> 512 - m" using assms by (simp_all add: q_def m_def)
  then show ?thesis unfolding off(1) using off(2) by linarith
qed

lemma rest_of_cluster: "n \<le> w \<Longrightarrow> off + n \<le> cb \<Longrightarrow> w - n - (cb - (off + n)) = w - (cb - (off :: nat))"
  by linarith

lemma read_in_cluster_spec:
  assumes "fs_ok E plat s" "geom_ok s" "sectors_full s (fview E plat s)" "c < fs_total_clusters s" "off \<le> 512 * csecs s"
  shows "\<exists>s'. read_in_cluster E (fs_cluster_to_sector s c) (512 * csecs s) want off acc s =
      (want - (512 * csecs s - off), acc @ take want (drop off (cdata s (fview E plat s) c)), s') \<and> same_view E plat s s'"
  using assms
proof (induction want arbitrary: off acc s rule: less_induct)
  case (less want)
  let ?cb = "512 * csecs s" and ?data = "cdata s (fview E plat s) c"
  show ?case
  proof (cases "off < ?cb \<and> 0 < want")
    case False
    have "length ?data = ?cb" by (rule length_cdata [OF less.prems(2-4)])
    then have "read_in_cluster E (fs_cluster_to_sector s c) ?cb want off acc s =
      (want - (?cb - off), acc @ take want (drop off ?data), s)"
      using False less.prems(5) by (subst read_in_cluster.simps) auto
    then show ?thesis using same_view_refl [OF less.prems(1)] by blast
  next
    case True
    let ?n = "min (512 - off mod 512) want" and ?r = "dsec s c (off div 512)"
    have k: "off div 512 < csecs s" using True by (simp add: less_mult_imp_div_less mult.commute)
    from fs_read_same [OF less.prems(1) dsec_less [OF less.prems(2,4) k], of "stack_junk E"] obtain s1 where
      s1: "fs_read_sector E s ?r (stack_junk E) = (None, fview E plat s ?r, s1)" "same_view E plat s s1" by blast
    note f = same_view_fields [OF s1(2)]
    have lt: "off mod 512 < 512" by simp
    then have n: "?n \<le> want" "want - ?n < want" "0 < ?n" using True by simp_all
    have "off div 512 + 1 \<le> csecs s" using k by simp
    moreover have "?n \<le> 512 - off mod 512" by (rule min.cobounded1)
    ultimately have le: "off + ?n \<le> ?cb" by (rule within_cluster)
    have sf: "sectors_full s1 (fview E plat s1)" using less.prems(3) f by (simp add: sectors_full_def)
    have "\<exists>s'. read_in_cluster E (fs_cluster_to_sector s1 c) (512 * csecs s1) (want - ?n) (off + ?n)
          (acc @ take ?n (drop (off mod 512) (fview E plat s ?r))) s1 =
        (want - ?n - (512 * csecs s1 - (off + ?n)),
         (acc @ take ?n (drop (off mod 512) (fview E plat s ?r))) @ take (want - ?n) (drop (off + ?n) (cdata s1 (fview E plat s1) c)), s') \<and>
        same_view E plat s1 s'"
      using f less.prems(2,4) le by (intro less.IH [OF n(2)] sf) simp_all
    then obtain s2 where s2: "read_in_cluster E (fs_cluster_to_sector s c) ?cb (want - ?n) (off + ?n)
          (acc @ take ?n (drop (off mod 512) (fview E plat s ?r))) s1 =
        (want - ?n - (?cb - (off + ?n)),
         acc @ take ?n (drop (off mod 512) (fview E plat s ?r)) @ take (want - ?n) (drop (off + ?n) ?data), s2)"
      "same_view E plat s1 s2" using f by auto
    have "take ?n (drop (off mod 512) (fview E plat s ?r)) @ take (want - ?n) (drop (off + ?n) ?data) = take want (drop off ?data)"
      using cdata_slice [OF less.prems(2-4)] True by (intro take_drop_step) auto
    moreover have "want - ?n - (?cb - (off + ?n)) = want - (?cb - off)" by (rule rest_of_cluster [OF n(1) le])
    moreover have "read_in_cluster E (fs_cluster_to_sector s c) ?cb want off acc s =
        read_in_cluster E (fs_cluster_to_sector s c) ?cb (want - ?n) (off + ?n)
          (acc @ take ?n (drop (off mod 512) (fview E plat s ?r))) s1"
      using True s1(1) by (subst read_in_cluster.simps) (simp add: dsec_def Let_def)
    ultimately show ?thesis using s2 same_view_trans [OF s1(2) s2(2)] by metis
  qed
qed

lemma read_clusters_spec:
  assumes "fs_ok E plat s" "geom_ok s" "sectors_full s (fview E plat s)" "chain (file_allocation_table s) c cs" "off < 512 * csecs s"
  shows "\<exists>s'. read_clusters E (512 * csecs s) want c off acc s =
      (acc @ take want (drop off (concat (map (cdata s (fview E plat s)) cs))), s') \<and> same_view E plat s s'"
  using assms
proof (induction cs arbitrary: c off acc s want)
  case Nil
  then have "read_clusters E (512 * csecs s) want c off acc s = (acc, s)" by (subst read_clusters.simps) simp
  then show ?case using same_view_refl [OF Nil.prems(1)] by simp
next
  case (Cons x cs)
  let ?cb = "512 * csecs s" and ?d = "cdata s (fview E plat s)"
  have x: "c = x" "x \<noteq> FAT_EOF" "x < fs_total_clusters s" "chain (file_allocation_table s) (file_allocation_table s ! unat x) cs"
    using Cons.prems(2,4) by (auto simp: geom_ok_def word_less_nat_alt)
  show ?case
  proof (cases "want = 0")
    case True
    then have "read_clusters E ?cb want c off acc s = (acc, s)" by (subst read_clusters.simps) simp
    then show ?thesis using same_view_refl [OF Cons.prems(1)] True by simp
  next
    case False
    from read_in_cluster_spec [OF Cons.prems(1-3) x(3), of off want acc] Cons.prems(5) obtain s1 where
      s1: "read_in_cluster E (fs_cluster_to_sector s x) ?cb want off acc s =
        (want - (?cb - off), acc @ take want (drop off (?d x)), s1)" "same_view E plat s s1" by auto
    note f = same_view_fields [OF s1(2)]
    have "\<exists>s'. read_clusters E (512 * csecs s1) (want - (?cb - off)) (file_allocation_table s1 ! unat x) 0
         (acc @ take want (drop off (?d x))) s1 =
       ((acc @ take want (drop off (?d x))) @ take (want - (?cb - off)) (drop 0 (concat (map (cdata s1 (fview E plat s1)) cs))), s') \<and>
       same_view E plat s1 s'"
      using Cons.prems f x(4) by (intro Cons.IH) (simp_all add: sectors_full_def)
    then obtain s2 where s2: "read_clusters E ?cb (want - (?cb - off)) (file_allocation_table s1 ! unat x) 0
         (acc @ take want (drop off (?d x))) s1 =
       (acc @ take want (drop off (?d x)) @ take (want - (?cb - off)) (concat (map ?d cs)), s2)"
      "same_view E plat s1 s2" using f by auto
    have "read_clusters E ?cb want c off acc s = read_clusters E ?cb (want - (?cb - off)) (file_allocation_table s1 ! unat x) 0
         (acc @ take want (drop off (?d x))) s1"
      using False x(1,2) Cons.prems(5) s1(1) x(3)[unfolded not_le [symmetric]] by (subst read_clusters.simps) simp
    moreover have "take want (drop off (concat (map ?d (x # cs)))) =
        take want (drop off (?d x)) @ take (want - (?cb - off)) (concat (map ?d cs))"
      using Cons.prems(5) length_cdata [OF Cons.prems(2,3) x(3)] by simp
    ultimately show ?thesis using s2 same_view_trans [OF s1(2) s2(2)] by metis
  qed
qed

lemma skip_clusters_spec:
  assumes "chain fat c cs" "length fat = unat tot" "n \<le> length cs"
  shows "\<exists>c'. skip_clusters fat tot n c = Some c' \<and> chain fat c' (drop n cs)"
  using assms
proof (induction n arbitrary: c cs)
  case (Suc n)
  then obtain x xs where cs: "cs = x # xs" by (cases cs) auto
  then have "c = x" "x \<noteq> FAT_EOF" "\<not> tot \<le> x" "chain fat (fat ! unat x) xs"
    using Suc.prems(1,2) by (auto simp: word_le_nat_alt)
  then show ?case using Suc.IH [of "fat ! unat x" xs] Suc.prems cs by simp
qed simp

lemma unat_cluster_bytes: "unat (cluster_bytes s) = 512 * csecs s"
proof -
  have "csecs s < 65536" using unsigned_less [of "cluster_sectors (fs_super s)", where ?'a = nat] by simp
  then show ?thesis by (simp add: cluster_bytes_def unat_word_ariths)
qed

lemma fs_read_raw_spec:
  assumes ok: "fs_ok E plat s" "geom_ok s" "sectors_full s (fview E plat s)" and ch: "chain (file_allocation_table s) (vf_cluster f) cs"
    and size: "unat (vf_size f) \<le> 512 * csecs s * length cs" and wrap: "unat (current_offset f) + unat sz < 4294967296"
  defines "whole \<equiv> take (unat (vf_size f)) (concat (map (cdata s (fview E plat s)) cs))"
  defines "bs \<equiv> take (unat sz) (drop (unat (current_offset f)) whole)"
  shows "\<exists>s'. fs_read_raw E s f sz = Some (bs, f\<lparr>current_offset := current_offset f + of_nat (length bs)\<rparr>, s') \<and>
    same_view E plat s s'"
proof (cases "vf_size f \<le> current_offset f")
  case True
  then have "bs = []" by (simp add: bs_def whole_def word_le_nat_alt)
  then show ?thesis using True same_view_refl [OF ok(1)] by (simp add: fs_read_raw_def)
next
  case False
  let ?d = "cdata s (fview E plat s)" and ?off = "unat (current_offset f)" and ?cb = "512 * csecs s"
  let ?sz = "if vf_size f < current_offset f + sz then vf_size f - current_offset f else sz"
  have cb: "0 < ?cb" "cluster_bytes s \<noteq> 0" using ok(2) unat_cluster_bytes [of s] by (auto simp: geom_ok_def)
  have lt: "?off < unat (vf_size f)" using False by (simp add: word_le_nat_alt)
  have sum: "unat (current_offset f + sz) = ?off + unat sz" by (rule unat_add_u32 [OF wrap])
  have sz: "unat ?sz = min (unat sz) (unat (vf_size f) - ?off)"
    using lt sum False by (auto simp: word_less_nat_alt unat_sub_if_size word_le_nat_alt)
  have "?off div ?cb < length cs" using lt size by (intro less_mult_imp_div_less) (simp add: mult.commute)
  then have n: "?off div ?cb \<le> length cs" by simp
  from skip_clusters_spec [OF ch _ n, of "fs_total_clusters s"] ok(2) obtain c where
    c: "skip_clusters (file_allocation_table s) (fs_total_clusters s) (?off div ?cb) (vf_cluster f) = Some c"
    "chain (file_allocation_table s) c (drop (?off div ?cb) cs)" by (auto simp: geom_ok_def)
  from read_clusters_spec [OF ok c(2), of "?off mod ?cb" "unat ?sz" "[]"] cb obtain s1 where
    s1: "read_clusters E ?cb (unat ?sz) c (?off mod ?cb) [] s =
      (take (unat ?sz) (drop (?off mod ?cb) (concat (map ?d (drop (?off div ?cb) cs)))), s1)" "same_view E plat s s1" by auto
  have len: "\<forall>x \<in> set (map ?d cs). length x = ?cb"
    using length_cdata [OF ok(2,3)] chain_range [OF ch] ok(2) by (auto simp: geom_ok_def word_less_nat_alt)
  have "concat (map ?d (drop (?off div ?cb) cs)) = drop (?cb * (?off div ?cb)) (concat (map ?d cs))"
    using concat_512 [OF len, of "?off div ?cb"] \<open>?off div ?cb < length cs\<close> by (simp add: drop_map)
  then have "drop (?off mod ?cb) (concat (map ?d (drop (?off div ?cb) cs))) = drop ?off (concat (map ?d cs))"
    by (simp only: drop_drop) (simp add: add.commute)
  then have "take (unat ?sz) (drop (?off mod ?cb) (concat (map ?d (drop (?off div ?cb) cs)))) = bs"
    unfolding bs_def whole_def sz by (simp add: drop_take)
  then show ?thesis using s1 c(1) cb False
    by (simp add: fs_read_raw_def Let_def unat_cluster_bytes unat_div unat_mod)
qed

subsection \<open>Writing the tables\<close>

definition run_writes :: "u32 \<Rightarrow> (nat \<Rightarrow> u8 list) \<Rightarrow> nat \<Rightarrow> (u32 \<times> u8 list) list" where
  "run_writes a g n = map (\<lambda>i. (a + of_nat i, g i)) [0..<n]"

lemma run_unat: "unat (a :: u32) + n \<le> unat (m :: u32) \<Longrightarrow> i < n \<Longrightarrow> unat (a + of_nat i) = unat a + i"
  by (rule unat_add_below [of _ _ m]) simp

lemma run_writes_range:
  assumes "unat a + n \<le> unat m"
  shows "\<forall>(r, b) \<in> set (run_writes a g n). r < m"
proof -
  have "a + of_nat i < m" if "i < n" for i using run_unat [OF assms that] assms that by (simp add: word_less_nat_alt)
  then show ?thesis by (auto simp: run_writes_def)
qed

lemma run_writes_view:
  assumes le: "unat a + n \<le> unat (m :: u32)"
  shows "i < n \<Longrightarrow> apply_writes (run_writes a g n) f (a + of_nat i) = g i"
    "unat r < unat a \<or> unat a + n \<le> unat r \<Longrightarrow> apply_writes (run_writes a g n) f r = f r"
proof -
  have inj: "inj_on (\<lambda>i. a + of_nat i) {0..<n}"
  proof (rule inj_onI)
    fix i j assume ij: "i \<in> {0..<n}" "j \<in> {0..<n}" and eq: "a + of_nat i = a + of_nat j"
    have "unat a + i = unat a + j"
      using arg_cong [where f = unat, OF eq] ij by (simp only: run_unat [OF le] atLeastLessThan_iff)
    then show "i = j" by simp
  qed
  then have d: "distinct (map fst (run_writes a g n))" by (simp add: run_writes_def distinct_map o_def)
  show "apply_writes (run_writes a g n) f (a + of_nat i) = g i" if "i < n"
  proof (rule apply_writes_in [OF d])
    show "(a + of_nat i, g i) \<in> set (run_writes a g n)"
      unfolding run_writes_def set_map by (rule image_eqI [of _ _ i]) (use that in simp_all)
  qed
  show "apply_writes (run_writes a g n) f r = f r" if r: "unat r < unat a \<or> unat a + n \<le> unat r"
  proof (rule apply_writes_other, rule notI)
    assume "r \<in> fst ` set (run_writes a g n)"
    then obtain i where "i < n" "r = a + of_nat i" by (auto simp: run_writes_def)
    then show False using run_unat [OF le, of i] r by auto
  qed
qed

lemma fat_sectors_unat:
  assumes "geom_ok s"
  shows "unat ((fs_total_clusters s * 4 + 511) div 512) = fat_sectors_needed s"
proof -
  have "unat (fs_total_clusters s) \<le> 262144" using assms by (simp add: geom_ok_def FS_MAX_CLUSTERS_CAP_def)
  then show ?thesis by (simp add: fat_sectors_needed_def unat_div unat_word_ariths)
qed

lemma save_fat_run:
  "geom_ok s \<Longrightarrow> save_fat_to_disk E s =
    do_writes E (run_writes (fat_start (fs_super s)) (fat_sector E (file_allocation_table s)) (fat_sectors_needed s)) s"
  by (simp add: save_fat_writes fat_writes_def run_writes_def fat_sectors_unat)

lemma save_dir_run:
  "save_directory_to_disk E s =
    do_writes E (run_writes (dir_start (fs_super s)) (dir_sector (dir_table s)) (dir_sectors_needed (dir_table s))) s"
  by (simp add: save_dir_writes dir_writes_def run_writes_def)

definition in_dir :: "'w fs_state \<Rightarrow> u32 \<Rightarrow> bool" where
  "in_dir s r \<longleftrightarrow> unat (dir_start (fs_super s)) \<le> unat r \<and> unat r < unat (dir_start (fs_super s)) + dir_sectors_needed (dir_table s)"

definition in_fat :: "'w fs_state \<Rightarrow> u32 \<Rightarrow> bool" where
  "in_fat s r \<longleftrightarrow> unat (fat_start (fs_super s)) \<le> unat r \<and> unat r < unat (fat_start (fs_super s)) + fat_sectors_needed s"

lemma sectors_full_apply:
  assumes "sectors_full s f" "\<forall>(r, b) \<in> set ws. length b = 512"
  shows "sectors_full s (apply_writes ws f)"
  using assms
proof (induction ws arbitrary: f)
  case (Cons x ws)
  obtain r b where x: "x = (r, b)" by fastforce
  have "sectors_full s (f(r := b))" using Cons.prems x by (simp add: sectors_full_def)
  then have "sectors_full s (apply_writes ws (f(r := b)))" by (rule Cons.IH) (use Cons.prems(2) in simp)
  then show ?case by (simp add: apply_writes_def x)
qed (simp add: apply_writes_def)

lemma save_fat_spec:
  assumes ok: "fs_ok E plat s" and g: "geom_ok s"
  shows "fs_ok E plat (save_fat_to_disk E s)"
    "i < fat_sectors_needed s \<Longrightarrow> fview E plat (save_fat_to_disk E s) (fat_start (fs_super s) + of_nat i) = fat_sector E (file_allocation_table s) i"
    "\<not> in_fat s r \<Longrightarrow> fview E plat (save_fat_to_disk E s) r = fview E plat s r"
proof -
  let ?ws = "run_writes (fat_start (fs_super s)) (fat_sector E (file_allocation_table s)) (fat_sectors_needed s)"
  have le: "unat (fat_start (fs_super s)) + fat_sectors_needed s \<le> unat (fs_max_sectors s)" using g by (simp add: geom_ok_def)
  note v = do_writes_view [OF ok run_writes_range [OF le]] and w = run_writes_view [OF le]
  show "fs_ok E plat (save_fat_to_disk E s)" using v(1) g by (simp add: save_fat_run)
  show "fview E plat (save_fat_to_disk E s) (fat_start (fs_super s) + of_nat i) = fat_sector E (file_allocation_table s) i"
    if "i < fat_sectors_needed s" using v(2) w(1) [OF that] g by (simp add: save_fat_run)
  show "fview E plat (save_fat_to_disk E s) r = fview E plat s r" if "\<not> in_fat s r"
    using v(2) w(2) [of r] g that by (simp add: save_fat_run in_fat_def not_le not_less)
qed

lemma save_dir_spec:
  assumes ok: "fs_ok E plat s" and g: "geom_ok s"
  shows "fs_ok E plat (save_directory_to_disk E s)"
    "i < dir_sectors_needed (dir_table s) \<Longrightarrow>
       fview E plat (save_directory_to_disk E s) (dir_start (fs_super s) + of_nat i) = dir_sector (dir_table s) i"
    "\<not> in_dir s r \<Longrightarrow> fview E plat (save_directory_to_disk E s) r = fview E plat s r"
proof -
  let ?ws = "run_writes (dir_start (fs_super s)) (dir_sector (dir_table s)) (dir_sectors_needed (dir_table s))"
  have le: "unat (dir_start (fs_super s)) + dir_sectors_needed (dir_table s) \<le> unat (fs_max_sectors s)" using g by (simp add: geom_ok_def)
  note v = do_writes_view [OF ok run_writes_range [OF le]] and w = run_writes_view [OF le]
  show "fs_ok E plat (save_directory_to_disk E s)" using v(1) by (simp add: save_dir_run)
  show "fview E plat (save_directory_to_disk E s) (dir_start (fs_super s) + of_nat i) = dir_sector (dir_table s) i"
    if "i < dir_sectors_needed (dir_table s)" using v(2) w(1) [OF that] by (simp add: save_dir_run)
  show "fview E plat (save_directory_to_disk E s) r = fview E plat s r" if "\<not> in_dir s r"
    using v(2) w(2) [of r] that by (simp add: save_dir_run in_dir_def not_le not_less)
qed

lemma length_dir_sector [simp]: "length (dir_sector tab i) = 512"
  by (simp add: dir_sector_def Let_def)

lemma length_fat_sector:
  assumes "i * 512 + 512 \<le> 4 * length fat + length (heap_after_fat E)"
  shows "length (fat_sector E fat i) = 512"
proof -
  have "length (concat (map le32 fat)) = 4 * length fat" by (induction fat) simp_all
  then show ?thesis using assms by (simp add: fat_sector_def)
qed

lemma save_fields [simp]:
  "dir_table (save_directory_to_disk E s) = dir_table s" "file_allocation_table (save_directory_to_disk E s) = file_allocation_table s"
  "fs_super (save_directory_to_disk E s) = fs_super s" "fs_mounted (save_directory_to_disk E s) = fs_mounted s"
  "fs_max_sectors (save_directory_to_disk E s) = fs_max_sectors s" "fs_total_clusters (save_directory_to_disk E s) = fs_total_clusters s"
  "dir_table (save_fat_to_disk E s) = dir_table s" "file_allocation_table (save_fat_to_disk E s) = file_allocation_table s"
  "fs_super (save_fat_to_disk E s) = fs_super s" "fs_mounted (save_fat_to_disk E s) = fs_mounted s"
  "fs_max_sectors (save_fat_to_disk E s) = fs_max_sectors s" "fs_total_clusters (save_fat_to_disk E s) = fs_total_clusters s"
  by (simp_all add: save_dir_run save_fat_writes)

lemma dsec_outside:
  assumes "geom_ok s" "c < fs_total_clusters s" "k < csecs s"
  shows "\<not> in_dir s (dsec s c k)" "\<not> in_fat s (dsec s c k)"
  using dsec_unat [OF assms] assms(1) by (auto simp: in_dir_def in_fat_def geom_ok_def)

lemma dir_outside_fat: "geom_ok s \<Longrightarrow> in_dir s r \<Longrightarrow> \<not> in_fat s r"
  by (auto simp: in_dir_def in_fat_def geom_ok_def)

end
