(* ===== verification/Files.thy ===== *)
theory Files
  imports Fsdisk
begin

text \<open>
  The file system as its users see it: a map from a directory and a name to a directory or to the
  bytes of a file.  \<open>fs_inv\<close> is the invariant the operations keep: the directory is a tree with
  unique names, every file has a chain of clusters of its own that is long enough for its size,
  and the tables on the disk are the tables in memory.
\<close>

subsection \<open>The directory table as a map\<close>

definition used :: "dir_tab \<Rightarrow> nat \<Rightarrow> bool" where
  "used tab i \<longleftrightarrow> i < length tab \<and> is_used (tab ! i) = 1"

definition names_unique :: "dir_tab \<Rightarrow> bool" where
  "names_unique tab \<longleftrightarrow> (\<forall>i j. used tab i \<and> used tab j \<and> parent_id (tab ! i) = parent_id (tab ! j) \<and>
     cstr (filename (tab ! i)) = cstr (filename (tab ! j)) \<longrightarrow> i = j)"

definition dir_ok :: "dir_tab \<Rightarrow> u32 \<Rightarrow> bool" where
  "dir_ok tab tot \<longleftrightarrow> tree_ok tab tot \<and> names_unique tab \<and> length tab \<le> 8192 \<and>
     (\<forall>e \<in> set tab. (is_used e = 0 \<or> is_used e = 1) \<and> wf_entry e)"

lemma used_flag: "dir_ok tab tot \<Longrightarrow> i < length tab \<Longrightarrow> is_used (tab ! i) \<noteq> 0 \<longleftrightarrow> is_used (tab ! i) = 1"
  unfolding dir_ok_def using nth_mem by fastforce

lemma find_used1_SomeD: "find_used1 tab nm p = Some i \<Longrightarrow> used tab i \<and> names tab nm p i"
  unfolding find_used1_def used_def using find_upt_SomeD(2,3) by blast

lemma find_used1_None: "find_used1 tab nm p = None \<longleftrightarrow> (\<forall>i. used tab i \<longrightarrow> \<not> names tab nm p i)"
  unfolding find_used1_def find_upt_None used_def by auto

lemma find_used1_iff:
  assumes "names_unique tab"
  shows "find_used1 tab nm p = Some i \<longleftrightarrow> used tab i \<and> names tab nm p i"
proof
  assume "find_used1 tab nm p = Some i"
  then show "used tab i \<and> names tab nm p i" by (rule find_used1_SomeD)
next
  assume i: "used tab i \<and> names tab nm p i"
  show "find_used1 tab nm p = Some i"
  proof (cases "find_used1 tab nm p")
    case None
    then show ?thesis using i unfolding find_used1_None by blast
  next
    case (Some j)
    then have "used tab j \<and> names tab nm p j" by (rule find_used1_SomeD)
    then have "i = j" using i assms [unfolded names_unique_def, rule_format, of i j] by (simp add: names_def)
    then show ?thesis using Some by simp
  qed
qed

lemma get_entry_idx_used1:
  assumes "dir_ok tab tot"
  shows "fs_get_entry_idx tab nm p = find_used1 tab nm p"
  unfolding fs_get_entry_idx_def find_used1_def using used_flag [OF assms] by (intro find_cong) auto

text \<open>Writing one entry changes the map at one name.\<close>

lemma used_update: "used (tab[i := e]) j \<longleftrightarrow> (if j = i then i < length tab \<and> is_used e = 1 else used tab j)"
  by (auto simp: used_def)

lemma names_update: "i < length tab \<Longrightarrow> names (tab[i := e]) nm p j \<longleftrightarrow>
    (if j = i then parent_id e = p \<and> cstr (filename e) = cstr nm else names tab nm p j)"
  by (simp add: names_def)

lemma names_unique_update:
  assumes "names_unique tab" "i < length tab"
    and "is_used e = 1 \<Longrightarrow> (\<And>j. used tab j \<Longrightarrow> j \<noteq> i \<Longrightarrow> \<not> (parent_id (tab ! j) = parent_id e \<and> cstr (filename (tab ! j)) = cstr (filename e)))"
  shows "names_unique (tab[i := e])"
  unfolding names_unique_def
proof (intro allI impI, elim conjE)
  fix j k
  assume a: "used (tab[i := e]) j" "used (tab[i := e]) k" "parent_id (tab[i := e] ! j) = parent_id (tab[i := e] ! k)"
    "cstr (filename (tab[i := e] ! j)) = cstr (filename (tab[i := e] ! k))"
  show "j = k"
  proof (cases "j = i \<or> k = i")
    case True
    then show ?thesis using a assms(2,3) by (metis nth_list_update_eq nth_list_update_neq used_update)
  next
    case False
    then show ?thesis using a assms(1) unfolding names_unique_def by (simp add: used_update)
  qed
qed

subsection \<open>The tree under changes of one entry\<close>

lemma reach_root_mono:
  assumes "reach_root tab c"
    and "\<And>c. c \<noteq> 0 \<Longrightarrow> is_dir tab c \<Longrightarrow> is_dir tab' c \<and> parent_id (tab' ! unat c) = parent_id (tab ! unat c)"
  shows "reach_root tab' c"
  using assms(1)
proof (induction rule: reach_root.induct)
  case (up c)
  then show ?case using assms(2) [of c] reach_root.intros by (cases "c = 0") auto
qed (rule at_root)

lemma of_nat_slot:
  assumes "i < length tab" "length (tab :: dir_tab) \<le> 8192"
  shows "unat (of_nat i :: u16) = i"
  using assms by (simp add: unat_of_nat)

lemma dir_exists_reach:
  assumes ok: "tree_ok tab tot" "length tab \<le> 8192" and ex: "fs_dir_exists tab p"
  shows "reach_root tab p"
proof (cases "p = 0")
  case False
  then obtain i where i: "i < length tab" "is_used (tab ! i) \<noteq> 0" "file_type (tab ! i) = FT_DIR" "entry_id (tab ! i) = p"
    using ex unfolding fs_dir_exists_def find_upt_None by auto
  then have t: "entry_id (tab ! i) = of_nat i" "reach_root tab (parent_id (tab ! i))"
    using ok(1) by (auto simp: tree_ok_def entry_ok_def)
  then have u: "unat p = i" using i(1,4) of_nat_slot [OF i(1) ok(2)] by simp
  then have "is_dir tab p" using i by (simp add: is_dir_def)
  then show ?thesis using t(2) u reach_root.up by simp
qed (simp add: reach_root.at_root)

lemma tree_ok_update:
  assumes ok: "tree_ok tab tot" "i < length tab"
    and new: "is_used e \<noteq> 0 \<Longrightarrow> entry_ok (tab[i := e]) tot i \<and> reach_root tab (parent_id e)"
    and keep: "\<And>c. c \<noteq> 0 \<Longrightarrow> is_dir tab c \<Longrightarrow> unat c = i \<Longrightarrow>
      is_used e \<noteq> 0 \<and> entry_id e = c \<and> file_type e = FT_DIR \<and> parent_id e = parent_id (tab ! i)"
  shows "tree_ok (tab[i := e]) tot"
proof -
  have m: "is_dir (tab[i := e]) c \<and> parent_id (tab[i := e] ! unat c) = parent_id (tab ! unat c)"
    if "c \<noteq> 0" "is_dir tab c" for c
    using that keep [OF that] ok(2) by (cases "unat c = i") (auto simp: is_dir_def)
  have "entry_ok (tab[i := e]) tot j \<and> reach_root (tab[i := e]) (parent_id (tab[i := e] ! j))"
    if j: "j < length (tab[i := e])" "is_used (tab[i := e] ! j) \<noteq> 0" for j
  proof (cases "j = i")
    case True
    then show ?thesis using new j ok(2) reach_root_mono [OF _ m] by simp
  next
    case False
    then have "entry_ok tab tot j \<and> reach_root tab (parent_id (tab ! j))" using ok(1) j by (simp add: tree_ok_def)
    then show ?thesis using False reach_root_mono [OF _ m] by (simp add: entry_ok_def)
  qed
  then show ?thesis unfolding tree_ok_def by blast
qed

text \<open>An entry nobody has as parent can go.\<close>

lemma tree_ok_remove:
  assumes ok: "tree_ok tab tot" "i < length tab" "is_used e = 0"
    and childless: "\<And>j. j < length tab \<Longrightarrow> is_used (tab ! j) \<noteq> 0 \<Longrightarrow> parent_id (tab ! j) \<noteq> 0 \<Longrightarrow> unat (parent_id (tab ! j)) \<noteq> i"
  shows "tree_ok (tab[i := e]) tot"
proof -
  have r: "reach_root (tab[i := e]) c" if "reach_root tab c" "c \<noteq> 0 \<Longrightarrow> unat c \<noteq> i" for c
    using that
  proof (induction rule: reach_root.induct)
    case (up c)
    show ?case
    proof (cases "c = 0")
      case False
      then have c: "unat c \<noteq> i" using up.prems by simp
      have "is_used (tab ! unat c) \<noteq> 0" "unat c < length tab" using up.hyps(1) by (auto simp: is_dir_def)
      then have "unat (parent_id (tab ! unat c)) \<noteq> i" if "parent_id (tab ! unat c) \<noteq> 0"
        using childless [of "unat c"] that by simp
      then have "reach_root (tab[i := e]) (parent_id (tab ! unat c))" by (rule up.IH)
      then show ?thesis using up.hyps(1) c reach_root.up [of "tab[i := e]" c] by (simp add: is_dir_def)
    qed (simp add: reach_root.at_root)
  qed (rule at_root)
  have "entry_ok (tab[i := e]) tot j \<and> reach_root (tab[i := e]) (parent_id (tab[i := e] ! j))"
    if j: "j < length (tab[i := e])" "is_used (tab[i := e] ! j) \<noteq> 0" for j
  proof -
    have ne: "j \<noteq> i" using j ok(2,3) by auto
    then have "entry_ok tab tot j \<and> reach_root tab (parent_id (tab ! j))" using ok(1) j by (simp add: tree_ok_def)
    then show ?thesis using ne r [of "parent_id (tab ! j)"] childless [of j] j by (simp add: entry_ok_def)
  qed
  then show ?thesis unfolding tree_ok_def by blast
qed

lemma find_update:
  assumes u: "names_unique tab" "names_unique (tab[i := e])" and i: "i < length tab"
  shows "find_used1 (tab[i := e]) nm p =
    (if is_used e = 1 \<and> parent_id e = p \<and> cstr (filename e) = cstr nm then Some i
     else if find_used1 tab nm p = Some i then None else find_used1 tab nm p)"
proof (cases "is_used e = 1 \<and> parent_id e = p \<and> cstr (filename e) = cstr nm")
  case True
  then have "used (tab[i := e]) i \<and> names (tab[i := e]) nm p i" using i by (simp add: used_update names_update)
  then show ?thesis using True find_used1_iff [OF u(2)] by simp
next
  case False
  have eq: "used (tab[i := e]) j \<and> names (tab[i := e]) nm p j \<longleftrightarrow> j \<noteq> i \<and> used tab j \<and> names tab nm p j" for j
    using False i by (auto simp: used_update names_update)
  show ?thesis
  proof (cases "find_used1 (tab[i := e]) nm p")
    case None
    then have "j = i" if "find_used1 tab nm p = Some j" for j
      using eq [of j] find_used1_SomeD [OF that] unfolding find_used1_None by blast
    then have "find_used1 tab nm p = None \<or> find_used1 tab nm p = Some i" by (cases "find_used1 tab nm p") auto
    then show ?thesis using None False by auto
  next
    case (Some j)
    then have "j \<noteq> i" "find_used1 tab nm p = Some j"
      using eq [of j] find_used1_SomeD [OF Some] find_used1_iff [OF u(1)] by simp_all
    then show ?thesis using Some False by simp
  qed
qed

subsection \<open>The clusters of an entry\<close>

fun follow :: "u32 list \<Rightarrow> nat \<Rightarrow> u32 \<Rightarrow> u32 list" where
  "follow fat 0 c = []"
| "follow fat (Suc n) c = (if c = FAT_EOF \<or> length fat \<le> unat c then [] else c # follow fat n (fat ! unat c))"

definition clusters_of :: "u32 list \<Rightarrow> disk_file_entry_t \<Rightarrow> u32 list" where
  "clusters_of fat e = (if start_cluster e = 0 then [] else follow fat (length fat) (start_cluster e))"

lemma follow_chain: "chain fat c cs \<Longrightarrow> length cs \<le> n \<Longrightarrow> follow fat n c = cs"
proof (induction cs arbitrary: c n)
  case Nil
  then show ?case by (cases n) auto
next
  case (Cons x cs)
  then show ?case by (cases n) auto
qed

lemma length_chain:
  assumes "chain fat c cs"
  shows "length cs \<le> length fat"
proof -
  have "distinct (map unat cs)" using chain_distinct [OF assms] by (simp add: distinct_map inj_on_def word_unat_eq_iff)
  moreover have "set (map unat cs) \<subseteq> {..<length fat}" using chain_range [OF assms] by auto
  ultimately show ?thesis using card_mono [of "{..<length fat}" "set (map unat cs)"] distinct_card [of "map unat cs"] by simp
qed

lemma clusters_of_chain:
  assumes "chain fat (start_cluster e) cs" "start_cluster e \<noteq> 0"
  shows "clusters_of fat e = cs"
  using assms follow_chain [OF assms(1) length_chain [OF assms(1)]] by (simp add: clusters_of_def)

definition good_entry :: "nat \<Rightarrow> u32 list \<Rightarrow> disk_file_entry_t \<Rightarrow> bool" where
  "good_entry cb fat e \<longleftrightarrow>
     (if start_cluster e = 0 then file_size e = 0
      else chain fat (start_cluster e) (clusters_of fat e) \<and> unat (file_size e) \<le> cb * length (clusters_of fat e))"

definition chains_ok :: "nat \<Rightarrow> u32 list \<Rightarrow> dir_tab \<Rightarrow> bool" where
  "chains_ok cb fat tab \<longleftrightarrow> (\<forall>i. used tab i \<longrightarrow> good_entry cb fat (tab ! i)) \<and>
     (\<forall>i j. used tab i \<and> used tab j \<and> i \<noteq> j \<longrightarrow> set (clusters_of fat (tab ! i)) \<inter> set (clusters_of fat (tab ! j)) = {})"

lemma good_entry_range:
  "good_entry cb fat e \<Longrightarrow> x \<in> set (clusters_of fat e) \<Longrightarrow> unat x < length fat \<and> fat ! unat x \<noteq> FAT_FREE"
  using chain_range chain_used unfolding good_entry_def by (metis clusters_of_def list.set(1) empty_iff)

lemma good_entry_cong:
  assumes "good_entry cb fat e" "length fat' = length fat" "\<And>x. x \<in> set (clusters_of fat e) \<Longrightarrow> fat' ! unat x = fat ! unat x"
  shows "clusters_of fat' e = clusters_of fat e" "good_entry cb fat' e"
proof -
  show eq: "clusters_of fat' e = clusters_of fat e"
  proof (cases "start_cluster e = 0")
    case False
    then have "chain fat (start_cluster e) (clusters_of fat e)" using assms(1) by (simp add: good_entry_def)
    from chain_cong [OF this assms(2,3)] show ?thesis using False by (rule clusters_of_chain)
  qed (simp add: clusters_of_def)
  show "good_entry cb fat' e"
    using assms(1) chain_cong [OF _ assms(2,3)] unfolding good_entry_def eq by (auto split: if_splits)
qed

definition entry_bytes :: "'w fs_state \<Rightarrow> (u32 \<Rightarrow> u8 list) \<Rightarrow> disk_file_entry_t \<Rightarrow> u8 list" where
  "entry_bytes s f e = take (unat (file_size e)) (concat (map (cdata s f) (clusters_of (file_allocation_table s) e)))"

subsection \<open>The invariant\<close>

definition disk_inv :: "'w fs_env \<Rightarrow> ('w \<Rightarrow> dev_ptr \<Rightarrow> u32 \<Rightarrow> u8 list) \<Rightarrow> 'w fs_state \<Rightarrow> bool" where
  "disk_inv E plat s \<longleftrightarrow> fs_ok E plat s \<and> geom_ok s \<and> sectors_full s (fview E plat s) \<and> 512 \<le> length (heap_after_fat E)"

definition dir_synced :: "'w fs_env \<Rightarrow> ('w \<Rightarrow> dev_ptr \<Rightarrow> u32 \<Rightarrow> u8 list) \<Rightarrow> 'w fs_state \<Rightarrow> bool" where
  "dir_synced E plat s \<longleftrightarrow> (\<forall>i < dir_sectors_needed (dir_table s).
     fview E plat s (dir_start (fs_super s) + of_nat i) = dir_sector (dir_table s) i)"

text \<open>The end of the last sector of the allocation table is whatever lay behind it when it was written.\<close>

definition fat_image :: "u32 list \<Rightarrow> u8 list \<Rightarrow> nat \<Rightarrow> u8 list" where
  "fat_image fat tail i = take 512 (drop (i * 512) (concat (map le32 fat) @ tail))"

definition fat_synced :: "'w fs_env \<Rightarrow> ('w \<Rightarrow> dev_ptr \<Rightarrow> u32 \<Rightarrow> u8 list) \<Rightarrow> 'w fs_state \<Rightarrow> bool" where
  "fat_synced E plat s \<longleftrightarrow> (\<exists>tail. \<forall>i < fat_sectors_needed s.
     fview E plat s (fat_start (fs_super s) + of_nat i) = fat_image (file_allocation_table s) tail i)"

definition fs_inv :: "'w fs_env \<Rightarrow> ('w \<Rightarrow> dev_ptr \<Rightarrow> u32 \<Rightarrow> u8 list) \<Rightarrow> 'w fs_state \<Rightarrow> bool" where
  "fs_inv E plat s \<longleftrightarrow> disk_inv E plat s \<and> dir_synced E plat s \<and> fat_synced E plat s \<and>
     dir_ok (dir_table s) (fs_total_clusters s) \<and> chains_ok (512 * csecs s) (file_allocation_table s) (dir_table s)"

datatype fs_node = Dir_node | File_node "u8 list"

definition abs_node :: "'w fs_state \<Rightarrow> (u32 \<Rightarrow> u8 list) \<Rightarrow> disk_file_entry_t \<Rightarrow> fs_node" where
  "abs_node s f e = (if file_type e = FT_DIR then Dir_node else File_node (entry_bytes s f e))"

definition fs_abs :: "'w fs_env \<Rightarrow> ('w \<Rightarrow> dev_ptr \<Rightarrow> u32 \<Rightarrow> u8 list) \<Rightarrow> 'w fs_state \<Rightarrow> u16 \<Rightarrow> u8 list \<Rightarrow> fs_node option" where
  "fs_abs E plat s p nm = map_option (\<lambda>i. abs_node s (fview E plat s) (dir_table s ! i)) (find_used1 (dir_table s) nm p)"

definition put :: "(u16 \<Rightarrow> u8 list \<Rightarrow> fs_node option) \<Rightarrow> u16 \<Rightarrow> u8 list \<Rightarrow> fs_node option \<Rightarrow> u16 \<Rightarrow> u8 list \<Rightarrow> fs_node option" where
  "put m p nm v = (\<lambda>p' nm'. if p' = p \<and> cstr nm' = cstr nm then v else m p' nm')"

subsection \<open>What the writes of an operation keep\<close>

lemma geom_ok_tables:
  "length tab = length (dir_table s) \<Longrightarrow> geom_ok (s\<lparr>dir_table := tab\<rparr>) = geom_ok s"
  "length fat = length (file_allocation_table s) \<Longrightarrow> geom_ok (s\<lparr>file_allocation_table := fat\<rparr>) = geom_ok s"
  by (simp_all add: geom_ok_def fat_sectors_needed_def dir_sectors_needed_def)

lemma fview_tables [simp]:
  "fview E plat (s\<lparr>dir_table := tab\<rparr>) = fview E plat s" "fview E plat (s\<lparr>file_allocation_table := fat\<rparr>) = fview E plat s"
  "fs_ok E plat (s\<lparr>dir_table := tab\<rparr>) = fs_ok E plat s" "fs_ok E plat (s\<lparr>file_allocation_table := fat\<rparr>) = fs_ok E plat s"
  "dsec (s\<lparr>dir_table := tab\<rparr>) = dsec s" "dsec (s\<lparr>file_allocation_table := fat\<rparr>) = dsec s"
  by (simp_all add: fun_eq_iff fview_def fs_ok_def dsec_def fs_cluster_to_sector_def)

lemma disk_inv_tables:
  "disk_inv E plat s \<Longrightarrow> length tab = length (dir_table s) \<Longrightarrow> disk_inv E plat (s\<lparr>dir_table := tab\<rparr>)"
  "disk_inv E plat s \<Longrightarrow> length fat = length (file_allocation_table s) \<Longrightarrow> disk_inv E plat (s\<lparr>file_allocation_table := fat\<rparr>)"
  by (simp_all add: disk_inv_def geom_ok_tables sectors_full_def)

text \<open>The data of every cluster is the same in two states.\<close>

definition same_data :: "'w fs_env \<Rightarrow> ('w \<Rightarrow> dev_ptr \<Rightarrow> u32 \<Rightarrow> u8 list) \<Rightarrow> 'w fs_state \<Rightarrow> 'w fs_state \<Rightarrow> bool" where
  "same_data E plat s s' \<longleftrightarrow> csecs s' = csecs s \<and> fs_total_clusters s' = fs_total_clusters s \<and>
     (\<forall>c < fs_total_clusters s. cdata s' (fview E plat s') c = cdata s (fview E plat s) c)"

lemma same_data_refl [simp]: "same_data E plat s s"
  by (simp add: same_data_def)

lemma same_data_trans: "same_data E plat s t \<Longrightarrow> same_data E plat t u \<Longrightarrow> same_data E plat s u"
  by (simp add: same_data_def)

lemma same_data_tables [simp]:
  "same_data E plat s (s\<lparr>dir_table := tab\<rparr>)" "same_data E plat s (s\<lparr>file_allocation_table := fat\<rparr>)"
  by (simp_all add: same_data_def cdata_def)

lemma dir_index_in: "geom_ok s \<Longrightarrow> i < dir_sectors_needed (dir_table s) \<Longrightarrow> in_dir s (dir_start (fs_super s) + of_nat i)"
  using run_unat [of "dir_start (fs_super s)" "dir_sectors_needed (dir_table s)" "fs_max_sectors s" i]
  by (simp add: geom_ok_def in_dir_def)

lemma fat_index_in: "geom_ok s \<Longrightarrow> i < fat_sectors_needed s \<Longrightarrow> in_fat s (fat_start (fs_super s) + of_nat i)"
  using run_unat [of "fat_start (fs_super s)" "fat_sectors_needed s" "fs_max_sectors s" i]
  by (simp add: geom_ok_def in_fat_def)

lemma save_geom [simp]:
  "geom_ok (save_directory_to_disk E s) = geom_ok s" "geom_ok (save_fat_to_disk E s) = geom_ok s"
  "fat_sectors_needed (save_directory_to_disk E s) = fat_sectors_needed s" "fat_sectors_needed (save_fat_to_disk E s) = fat_sectors_needed s"
  "dsec (save_directory_to_disk E s) = dsec s" "dsec (save_fat_to_disk E s) = dsec s"
  by (simp_all add: geom_ok_def fat_sectors_needed_def dsec_def fs_cluster_to_sector_def fun_eq_iff)

lemma fat_sector_full:
  assumes "geom_ok s" "512 \<le> length (heap_after_fat E)" "i < fat_sectors_needed s"
  shows "length (fat_sector E (file_allocation_table s) i) = 512"
proof (rule length_fat_sector)
  let ?n = "unat (fs_total_clusters s) * 4 + 511"
  have "(i + 1) * 512 \<le> (?n div 512) * 512" using assms(3) by (intro mult_le_mono1) (simp add: fat_sectors_needed_def)
  also have "\<dots> \<le> ?n" by (rule div_times_less_eq_dividend)
  finally show "i * 512 + 512 \<le> 4 * length (file_allocation_table s) + length (heap_after_fat E)"
    using assms(1,2) by (simp add: geom_ok_def)
qed

lemma save_fat_keeps:
  assumes inv: "disk_inv E plat s"
  shows "disk_inv E plat (save_fat_to_disk E s)" "fat_synced E plat (save_fat_to_disk E s)"
    "dir_synced E plat s \<Longrightarrow> dir_synced E plat (save_fat_to_disk E s)" "same_data E plat s (save_fat_to_disk E s)"
proof -
  let ?s = "save_fat_to_disk E s"
  have ok: "fs_ok E plat s" "geom_ok s" "sectors_full s (fview E plat s)" "512 \<le> length (heap_after_fat E)"
    using inv by (simp_all add: disk_inv_def)
  note sp = save_fat_spec [OF ok(1,2)]
  show syn: "fat_synced E plat ?s"
    unfolding fat_synced_def using sp(2) by (intro exI [of _ "heap_after_fat E"]) (simp add: fat_image_def fat_sector_def)
  have "length (fview E plat ?s r) = 512" if r: "r < fs_max_sectors s" for r
  proof (cases "in_fat s r")
    case True
    define i where "i = unat r - unat (fat_start (fs_super s))"
    have i: "i < fat_sectors_needed s" "unat r = unat (fat_start (fs_super s)) + i" using True by (auto simp: in_fat_def i_def)
    then have "unat (fat_start (fs_super s) + of_nat i) = unat r"
      using ok(2) by (subst run_unat [of _ "fat_sectors_needed s" "fs_max_sectors s"]) (simp_all add: geom_ok_def)
    then have "r = fat_start (fs_super s) + of_nat i" by (simp add: word_unat_eq_iff)
    then show ?thesis using sp(2) [OF i(1)] fat_sector_full [OF ok(2,4) i(1)] by simp
  next
    case False
    then show ?thesis using sp(3) ok(3) r by (simp add: sectors_full_def)
  qed
  then show "disk_inv E plat ?s" using sp(1) ok by (simp add: disk_inv_def sectors_full_def)
  show "dir_synced E plat ?s" if "dir_synced E plat s"
    using that sp(3) dir_outside_fat [OF ok(2) dir_index_in [OF ok(2)]] by (simp add: dir_synced_def)
  show "same_data E plat s ?s"
    unfolding same_data_def using sp(3) dsec_outside(2) [OF ok(2)] by (auto simp: cdata_def intro!: arg_cong [where f = concat])
qed

lemma save_dir_keeps:
  assumes inv: "disk_inv E plat s"
  shows "disk_inv E plat (save_directory_to_disk E s)" "dir_synced E plat (save_directory_to_disk E s)"
    "fat_synced E plat s \<Longrightarrow> fat_synced E plat (save_directory_to_disk E s)" "same_data E plat s (save_directory_to_disk E s)"
proof -
  let ?s = "save_directory_to_disk E s"
  have ok: "fs_ok E plat s" "geom_ok s" "sectors_full s (fview E plat s)" "512 \<le> length (heap_after_fat E)"
    using inv by (simp_all add: disk_inv_def)
  note sp = save_dir_spec [OF ok(1,2)]
  show syn: "dir_synced E plat ?s" using sp(2) by (simp add: dir_synced_def)
  have "length (fview E plat ?s r) = 512" if r: "r < fs_max_sectors s" for r
  proof (cases "in_dir s r")
    case True
    define i where "i = unat r - unat (dir_start (fs_super s))"
    have i: "i < dir_sectors_needed (dir_table s)" "unat r = unat (dir_start (fs_super s)) + i" using True by (auto simp: in_dir_def i_def)
    then have "unat (dir_start (fs_super s) + of_nat i) = unat r"
      using ok(2) by (subst run_unat [of _ "dir_sectors_needed (dir_table s)" "fs_max_sectors s"]) (simp_all add: geom_ok_def)
    then have "r = dir_start (fs_super s) + of_nat i" by (simp add: word_unat_eq_iff)
    then show ?thesis using sp(2) [OF i(1)] by simp
  next
    case False
    then show ?thesis using sp(3) ok(3) r by (simp add: sectors_full_def)
  qed
  then show "disk_inv E plat ?s" using sp(1) ok by (simp add: disk_inv_def sectors_full_def)
  have "\<not> in_dir s (fat_start (fs_super s) + of_nat i)" if "i < fat_sectors_needed s" for i
    using dir_outside_fat [OF ok(2)] fat_index_in [OF ok(2) that] by blast
  then show "fat_synced E plat ?s" if "fat_synced E plat s"
    using that sp(3) by (simp add: fat_synced_def)
  show "same_data E plat s ?s"
    unfolding same_data_def using sp(3) dsec_outside(1) [OF ok(2)] by (auto simp: cdata_def intro!: arg_cong [where f = concat])
qed

lemma abs_node_same:
  assumes "same_data E plat s s'" "good_entry cb (file_allocation_table s) e"
    and "clusters_of (file_allocation_table s') e = clusters_of (file_allocation_table s) e"
    and "length (file_allocation_table s) = unat (fs_total_clusters s)"
  shows "abs_node s' (fview E plat s') e = abs_node s (fview E plat s) e"
proof -
  have "c < fs_total_clusters s" if "c \<in> set (clusters_of (file_allocation_table s) e)" for c
    using good_entry_range [OF assms(2) that] assms(4) by (simp add: word_less_nat_alt)
  then have "map (cdata s' (fview E plat s')) (clusters_of (file_allocation_table s) e) =
      map (cdata s (fview E plat s)) (clusters_of (file_allocation_table s) e)"
    using assms(1) by (simp add: same_data_def)
  then show ?thesis unfolding abs_node_def entry_bytes_def assms(3) by (simp only:)
qed

lemma fs_invD:
  assumes "fs_inv E plat s"
  shows "disk_inv E plat s" "geom_ok s" "length (file_allocation_table s) = unat (fs_total_clusters s)"
    "dir_ok (dir_table s) (fs_total_clusters s)" "names_unique (dir_table s)" "tree_ok (dir_table s) (fs_total_clusters s)"
    "length (dir_table s) \<le> 8192" "chains_ok (512 * csecs s) (file_allocation_table s) (dir_table s)"
    "unat (fs_total_clusters s) \<le> FS_MAX_CLUSTERS_CAP"
  using assms by (simp_all add: fs_inv_def disk_inv_def geom_ok_def dir_ok_def)

lemma dir_commit:
  assumes inv: "fs_inv E plat s" and tab: "length tab = length (dir_table s)" "dir_ok tab (fs_total_clusters s)"
    "chains_ok (512 * csecs s) (file_allocation_table s) tab"
  shows "fs_inv E plat (save_directory_to_disk E (s\<lparr>dir_table := tab\<rparr>))"
    "used tab i \<Longrightarrow> abs_node (save_directory_to_disk E (s\<lparr>dir_table := tab\<rparr>)) (fview E plat (save_directory_to_disk E (s\<lparr>dir_table := tab\<rparr>))) (tab ! i) =
       abs_node s (fview E plat s) (tab ! i)"
proof -
  have d: "disk_inv E plat (s\<lparr>dir_table := tab\<rparr>)" using inv tab(1) by (simp add: fs_inv_def disk_inv_tables)
  have "fat_synced E plat (s\<lparr>dir_table := tab\<rparr>)" using inv by (simp add: fs_inv_def fat_synced_def fat_sectors_needed_def)
  then show "fs_inv E plat (save_directory_to_disk E (s\<lparr>dir_table := tab\<rparr>))"
    using save_dir_keeps(1-3) [OF d] tab by (simp add: fs_inv_def)
  have sd: "same_data E plat s (save_directory_to_disk E (s\<lparr>dir_table := tab\<rparr>))"
    using same_data_trans [OF same_data_tables(1) save_dir_keeps(4) [OF d]] .
  show "abs_node (save_directory_to_disk E (s\<lparr>dir_table := tab\<rparr>)) (fview E plat (save_directory_to_disk E (s\<lparr>dir_table := tab\<rparr>))) (tab ! i) =
       abs_node s (fview E plat s) (tab ! i)" if "used tab i"
    using tab(3) that fs_invD(3) [OF inv] by (intro abs_node_same [OF sd]) (auto simp: chains_ok_def)
qed

lemma cstr_filename:
  assumes "length (cstr nm) < MAX_FILENAME"
  shows "cstr (safe_strcpy (replicate MAX_FILENAME 0) nm MAX_FILENAME) = cstr nm"
    "length (safe_strcpy (replicate MAX_FILENAME 0) nm MAX_FILENAME) = MAX_FILENAME"
proof -
  have t: "take (MAX_FILENAME - 1) (cstr nm) = cstr nm" "MAX_FILENAME \<noteq> 0" using assms by (simp_all add: MAX_FILENAME_def)
  then show "cstr (safe_strcpy (replicate MAX_FILENAME 0) nm MAX_FILENAME) = cstr nm"
    using cstr_append_zero [OF zero_notin_cstr] by (simp add: safe_strcpy_def Let_def)
  show "length (safe_strcpy (replicate MAX_FILENAME 0) nm MAX_FILENAME) = MAX_FILENAME"
    using t assms by (simp add: safe_strcpy_def Let_def)
qed

lemma free_slot_SomeD:
  assumes "free_slot tab = Some i"
  shows "i < length tab" "is_used (tab ! i) = 0" "\<not> used tab i" "0 < i"
  using find_upt_SomeD(1-3) [OF assms [unfolded free_slot_def]] by (simp_all add: used_def)

lemma dir_ok_update:
  assumes ok: "dir_ok tab tot" "i < length tab" and e: "is_used e = 0 \<or> is_used e = 1" "wf_entry e"
    and "tree_ok (tab[i := e]) tot" "names_unique (tab[i := e])"
  shows "dir_ok (tab[i := e]) tot"
  using assms set_update_subset_insert [of tab i e] unfolding dir_ok_def by auto

lemma chains_ok_update:
  assumes ok: "chains_ok cb fat tab" "i < length tab"
    and e: "is_used e = 1 \<Longrightarrow> good_entry cb fat e"
      "\<And>j. is_used e = 1 \<Longrightarrow> used tab j \<Longrightarrow> j \<noteq> i \<Longrightarrow> set (clusters_of fat e) \<inter> set (clusters_of fat (tab ! j)) = {}"
  shows "chains_ok cb fat (tab[i := e])"
  using assms unfolding chains_ok_def used_update by (auto simp: nth_list_update Int_commute)

text \<open>Putting an entry into a free slot.\<close>

lemma insert_entry:
  assumes inv: "fs_inv E plat s" and i: "free_slot (dir_table s) = Some i" and none: "find_used1 (dir_table s) nm p = None"
    and p: "fs_dir_exists (dir_table s) p"
    and e: "is_used e = 1" "wf_entry e" "entry_id e = of_nat i" "parent_id e = p" "cstr (filename e) = cstr nm"
      "file_type e = FT_REGULAR \<and> FS_FIRST_DATA_CLUSTER \<le> unat (start_cluster e) \<and> start_cluster e < fs_total_clusters s \<or>
       file_type e = FT_DIR \<and> start_cluster e = 0"
      "good_entry (512 * csecs s) (file_allocation_table s) e"
      "\<And>j. used (dir_table s) j \<Longrightarrow> set (clusters_of (file_allocation_table s) e) \<inter> set (clusters_of (file_allocation_table s) (dir_table s ! j)) = {}"
  defines "s' \<equiv> save_directory_to_disk E (s\<lparr>dir_table := (dir_table s)[i := e]\<rparr>)"
  shows "fs_inv E plat s' \<and> fs_abs E plat s' = put (fs_abs E plat s) p nm (Some (abs_node s (fview E plat s) e))"
proof -
  let ?tab = "dir_table s" and ?tab' = "(dir_table s)[i := e]"
  note d = fs_invD [OF inv] and fr = free_slot_SomeD [OF i]
  have "entry_ok ?tab' (fs_total_clusters s) i" using e(3,6) fr(1) by (auto simp: entry_ok_def)
  then have t: "tree_ok ?tab' (fs_total_clusters s)"
    using dir_exists_reach [OF d(6,7) p] e(4) fr
    by (intro tree_ok_update [OF d(6) fr(1)]) (auto simp: is_dir_def)
  have u: "names_unique ?tab'"
    using none e(4,5) unfolding find_used1_None names_def
    by (intro names_unique_update [OF d(5) fr(1)]) auto
  have ok: "dir_ok ?tab' (fs_total_clusters s)" using dir_ok_update [OF d(4) fr(1) _ e(2) t u] e(1) by simp
  have ch: "chains_ok (512 * csecs s) (file_allocation_table s) ?tab'"
    using e(7,8) by (intro chains_ok_update [OF d(8) fr(1)])
  note c = dir_commit [OF inv _ ok ch, folded s'_def]
  have node: "abs_node s' (fview E plat s') (?tab' ! j) = abs_node s (fview E plat s) (?tab' ! j)" if "used ?tab' j" for j
    using c(2) [OF _ that] by simp
  have "fs_abs E plat s' q m = put (fs_abs E plat s) p nm (Some (abs_node s (fview E plat s) e)) q m" for q m
  proof -
    have ne: "find_used1 ?tab m q \<noteq> Some i" using fr(3) find_used1_SomeD [of ?tab m q i] by blast
    have dt: "dir_table s' = ?tab'" by (simp add: s'_def)
    show ?thesis
    proof (cases "q = p \<and> cstr m = cstr nm")
      case True
      then have f: "find_used1 ?tab' m q = Some i" using e find_update [OF d(5) u fr(1)] by simp
      then show ?thesis using True fr(1) node [of i] find_used1_SomeD [OF f] unfolding fs_abs_def dt put_def by simp
    next
      case False
      then have f: "find_used1 ?tab' m q = find_used1 ?tab m q" using e ne find_update [OF d(5) u fr(1)] by auto
      show ?thesis
      proof (cases "find_used1 ?tab m q")
        case None
        then show ?thesis using False f unfolding fs_abs_def dt put_def by simp
      next
        case (Some j)
        then have "used ?tab' j" "j \<noteq> i" using f find_used1_SomeD [of ?tab' m q j] ne by auto
        then show ?thesis using False f Some node [of j] unfolding fs_abs_def dt put_def by auto
      qed
    qed
  qed
  then show ?thesis using c(1) by (simp add: fun_eq_iff)
qed

lemma mkdir_refines:
  assumes inv: "fs_inv E plat s" and op: "fs_mkdir E s nm p = (st, s')"
  shows "fs_inv E plat s' \<and> fs_abs E plat s' = (if st = None then put (fs_abs E plat s) p nm (Some Dir_node) else fs_abs E plat s)"
proof (cases "fs_mounted s \<and> \<not> SEC_LEVEL_IMMUTABLE \<le> current_sec_level E \<and> length (cstr nm) < MAX_FILENAME \<and>
    fs_dir_exists (dir_table s) p \<and> fs_get_entry_idx (dir_table s) nm p = None \<and> free_slot (dir_table s) \<noteq> None")
  case False
  then have "s' = s \<and> st \<noteq> None" using op by (auto simp: fs_mkdir_def split: if_splits option.splits)
  then show ?thesis using inv by auto
next
  case True
  then obtain i where i: "free_slot (dir_table s) = Some i" by blast
  define e where "e = new_entry E (dir_table s ! i) nm 0 0 i p FT_DIR FS_MODE_DEFAULT_DIR"
  have s': "s' = save_directory_to_disk E (s\<lparr>dir_table := (dir_table s)[i := e]\<rparr>)" "st = None"
    using op True i by (auto simp: fs_mkdir_def e_def)
  have none: "find_used1 (dir_table s) nm p = None" using True get_entry_idx_used1 [OF fs_invD(4) [OF inv]] by simp
  have fn: "cstr (filename e) = cstr nm" "wf_entry e" using cstr_filename True by (simp_all add: e_def new_entry_def wf_entry_def)
  have "fs_inv E plat s' \<and> fs_abs E plat s' = put (fs_abs E plat s) p nm (Some (abs_node s (fview E plat s) e))"
    unfolding s'(1) using True fn
    by (intro insert_entry [OF inv i none]) (simp_all add: e_def new_entry_def good_entry_def clusters_of_def)
  then show ?thesis using s'(2) by (simp add: abs_node_def e_def new_entry_def)
qed

text \<open>Changing an entry without moving it or its data.\<close>

lemma modify_entry:
  assumes inv: "fs_inv E plat s" and i: "used (dir_table s) i" and fields: "is_used e = 1" "wf_entry e"
      "entry_id e = entry_id (dir_table s ! i)" "parent_id e = parent_id (dir_table s ! i)" "file_type e = file_type (dir_table s ! i)"
      "start_cluster e = start_cluster (dir_table s ! i)" "file_size e = file_size (dir_table s ! i)"
    and new: "cstr (filename e) = cstr (filename (dir_table s ! i)) \<or> find_used1 (dir_table s) (filename e) (parent_id e) = None"
  defines "s' \<equiv> save_directory_to_disk E (s\<lparr>dir_table := (dir_table s)[i := e]\<rparr>)"
  shows "fs_inv E plat s'"
    "fs_abs E plat s' = put (put (fs_abs E plat s) (parent_id e) (filename (dir_table s ! i)) None) (parent_id e) (filename e)
       (Some (abs_node s (fview E plat s) (dir_table s ! i)))"
proof -
  let ?tab = "dir_table s" and ?tab' = "(dir_table s)[i := e]"
  note d = fs_invD [OF inv]
  have lt: "i < length ?tab" "is_used (?tab ! i) = 1" using i by (simp_all add: used_def)
  have old: "entry_ok ?tab (fs_total_clusters s) i" "reach_root ?tab (parent_id (?tab ! i))"
    using d(6) lt by (simp_all add: tree_ok_def)
  have t: "tree_ok ?tab' (fs_total_clusters s)"
    using old fields lt by (intro tree_ok_update [OF d(6) lt(1)]) (auto simp: entry_ok_def is_dir_def)
  have uniq: "parent_id (?tab ! j) = parent_id (?tab ! i) \<Longrightarrow> cstr (filename (?tab ! j)) = cstr (filename (?tab ! i)) \<Longrightarrow> used ?tab j \<Longrightarrow> j = i" for j
    using d(5) i unfolding names_unique_def by blast
  have u: "names_unique ?tab'"
    using new uniq fields(4) unfolding find_used1_None names_def
    by (intro names_unique_update [OF d(5) lt(1)]) (metis lt(1))
  have ok: "dir_ok ?tab' (fs_total_clusters s)" using dir_ok_update [OF d(4) lt(1) _ fields(2) t u] fields(1) by simp
  have same: "clusters_of (file_allocation_table s) e = clusters_of (file_allocation_table s) (?tab ! i)"
    "good_entry cb (file_allocation_table s) e = good_entry cb (file_allocation_table s) (?tab ! i)" for cb
    using fields by (simp_all add: clusters_of_def good_entry_def)
  have ch: "chains_ok (512 * csecs s) (file_allocation_table s) ?tab'"
    using d(8) i same by (intro chains_ok_update [OF d(8) lt(1)]) (auto simp: chains_ok_def)
  note c = dir_commit [OF inv _ ok ch, folded s'_def]
  show "fs_inv E plat s'" using c(1) by simp
  have ae: "abs_node s (fview E plat s) e = abs_node s (fview E plat s) (?tab ! i)"
    using fields same(1) by (simp add: abs_node_def entry_bytes_def)
  have node: "abs_node s' (fview E plat s') (?tab' ! j) = abs_node s (fview E plat s) (?tab ! j)" if "used ?tab' j" for j
    using c(2) [OF _ that] ae lt(1) by (cases "j = i") simp_all
  show "fs_abs E plat s' = put (put (fs_abs E plat s) (parent_id e) (filename (?tab ! i)) None) (parent_id e) (filename e)
       (Some (abs_node s (fview E plat s) (?tab ! i)))"
  proof (intro ext)
    fix q m
    have dt: "dir_table s' = ?tab'" by (simp add: s'_def)
    have fi: "find_used1 ?tab m q = Some i \<longleftrightarrow> q = parent_id e \<and> cstr m = cstr (filename (?tab ! i))"
      using find_used1_iff [OF d(5)] i fields(4) by (auto simp: names_def)
    have f: "find_used1 ?tab' m q = (if q = parent_id e \<and> cstr m = cstr (filename e) then Some i
        else if q = parent_id e \<and> cstr m = cstr (filename (?tab ! i)) then None else find_used1 ?tab m q)"
      using find_update [OF d(5) u lt(1), of m q] fields(1) fi by auto
    have "abs_node s' (fview E plat s') (?tab' ! j) = abs_node s (fview E plat s) (?tab ! j)" if "find_used1 ?tab' m q = Some j" for j
      using node find_used1_SomeD [OF that] by blast
    then have "fs_abs E plat s' q m = map_option (\<lambda>j. abs_node s (fview E plat s) (?tab ! j)) (find_used1 ?tab' m q)"
      unfolding fs_abs_def dt by (cases "find_used1 ?tab' m q") simp_all
    then show "fs_abs E plat s' q m = put (put (fs_abs E plat s) (parent_id e) (filename (?tab ! i)) None) (parent_id e) (filename e)
       (Some (abs_node s (fview E plat s) (?tab ! i))) q m"
      unfolding f by (simp add: put_def fs_abs_def)
  qed
qed

lemma rename_refines:
  assumes inv: "fs_inv E plat s" and op: "fs_rename E s old_nm new_nm p = (st, s')"
  shows "fs_inv E plat s' \<and>
    (if st = None then fs_abs E plat s p old_nm \<noteq> None \<and> fs_abs E plat s p new_nm = None \<and>
       fs_abs E plat s' = put (put (fs_abs E plat s) p old_nm None) p new_nm (fs_abs E plat s p old_nm)
     else s' = s)"
proof (cases "fs_mounted s \<and> length (cstr new_nm) < MAX_FILENAME \<and> \<not> SEC_LEVEL_IMMUTABLE \<le> current_sec_level E \<and>
    find_used1 (dir_table s) new_nm p = None \<and> find_used1 (dir_table s) old_nm p \<noteq> None")
  case False
  then have "s' = s \<and> st \<noteq> None" using op by (auto simp: fs_rename_def split: if_splits option.splits)
  then show ?thesis using inv by auto
next
  case True
  then obtain i where i: "find_used1 (dir_table s) old_nm p = Some i" by blast
  define e where "e = (dir_table s ! i)\<lparr>filename := safe_strcpy (replicate MAX_FILENAME 0) new_nm MAX_FILENAME, ctime := now E\<rparr>"
  have s': "s' = save_directory_to_disk E (s\<lparr>dir_table := (dir_table s)[i := e]\<rparr>)" "st = None"
    using op True i by (auto simp: fs_rename_def e_def)
  have u: "used (dir_table s) i" "names (dir_table s) old_nm p i" using find_used1_SomeD [OF i] by simp_all
  have fn: "cstr (filename e) = cstr new_nm" "wf_entry e" using cstr_filename True by (simp_all add: e_def wf_entry_def)
  have p: "parent_id e = p" "parent_id (dir_table s ! i) = p" "cstr (filename (dir_table s ! i)) = cstr old_nm"
    using u(2) by (simp_all add: names_def e_def)
  have "find_used1 (dir_table s) (filename e) (parent_id e) = None"
    using True fn(1) p unfolding find_used1_None names_def by simp
  then have m: "fs_inv E plat s'"
    "fs_abs E plat s' = put (put (fs_abs E plat s) (parent_id e) (filename (dir_table s ! i)) None) (parent_id e) (filename e)
       (Some (abs_node s (fview E plat s) (dir_table s ! i)))"
    unfolding s'(1) using u(1) fn(2) by (intro modify_entry [OF inv u(1)]; simp add: e_def used_def)+
  have "fs_abs E plat s p old_nm = Some (abs_node s (fview E plat s) (dir_table s ! i))" "fs_abs E plat s p new_nm = None"
    using i True by (simp_all add: fs_abs_def)
  then show ?thesis using m s'(2) p fn(1) by (simp add: put_def)
qed

lemma put_same:
  assumes "m p nm = v" "\<And>p nm nm'. cstr nm = cstr nm' \<Longrightarrow> m p nm = m p nm'"
  shows "put (put m p nm w) p nm v = m"
proof (intro ext)
  fix q n
  show "put (put m p nm w) p nm v q n = m q n"
    using assms(1) assms(2) [of n nm p] by (cases "q = p \<and> cstr n = cstr nm") (auto simp: put_def)
qed

lemma fs_abs_cstr: "cstr nm = cstr nm' \<Longrightarrow> fs_abs E plat s p nm = fs_abs E plat s p nm'"
  by (simp add: fs_abs_def find_used1_def names_def)

lemma modify_attributes:
  assumes inv: "fs_inv E plat s" and i: "used (dir_table s) i" and fields: "is_used e = 1" "filename e = filename (dir_table s ! i)"
      "entry_id e = entry_id (dir_table s ! i)" "parent_id e = parent_id (dir_table s ! i)" "file_type e = file_type (dir_table s ! i)"
      "start_cluster e = start_cluster (dir_table s ! i)" "file_size e = file_size (dir_table s ! i)"
  defines "s' \<equiv> save_directory_to_disk E (s\<lparr>dir_table := (dir_table s)[i := e]\<rparr>)"
  shows "fs_inv E plat s' \<and> fs_abs E plat s' = fs_abs E plat s"
proof -
  note d = fs_invD [OF inv]
  have "dir_table s ! i \<in> set (dir_table s)" using i by (simp add: used_def)
  then have w: "wf_entry e" using d(4) fields(2) by (simp add: dir_ok_def wf_entry_def)
  note m = modify_entry [OF inv i fields(1) w fields(3-7), folded s'_def]
  have f: "find_used1 (dir_table s) (filename (dir_table s ! i)) (parent_id (dir_table s ! i)) = Some i"
    using i unfolding find_used1_iff [OF d(5)] by (simp add: names_def)
  have "fs_abs E plat s (parent_id e) (filename e) = Some (abs_node s (fview E plat s) (dir_table s ! i))"
    unfolding fields(2,4) fs_abs_def f by simp
  then have "put (put (fs_abs E plat s) (parent_id e) (filename e) None) (parent_id e) (filename e)
       (Some (abs_node s (fview E plat s) (dir_table s ! i))) = fs_abs E plat s"
    by (rule put_same) (rule fs_abs_cstr)
  then show ?thesis using m fields(2) by simp
qed

lemma slot_of_used:
  assumes "dir_ok tab tot" "fs_slot_of tab e = Some i"
  shows "used tab i"
proof -
  note f = find_upt_SomeD(1-3) [OF assms(2) [unfolded fs_slot_of_def]]
  then show ?thesis using used_flag [OF assms(1) f(2)] by (simp add: used_def)
qed

lemma chmod_refines:
  assumes inv: "fs_inv E plat s" and op: "fs_chmod E s x md = (st, s')"
  shows "fs_inv E plat s' \<and> fs_abs E plat s' = fs_abs E plat s"
proof (cases "fs_mounted s \<and> \<not> SEC_LEVEL_IMMUTABLE \<le> current_sec_level E \<and> fs_slot_of (dir_table s) x \<noteq> None")
  case False
  then have "s' = s" using op by (auto simp: fs_chmod_def split: if_splits option.splits)
  then show ?thesis using inv by simp
next
  case True
  then obtain i where i: "fs_slot_of (dir_table s) x = Some i" by blast
  have u: "used (dir_table s) i" by (rule slot_of_used [OF fs_invD(4) [OF inv] i])
  have "s' = save_directory_to_disk E (s\<lparr>dir_table := (dir_table s)[i := (dir_table s ! i)\<lparr>mode := md AND FS_MODE_PERM_MASK, ctime := now E\<rparr>]\<rparr>)"
    using op True i by (auto simp: fs_chmod_def)
  then show ?thesis using u modify_attributes [OF inv u] by (simp add: used_def)
qed

lemma chown_refines:
  assumes inv: "fs_inv E plat s" and op: "fs_chown E s x uid gid = (st, s')"
  shows "fs_inv E plat s' \<and> fs_abs E plat s' = fs_abs E plat s"
proof (cases "fs_mounted s \<and> \<not> SEC_LEVEL_IMMUTABLE \<le> current_sec_level E \<and> fs_slot_of (dir_table s) x \<noteq> None")
  case False
  then have "s' = s" using op by (auto simp: fs_chown_def split: if_splits option.splits)
  then show ?thesis using inv by simp
next
  case True
  then obtain i where i: "fs_slot_of (dir_table s) x = Some i" by blast
  have u: "used (dir_table s) i" by (rule slot_of_used [OF fs_invD(4) [OF inv] i])
  have "s' = save_directory_to_disk E (s\<lparr>dir_table := (dir_table s)[i := (dir_table s ! i)\<lparr>owner_uid := uid, owner_gid := gid, ctime := now E\<rparr>]\<rparr>)"
    using op True i by (auto simp: fs_chown_def)
  then show ?thesis using u modify_attributes [OF inv u] by (simp add: used_def)
qed

subsection \<open>Deleting\<close>

lemma delete_tree:
  assumes ok: "dir_ok tab tot" and i: "used tab i" and nc: "\<not> (file_type (tab ! i) = FT_DIR \<and> has_child tab i)"
    and e: "is_used e = 0"
  shows "tree_ok (tab[i := e]) tot"
proof (rule tree_ok_remove)
  show t: "tree_ok tab tot" using ok by (simp add: dir_ok_def)
  show lt: "i < length tab" using i by (simp add: used_def)
  show "is_used e = 0" by (rule e)
  fix j
  assume j: "j < length tab" "is_used (tab ! j) \<noteq> 0" "parent_id (tab ! j) \<noteq> 0"
  have "reach_root tab (parent_id (tab ! j))" using t j by (simp add: tree_ok_def)
  then have dir: "is_dir tab (parent_id (tab ! j))" using j(3) by (cases rule: reach_root.cases) simp_all
  show "unat (parent_id (tab ! j)) \<noteq> i"
  proof
    assume eq: "unat (parent_id (tab ! j)) = i"
    have "is_used (tab ! j) = 1" using used_flag [OF ok j(1)] j(2) by simp
    moreover have "parent_id (tab ! j) = entry_id (tab ! i)" "file_type (tab ! i) = FT_DIR"
      using dir eq by (auto simp: is_dir_def)
    ultimately show False using nc j(1) unfolding has_child_def find_upt_None by auto
  qed
qed

lemma free_entry_chain:
  assumes good: "good_entry cb fat e" and len: "length fat = unat tot"
  shows "length (free_chain fat tot (start_cluster e)) = length fat"
    "x \<notin> set (clusters_of fat e) \<Longrightarrow> free_chain fat tot (start_cluster e) ! unat x = fat ! unat x"
proof -
  let ?cs = "clusters_of fat e"
  have "length (free_chain fat tot (start_cluster e)) = length fat \<and>
    free_chain fat tot (start_cluster e) ! unat x = (if \<exists>y \<in> set ?cs. unat y = unat x then FAT_FREE else fat ! unat x)"
  proof (cases "start_cluster e = 0")
    case True
    then show ?thesis by (simp add: free_chain.simps clusters_of_def)
  next
    case False
    then have "chain fat (start_cluster e) ?cs" using good by (simp add: good_entry_def)
    then show ?thesis using len by (rule free_chain_spec)
  qed
  then show "length (free_chain fat tot (start_cluster e)) = length fat"
    "x \<notin> set ?cs \<Longrightarrow> free_chain fat tot (start_cluster e) ! unat x = fat ! unat x"
    by (auto simp flip: word_unat_eq_iff)
qed

lemma delete_entry:
  assumes inv: "fs_inv E plat s" and i: "used (dir_table s) i"
    and nc: "\<not> (file_type (dir_table s ! i) = FT_DIR \<and> has_child (dir_table s) i)"
    and e: "is_used e = 0" "wf_entry e"
  defines "fat \<equiv> free_chain (file_allocation_table s) (fs_total_clusters s) (start_cluster (dir_table s ! i))"
  defines "s1 \<equiv> save_fat_to_disk E (s\<lparr>file_allocation_table := fat\<rparr>)"
  defines "s' \<equiv> save_directory_to_disk E (s1\<lparr>dir_table := (dir_table s)[i := e]\<rparr>)"
  shows "fs_inv E plat s'"
    "fs_abs E plat s' = put (fs_abs E plat s) (parent_id (dir_table s ! i)) (filename (dir_table s ! i)) None"
proof -
  let ?tab = "dir_table s" and ?tab' = "(dir_table s)[i := e]" and ?fat = "file_allocation_table s" and ?cb = "512 * csecs s"
  note d = fs_invD [OF inv]
  have lt: "i < length ?tab" using i by (simp add: used_def)
  have good: "good_entry ?cb ?fat (?tab ! j)" if "used ?tab j" for j using d(8) that by (simp add: chains_ok_def)
  note fc = free_entry_chain [OF good [OF i] d(3), folded fat_def]
  have keep: "clusters_of fat (?tab ! j) = clusters_of ?fat (?tab ! j)" "good_entry ?cb fat (?tab ! j)"
    if "used ?tab j" "j \<noteq> i" for j
  proof -
    have "set (clusters_of ?fat (?tab ! j)) \<inter> set (clusters_of ?fat (?tab ! i)) = {}"
      using d(8) i that unfolding chains_ok_def by blast
    then have "fat ! unat x = ?fat ! unat x" if "x \<in> set (clusters_of ?fat (?tab ! j))" for x using fc(2) that by blast
    from good_entry_cong [OF good [OF that(1)] fc(1) this]
    show "clusters_of fat (?tab ! j) = clusters_of ?fat (?tab ! j)" "good_entry ?cb fat (?tab ! j)" by blast+
  qed
  have d1: "disk_inv E plat (s\<lparr>file_allocation_table := fat\<rparr>)" using disk_inv_tables(2) [OF d(1) fc(1)] .
  note k1 = save_fat_keeps [OF d1, folded s1_def]
  have s1: "dir_table s1 = ?tab" "file_allocation_table s1 = fat" "fs_total_clusters s1 = fs_total_clusters s" "fs_super s1 = fs_super s"
    by (simp_all add: s1_def)
  have d2: "disk_inv E plat (s1\<lparr>dir_table := ?tab'\<rparr>)" using disk_inv_tables(1) [OF k1(1)] s1(1) by simp
  note k2 = save_dir_keeps [OF d2, folded s'_def]
  have s': "dir_table s' = ?tab'" "file_allocation_table s' = fat" "fs_total_clusters s' = fs_total_clusters s" "fs_super s' = fs_super s"
    by (simp_all add: s'_def s1)
  have fs: "fat_synced E plat s'" using k1(2) k2(3) by (simp add: fat_synced_def fat_sectors_needed_def)
  have u: "names_unique ?tab'" using e(1) by (intro names_unique_update [OF d(5) lt]) simp
  have ok: "dir_ok ?tab' (fs_total_clusters s)"
    using delete_tree [OF d(4) i nc e(1)] e u by (intro dir_ok_update [OF d(4) lt]) simp_all
  have used': "used ?tab' j \<longleftrightarrow> used ?tab j \<and> j \<noteq> i" for j using e(1) by (auto simp: used_update)
  have ch: "chains_ok ?cb fat ?tab'"
    unfolding chains_ok_def used' using keep d(8) unfolding chains_ok_def by simp
  show "fs_inv E plat s'" using k2(1,2) fs ok ch s' by (simp add: fs_inv_def)
  have sd: "same_data E plat s s'"
    using same_data_trans [OF same_data_trans [OF same_data_tables(2) k1(4)] same_data_trans [OF same_data_tables(1) k2(4)]] .
  have node: "abs_node s' (fview E plat s') (?tab' ! j) = abs_node s (fview E plat s) (?tab ! j)" if "used ?tab' j" for j
    using abs_node_same [OF sd good] keep(1) d(3) that s'(2) unfolding used' by simp
  show "fs_abs E plat s' = put (fs_abs E plat s) (parent_id (?tab ! i)) (filename (?tab ! i)) None"
  proof (intro ext)
    fix q m
    have fi: "find_used1 ?tab m q = Some i \<longleftrightarrow> q = parent_id (?tab ! i) \<and> cstr m = cstr (filename (?tab ! i))"
      using find_used1_iff [OF d(5)] i by (auto simp: names_def)
    have f: "find_used1 ?tab' m q = (if q = parent_id (?tab ! i) \<and> cstr m = cstr (filename (?tab ! i)) then None else find_used1 ?tab m q)"
      using find_update [OF d(5) u lt, of m q] e(1) fi by auto
    have "abs_node s' (fview E plat s') (?tab' ! j) = abs_node s (fview E plat s) (?tab ! j)" if "find_used1 ?tab' m q = Some j" for j
      using node find_used1_SomeD [OF that] by blast
    then have "fs_abs E plat s' q m = map_option (\<lambda>j. abs_node s (fview E plat s) (?tab ! j)) (find_used1 ?tab' m q)"
      unfolding fs_abs_def s'(1) by (cases "find_used1 ?tab' m q") simp_all
    then show "fs_abs E plat s' q m = put (fs_abs E plat s) (parent_id (?tab ! i)) (filename (?tab ! i)) None q m"
      unfolding f by (simp add: put_def fs_abs_def)
  qed
qed

lemma delete_refines:
  assumes inv: "fs_inv E plat s" and op: "fs_delete E s nm p = (st, s')"
  shows "fs_inv E plat s' \<and>
    (if st = None then fs_abs E plat s p nm \<noteq> None \<and> fs_abs E plat s' = put (fs_abs E plat s) p nm None else s' = s)"
proof (cases "fs_mounted s \<and> \<not> SEC_LEVEL_IMMUTABLE \<le> current_sec_level E \<and> find_used1 (dir_table s) nm p \<noteq> None \<and>
    \<not> (file_type (dir_table s ! the (find_used1 (dir_table s) nm p)) = FT_DIR \<and> has_child (dir_table s) (the (find_used1 (dir_table s) nm p)))")
  case False
  then have "s' = s \<and> st \<noteq> None" using op by (auto simp: fs_delete_def split: if_splits option.splits)
  then show ?thesis using inv by auto
next
  case True
  then obtain i where i: "find_used1 (dir_table s) nm p = Some i" by blast
  have u: "used (dir_table s) i" "parent_id (dir_table s ! i) = p" "cstr (filename (dir_table s ! i)) = cstr nm"
    using find_used1_SomeD [OF i] by (simp_all add: names_def)
  define e where "e = (dir_table s ! i)\<lparr>is_used := 0, filename := replicate MAX_FILENAME 0\<rparr>"
  have s': "s' = save_directory_to_disk E ((save_fat_to_disk E (s\<lparr>file_allocation_table :=
        free_chain (file_allocation_table s) (fs_total_clusters s) (start_cluster (dir_table s ! i))\<rparr>))\<lparr>dir_table := (dir_table s)[i := e]\<rparr>)"
    "st = None" using op True i by (auto simp: fs_delete_def e_def)
  have "fs_inv E plat s' \<and> fs_abs E plat s' = put (fs_abs E plat s) (parent_id (dir_table s ! i)) (filename (dir_table s ! i)) None"
    unfolding s'(1) using True i by (intro conjI delete_entry [OF inv u(1)]) (simp_all add: e_def wf_entry_def)
  then show ?thesis using s'(2) u i by (simp add: put_def fs_abs_def)
qed

subsection \<open>Creating\<close>

lemma fs_abs_same:
  assumes "dir_table s' = dir_table s"
    and "\<And>j. used (dir_table s) j \<Longrightarrow> abs_node s' (fview E plat s') (dir_table s ! j) = abs_node s (fview E plat s) (dir_table s ! j)"
  shows "fs_abs E plat s' = fs_abs E plat s"
proof (intro ext)
  fix p nm
  show "fs_abs E plat s' p nm = fs_abs E plat s p nm"
    using assms find_used1_SomeD [of "dir_table s" nm p] by (cases "find_used1 (dir_table s) nm p") (simp_all add: fs_abs_def)
qed

lemma fat_commit:
  assumes inv: "fs_inv E plat s" and len: "length fat = length (file_allocation_table s)"
    and keep: "\<And>j x. used (dir_table s) j \<Longrightarrow> x \<in> set (clusters_of (file_allocation_table s) (dir_table s ! j)) \<Longrightarrow>
      fat ! unat x = file_allocation_table s ! unat x"
  defines "s' \<equiv> save_fat_to_disk E (s\<lparr>file_allocation_table := fat\<rparr>)"
  shows "fs_inv E plat s'" "fs_abs E plat s' = fs_abs E plat s"
    "used (dir_table s) j \<Longrightarrow> clusters_of fat (dir_table s ! j) = clusters_of (file_allocation_table s) (dir_table s ! j)"
proof -
  let ?tab = "dir_table s" and ?fat = "file_allocation_table s"
  note d = fs_invD [OF inv]
  have good: "good_entry (512 * csecs s) ?fat (?tab ! j)" if "used ?tab j" for j using d(8) that by (simp add: chains_ok_def)
  note cong = good_entry_cong [OF good len keep]
  show cl: "clusters_of fat (?tab ! j) = clusters_of ?fat (?tab ! j)" if "used ?tab j" for j using cong(1) [OF that that] by blast
  have ge: "good_entry (512 * csecs s) fat (?tab ! j)" if "used ?tab j" for j using cong(2) [OF that that] by blast
  have d1: "disk_inv E plat (s\<lparr>file_allocation_table := fat\<rparr>)" using disk_inv_tables(2) [OF d(1) len] .
  note k = save_fat_keeps [OF d1, folded s'_def]
  have s': "dir_table s' = ?tab" "file_allocation_table s' = fat" "fs_total_clusters s' = fs_total_clusters s" "fs_super s' = fs_super s"
    by (simp_all add: s'_def)
  have "dir_synced E plat s'" using k(3) inv by (simp add: fs_inv_def dir_synced_def)
  moreover have "chains_ok (512 * csecs s) fat ?tab" using ge cl d(8) unfolding chains_ok_def by simp
  ultimately show "fs_inv E plat s'" using k(1,2) d(4) s' by (simp add: fs_inv_def)
  have sd: "same_data E plat s s'" using same_data_trans [OF same_data_tables(2) k(4)] .
  show "fs_abs E plat s' = fs_abs E plat s"
    using abs_node_same [OF sd good] cl d(3) s' by (intro fs_abs_same) simp_all
qed

lemma data_commit:
  fixes content :: "u8 list"
  assumes inv: "fs_inv E plat s" and cs: "distinct cs" "\<forall>c \<in> set cs. c < fs_total_clusters s"
    and free: "\<And>j. used (dir_table s) j \<Longrightarrow> set cs \<inter> set (clusters_of (file_allocation_table s) (dir_table s ! j)) = {}"
  defines "s' \<equiv> do_writes E (data_writes s content cs 0) s"
  shows "fs_inv E plat s'" "fs_abs E plat s' = fs_abs E plat s"
    "concat (map (cdata s' (fview E plat s')) cs) = concat (map (\<lambda>i. sector_chunk content (512 * i)) [0..<csecs s * length cs])"
proof -
  let ?ws = "data_writes s content cs 0" and ?tab = "dir_table s" and ?fat = "file_allocation_table s"
  note d = fs_invD [OF inv]
  have ok: "fs_ok E plat s" "sectors_full s (fview E plat s)" "512 \<le> length (heap_after_fat E)" using d(1) by (simp_all add: disk_inv_def)
  have sec: "\<exists>c k. c < fs_total_clusters s \<and> k < csecs s \<and> r = dsec s c k" if "(r, b) \<in> set ?ws" for r b
    using data_writes_sectors [OF that] cs(2) by blast
  have "\<forall>(r, b) \<in> set ?ws. r < fs_max_sectors s" using sec dsec_less [OF d(2)] by fast
  note v = do_writes_view [OF ok(1) this, folded s'_def]
  have s': "dir_table s' = ?tab" "file_allocation_table s' = ?fat" "fs_total_clusters s' = fs_total_clusters s" "fs_super s' = fs_super s"
    "fs_max_sectors s' = fs_max_sectors s" "fs_part_start s' = fs_part_start s"
    by (simp_all add: s'_def)
  have g: "geom_ok s'" "dsec s' = dsec s" "cdata s' = cdata s" "fat_sectors_needed s' = fat_sectors_needed s"
    using d(2) s' by (simp_all add: geom_ok_def fat_sectors_needed_def fun_eq_iff dsec_def fs_cluster_to_sector_def cdata_def)
  have full: "sectors_full s (fview E plat s')"
    unfolding v(2) using data_writes_sectors by (intro sectors_full_apply [OF ok(2)]) fast
  then have di: "disk_inv E plat s'" using v(1) g(1) ok(3) s'(5) by (simp add: disk_inv_def sectors_full_def)
  have out: "fview E plat s' r = fview E plat s r" if "in_dir s r \<or> in_fat s r" for r
    unfolding v(2)
  proof (rule apply_writes_other, rule notI)
    assume "r \<in> fst ` set ?ws"
    then obtain b where "(r, b) \<in> set ?ws" by auto
    then show False using sec [of r b] dsec_outside [OF d(2)] that by blast
  qed
  have "dir_synced E plat s'"
    using inv out dir_index_in [OF d(2)] s' unfolding fs_inv_def dir_synced_def by simp
  moreover have "fat_synced E plat s'"
    using inv out fat_index_in [OF d(2)] s' g(4) unfolding fs_inv_def fat_synced_def by simp
  ultimately show "fs_inv E plat s'" using di d(4,8) s' by (simp add: fs_inv_def)
  have good: "good_entry (512 * csecs s) ?fat (?tab ! j)" if "used ?tab j" for j using d(8) that by (simp add: chains_ok_def)
  have cd: "cdata s' (fview E plat s') c = cdata s (fview E plat s) c" if c: "c < fs_total_clusters s" "c \<notin> set cs" for c
    unfolding g(3) v(2) using apply_data_writes_other [OF d(2) cs(2) c] by (rule cdata_cong)
  show "fs_abs E plat s' = fs_abs E plat s"
  proof (rule fs_abs_same [OF s'(1)])
    fix j assume j: "used ?tab j"
    have "c < fs_total_clusters s \<and> c \<notin> set cs" if "c \<in> set (clusters_of ?fat (?tab ! j))" for c
      using good_entry_range [OF good [OF j] that] d(3) free [OF j] that by (auto simp: word_less_nat_alt)
    then have "map (cdata s' (fview E plat s')) (clusters_of ?fat (?tab ! j)) = map (cdata s (fview E plat s)) (clusters_of ?fat (?tab ! j))"
      using cd by (intro map_cong) auto
    then show "abs_node s' (fview E plat s') (?tab ! j) = abs_node s (fview E plat s) (?tab ! j)"
      unfolding abs_node_def entry_bytes_def s'(2) by (simp only:)
  qed
  show "concat (map (cdata s' (fview E plat s')) cs) = concat (map (\<lambda>i. sector_chunk content (512 * i)) [0..<csecs s * length cs])"
    unfolding g(3) v(2) using cdata_writes [OF d(2) cs, of content 0] by simp
qed

definition clusters_needed :: "'w fs_state \<Rightarrow> u32 \<Rightarrow> nat" where
  "clusters_needed s sz = (if sz = 0 then 1 else (unat sz + 512 * csecs s - 1) div (512 * csecs s))"

lemma clusters_needed_word:
  assumes "geom_ok s" "unat sz + 512 * csecs s < 4294967296"
  defines "need \<equiv> if sz = 0 then 1 else (sz + cluster_bytes s - 1) div cluster_bytes s"
  shows "unat need = clusters_needed s sz" "need \<noteq> 0" "unat sz \<le> 512 * csecs s * unat need"
proof -
  have cb: "0 < 512 * csecs s" using assms(1) by (simp add: geom_ok_def)
  have sum: "unat (sz + cluster_bytes s) = unat sz + 512 * csecs s"
    using assms(2) unat_add_u32 [of sz "cluster_bytes s"] by (simp add: unat_cluster_bytes)
  have "sz + cluster_bytes s \<noteq> 0" using sum cb by (metis add_is_0 less_not_refl2 unat_eq_zero)
  then have "unat (sz + cluster_bytes s - 1) = unat sz + 512 * csecs s - 1" using sum by (simp add: unat_minus_one)
  then show u: "unat need = clusters_needed s sz"
    by (simp add: need_def clusters_needed_def unat_div unat_cluster_bytes)
  have pos: "0 < clusters_needed s sz \<and> unat sz \<le> 512 * csecs s * clusters_needed s sz"
  proof (cases "sz = 0")
    case False
    define a b where "a = unat sz" and "b = 512 * csecs s"
    have ab: "0 < a" "0 < b" using False cb by (simp_all add: a_def b_def unat_gt_0)
    then have "b \<le> a + b - 1" by simp
    then have "0 < (a + b - 1) div b" using ab by (simp add: div_greater_zero_iff)
    moreover have "a + b - 1 < b * ((a + b - 1) div b + 1)" using ab(2) by (rule dividend_less_times_div [THEN order_less_le_trans]) simp
    then have "a \<le> b * ((a + b - 1) div b)" using ab by simp
    ultimately show ?thesis using False by (simp add: clusters_needed_def a_def b_def)
  qed (use cb in \<open>simp add: clusters_needed_def\<close>)
  show "need \<noteq> 0" using pos u by (metis less_not_refl unat_0)
  show "unat sz \<le> 512 * csecs s * unat need" using pos u by simp
qed

definition create_status :: "'w fs_state \<Rightarrow> u8 list \<Rightarrow> u32 \<Rightarrow> u16 \<Rightarrow> status" where
  "create_status s nm sz p =
     (if \<not> fs_mounted s then Some E_NODEV
      else if MAX_FILENAME \<le> length (cstr nm) then Some E_INVAL
      else if \<not> fs_dir_exists (dir_table s) p then Some E_NOENT
      else if find_used1 (dir_table s) nm p \<noteq> None then Some E_EXIST
      else if free_slot (dir_table s) = None then Some E_NFILE
      else if length (free_clusters (file_allocation_table s)) < clusters_needed s sz then Some E_NOSPC
      else None)"

lemma create_ok:
  assumes inv: "fs_inv E plat s" and st: "create_status s nm sz p = None"
    and sz: "unat sz \<le> length content" "unat sz + 512 * csecs s < 4294967296"
  shows "\<exists>s'. fs_create_file_raw E s nm content sz p = Some (None, s') \<and> fs_inv E plat s' \<and>
    fs_abs E plat s' = put (fs_abs E plat s) p nm (Some (File_node (take (unat sz) content)))"
proof -
  let ?fat = "file_allocation_table s" and ?tab = "dir_table s" and ?tot = "fs_total_clusters s"
  note d = fs_invD [OF inv]
  have c: "fs_mounted s" "length (cstr nm) < MAX_FILENAME" "fs_dir_exists ?tab p" "find_used1 ?tab nm p = None"
    "free_slot ?tab \<noteq> None" "clusters_needed s sz \<le> length (free_clusters ?fat)"
    using st by (auto simp: create_status_def split: if_splits)
  obtain i where i: "free_slot ?tab = Some i" using c(5) by blast
  define need where "need = (if sz = 0 then 1 else (sz + cluster_bytes s - 1) div cluster_bytes s)"
  note n = clusters_needed_word [OF d(2) sz(2), folded need_def]
  have room: "unat need \<le> length (free_clusters ?fat)" using c(6) n(1) by simp
  obtain c0 fat cs where al: "allocate_fat_chain ?fat ?tot need = Some (c0, fat)" "chain fat c0 cs" "length cs = unat need"
    "length fat = length ?fat" "\<forall>x \<in> set cs. ?fat ! unat x = FAT_FREE" "\<forall>j. (\<forall>x \<in> set cs. unat x \<noteq> j) \<longrightarrow> fat ! j = ?fat ! j"
    using allocate_fresh [OF d(3,9) n(2) room] by blast
  obtain cs' where cs: "cs = c0 # cs'" using al(2,3) n(2) by (cases cs) (auto simp: unat_eq_zero)
  have c0: "c0 \<noteq> FAT_FREE" "FS_FIRST_DATA_CLUSTER \<le> unat c0" "c0 < ?tot"
    using al(2,4) d(3) cs by (auto simp: FS_FIRST_DATA_CLUSTER_def word_less_nat_alt)
  have free: "set cs \<inter> set (clusters_of ?fat (?tab ! j)) = {}" if "used ?tab j" for j
    using good_entry_range al(5) d(8) that unfolding chains_ok_def by blast
  have keep: "fat ! unat x = ?fat ! unat x" if "used ?tab j" "x \<in> set (clusters_of ?fat (?tab ! j))" for j x
  proof -
    have "\<forall>y \<in> set cs. unat y \<noteq> unat x" using free [OF that(1)] that(2) by (auto simp flip: word_unat_eq_iff)
    then show ?thesis using al(6) by simp
  qed
  define s1 where "s1 = save_fat_to_disk E (s\<lparr>file_allocation_table := fat\<rparr>)"
  have i1: "fs_inv E plat s1" unfolding s1_def by (rule fat_commit(1) [OF inv al(4)]) (rule keep)
  have a1: "fs_abs E plat s1 = fs_abs E plat s" unfolding s1_def by (rule fat_commit(2) [OF inv al(4)]) (rule keep)
  have cl1: "clusters_of fat (?tab ! j) = clusters_of ?fat (?tab ! j)" if "used ?tab j" for j
    by (rule fat_commit(3) [OF inv al(4) _ that]) (rule keep)
  have s1: "dir_table s1 = ?tab" "file_allocation_table s1 = fat" "fs_total_clusters s1 = ?tot" "fs_super s1 = fs_super s"
    by (simp_all add: s1_def)
  have cs_ok: "distinct cs" "\<forall>c \<in> set cs. c < fs_total_clusters s1"
    using chain_distinct [OF al(2)] chain_range [OF al(2)] al(4) d(3) s1(3) by (auto simp: word_less_nat_alt)
  let ?bs = "take (unat sz) content"
  define s2 where "s2 = do_writes E (data_writes s1 ?bs cs 0) s1"
  have "write_clusters E ?bs (unat need) c0 0 s1 = s2"
    unfolding s2_def al(3) [symmetric] using al(2,4) d(3) s1 by (intro write_clusters_do_writes) simp_all
  note w = this
  have free1: "set cs \<inter> set (clusters_of (file_allocation_table s1) (dir_table s1 ! j)) = {}" if "used (dir_table s1) j" for j
    using free [of j] cl1 [of j] that s1 by simp
  have i2: "fs_inv E plat s2" unfolding s2_def by (rule data_commit(1) [OF i1 cs_ok free1])
  have a2: "fs_abs E plat s2 = fs_abs E plat s1" unfolding s2_def by (rule data_commit(2) [OF i1 cs_ok free1])
  have dat: "concat (map (cdata s2 (fview E plat s2)) cs) = concat (map (\<lambda>i. sector_chunk ?bs (512 * i)) [0..<csecs s1 * length cs])"
    unfolding s2_def by (rule data_commit(3) [OF i1 cs_ok free1])
  have s2: "dir_table s2 = ?tab" "file_allocation_table s2 = fat" "fs_total_clusters s2 = ?tot" "fs_super s2 = fs_super s"
    by (simp_all add: s2_def s1)
  define e where "e = new_entry E (?tab ! i) nm sz c0 i p FT_REGULAR FS_MODE_DEFAULT_FILE"
  define s' where "s' = save_directory_to_disk E (s2\<lparr>dir_table := (dir_table s2)[i := e]\<rparr>)"
  have ef: "is_used e = 1" "entry_id e = of_nat i" "parent_id e = p" "file_type e = FT_REGULAR" "start_cluster e = c0" "file_size e = sz"
    by (simp_all add: e_def new_entry_def)
  have fn: "cstr (filename e) = cstr nm" "wf_entry e" using cstr_filename c(2) by (simp_all add: e_def new_entry_def wf_entry_def)
  have cl: "clusters_of fat e = cs" using clusters_of_chain [of fat e cs] al(2) c0(1) ef by simp
  have good: "good_entry (512 * csecs s2) (file_allocation_table s2) e"
    using c0(1) al(2,3) cl n(3) s2 ef by (simp add: good_entry_def)
  have "fs_inv E plat s' \<and> fs_abs E plat s' = put (fs_abs E plat s2) p nm (Some (abs_node s2 (fview E plat s2) e))"
    unfolding s'_def using i2 i c s2 c0 fn ef good free cl1 cl by (intro insert_entry) auto
  moreover have "entry_bytes s2 (fview E plat s2) e = ?bs"
  proof -
    have "length ?bs = unat sz" "unat sz \<le> 512 * (csecs s1 * length cs)" using sz(1) n(3) al(3) s1 by (simp_all add: mult.assoc)
    then show ?thesis using concat_chunks [of ?bs "csecs s1 * length cs"] dat cl s2 ef by (simp add: entry_bytes_def)
  qed
  moreover have "fs_create_file_raw E s nm content sz p = Some (None, s')"
    using c i get_entry_idx_used1 [OF d(4)] al(1) c0(1) n(2) w s2(1) d(2) unat_cluster_bytes [of s]
    by (auto simp: fs_create_file_raw_def fs_allocate_def Let_def need_def [symmetric] s1_def [symmetric] s'_def e_def geom_ok_def)
  ultimately show ?thesis using a2 a1 ef by (intro exI [of _ s']) (simp add: abs_node_def)
qed

end
