(* ===== verification/Fileops.thy ===== *)
theory Fileops
  imports Files
begin

text \<open>
  The contract of the file store and its refinement: the operations of \<^verbatim>\<open>fs/vfs.c\<close> on a disk that does
  not fail behave like operations on a map from names to contents, in any order.  The locale
  states the contract for one operation; what follows from it for sequences is proved in it.
\<close>

subsection \<open>Creating and reading, on every branch\<close>

lemma create_refused:
  assumes inv: "fs_inv E plat s" and st: "create_status s nm sz p = Some x"
    and sz: "unat sz + 512 * csecs s < 4294967296"
  shows "fs_create_file_raw E s nm content sz p = Some (Some x, s)"
proof -
  note d = fs_invD [OF inv]
  define need where "need = (if sz = 0 then 1 else (sz + cluster_bytes s - 1) div cluster_bytes s)"
  note n = clusters_needed_word [OF d(2) sz, folded need_def]
  have cb: "cluster_bytes s \<noteq> 0" using d(2) unat_cluster_bytes [of s] by (auto simp: geom_ok_def)
  have al: "fs_allocate E s need = Some (FAT_FREE, s)" if "length (free_clusters (file_allocation_table s)) < clusters_needed s sz"
    using that allocate_fat_chain_spec [OF d(3,9) n(2)] n(1) by (simp add: fs_allocate_def)
  show ?thesis
    using st al [unfolded need_def] cb get_entry_idx_used1 [OF d(4)]
    by (auto simp: create_status_def fs_create_file_raw_def split: if_splits)
qed

lemma same_view_inv:
  assumes "fs_inv E plat s" "same_view E plat s s'"
  shows "fs_inv E plat s'" "fs_abs E plat s' = fs_abs E plat s"
proof -
  note f = same_view_fields [OF assms(2)]
  show "fs_inv E plat s'"
    using assms(1) f by (simp add: fs_inv_def disk_inv_def sectors_full_def dir_synced_def fat_synced_def fat_sectors_needed_def)
  show "fs_abs E plat s' = fs_abs E plat s" using f by (intro fs_abs_same) (simp_all add: abs_node_def entry_bytes_def)
qed

lemma open_spec:
  assumes "fs_mounted s"
  shows "fs_open s nm p = (case find_used1 (dir_table s) nm p of None \<Rightarrow> Inl E_NOENT
    | Some i \<Rightarrow> Inr \<lparr>vf_name = take (MAX_FILENAME - 1) (cstr (filename (dir_table s ! i))),
                    vf_size = file_size (dir_table s ! i), current_offset = 0,
                    vf_cluster = start_cluster (dir_table s ! i), ref_count = 1, inode_idx = i,
                    write_buf = None, write_len = 0, write_cap = 0, vf_dirty = False\<rparr>)"
  using assms by (simp add: fs_open_def)

text \<open>A file handle on an entry: what \<^verbatim>\<open>fs_open\<close> fills in, at any offset.\<close>

definition handle_on :: "'w fs_state \<Rightarrow> nat \<Rightarrow> vfs_file_t \<Rightarrow> bool" where
  "handle_on s i f \<longleftrightarrow> used (dir_table s) i \<and> vf_size f = file_size (dir_table s ! i) \<and> vf_cluster f = start_cluster (dir_table s ! i)"

lemma read_handle:
  assumes inv: "fs_inv E plat s" and h: "handle_on s i f" and wrap: "unat (current_offset f) + unat sz < 4294967296"
  defines "bs \<equiv> take (unat sz) (drop (unat (current_offset f)) (entry_bytes s (fview E plat s) (dir_table s ! i)))"
  shows "\<exists>s'. fs_read_raw E s f sz = Some (bs, f\<lparr>current_offset := current_offset f + of_nat (length bs)\<rparr>, s') \<and> same_view E plat s s'"
proof -
  let ?e = "dir_table s ! i" and ?fat = "file_allocation_table s"
  note d = fs_invD [OF inv]
  have ok: "fs_ok E plat s" "sectors_full s (fview E plat s)" using d(1) by (simp_all add: disk_inv_def)
  have good: "good_entry (512 * csecs s) ?fat ?e" using d(8) h by (simp add: chains_ok_def handle_on_def)
  show ?thesis
  proof (cases "start_cluster ?e = 0")
    case True
    then have "vf_size f = 0" "bs = []" using good h by (simp_all add: good_entry_def handle_on_def bs_def entry_bytes_def)
    then show ?thesis using same_view_refl [OF ok(1)] by (simp add: fs_read_raw_def)
  next
    case False
    then have "chain ?fat (vf_cluster f) (clusters_of ?fat ?e)" "unat (vf_size f) \<le> 512 * csecs s * length (clusters_of ?fat ?e)"
      using good h by (simp_all add: good_entry_def handle_on_def)
    from fs_read_raw_spec [OF ok(1) d(2) ok(2) this wrap] show ?thesis
      using h by (simp add: bs_def entry_bytes_def handle_on_def)
  qed
qed

lemma open_read:
  assumes inv: "fs_inv E plat s" and mt: "fs_mounted s" and nd: "fs_abs E plat s p nm = Some (File_node bs)"
  shows "\<exists>f s'. fs_open s nm p = Inr f \<and> current_offset f = 0 \<and> vf_size f = of_nat (length bs) \<and>
    fs_read_raw E s f sz = Some (take (unat sz) bs, f\<lparr>current_offset := of_nat (length (take (unat sz) bs))\<rparr>, s') \<and>
    fs_inv E plat s' \<and> fs_abs E plat s' = fs_abs E plat s \<and> same_view E plat s s'"
proof -
  note d = fs_invD [OF inv]
  obtain i where i: "find_used1 (dir_table s) nm p = Some i" and bs: "bs = entry_bytes s (fview E plat s) (dir_table s ! i)"
    using nd by (auto simp: fs_abs_def abs_node_def split: if_splits)
  obtain f where f: "fs_open s nm p = Inr f" "handle_on s i f" "current_offset f = 0" "vf_size f = file_size (dir_table s ! i)"
    using open_spec [OF mt, of nm p] i find_used1_SomeD [OF i] by (auto simp: handle_on_def)
  have sz: "unat (current_offset f) + unat sz < 4294967296" using f(3) unat_u32_less [of sz] by simp
  from read_handle [OF inv f(2) sz] f(3) bs obtain s' where
    r: "fs_read_raw E s f sz = Some (take (unat sz) bs, f\<lparr>current_offset := of_nat (length (take (unat sz) bs))\<rparr>, s')" "same_view E plat s s'"
    by auto
  have "length bs = unat (file_size (dir_table s ! i))"
  proof -
    let ?e = "dir_table s ! i"
    have good: "good_entry (512 * csecs s) (file_allocation_table s) ?e"
      using d(8) find_used1_SomeD [OF i] by (simp add: chains_ok_def)
    have "\<forall>x \<in> set (map (cdata s (fview E plat s)) (clusters_of (file_allocation_table s) ?e)). length x = 512 * csecs s"
      using good_entry_range [OF good] length_cdata [OF d(2)] d(1,3) by (auto simp: disk_inv_def word_less_nat_alt)
    from length_concat_same [OF this]
    have "unat (file_size ?e) \<le> length (concat (map (cdata s (fview E plat s)) (clusters_of (file_allocation_table s) ?e)))"
      using good by (simp add: good_entry_def split: if_splits)
    then show ?thesis by (simp add: bs entry_bytes_def)
  qed
  then have "vf_size f = of_nat (length bs)" using f(4) by simp
  then show ?thesis using f(1,3) r same_view_inv [OF inv r(2)] by blast
qed

subsection \<open>The contract\<close>

type_synonym file_map = "u16 \<Rightarrow> u8 list \<Rightarrow> fs_node option"

datatype fs_op =
    Op_create "u8 list" "u8 list" u32 u16
  | Op_mkdir "u8 list" u16
  | Op_delete "u8 list" u16
  | Op_rename "u8 list" "u8 list" u16
  | Op_chmod u16 u16
  | Op_chown u16 u32 u32
  | Op_read "u8 list" u32 u16

datatype fs_result = Done status | Got "u8 list"

text \<open>What an operation with this result does to the map, and when it may give this result.\<close>

fun effect :: "file_map \<Rightarrow> fs_op \<Rightarrow> fs_result \<Rightarrow> file_map" where
  "effect m (Op_create nm content sz p) (Done None) = put m p nm (Some (File_node (take (unat sz) content)))"
| "effect m (Op_mkdir nm p) (Done None) = put m p nm (Some Dir_node)"
| "effect m (Op_delete nm p) (Done None) = put m p nm None"
| "effect m (Op_rename old_nm new_nm p) (Done None) = put (put m p old_nm None) p new_nm (m p old_nm)"
| "effect m _ _ = m"

fun allowed :: "file_map \<Rightarrow> fs_op \<Rightarrow> fs_result \<Rightarrow> bool" where
  "allowed m (Op_create nm content sz p) (Done st) \<longleftrightarrow> (st = None \<longrightarrow> m p nm = None) \<and> (st = Some E_EXIST \<longrightarrow> m p nm \<noteq> None)"
| "allowed m (Op_mkdir nm p) (Done st) \<longleftrightarrow> (st = None \<longrightarrow> m p nm = None) \<and> (st = Some E_EXIST \<longrightarrow> m p nm \<noteq> None)"
| "allowed m (Op_delete nm p) (Done st) \<longleftrightarrow> (st = None \<longrightarrow> m p nm \<noteq> None) \<and> (st = Some E_NOENT \<longrightarrow> m p nm = None)"
| "allowed m (Op_rename old_nm new_nm p) (Done st) \<longleftrightarrow>
     (st = None \<longrightarrow> m p old_nm \<noteq> None \<and> m p new_nm = None) \<and>
     (st = Some E_EXIST \<longrightarrow> m p new_nm \<noteq> None) \<and> (st = Some E_NOENT \<longrightarrow> m p old_nm = None)"
| "allowed m (Op_chmod x md) (Done st) \<longleftrightarrow> True"
| "allowed m (Op_chown x u g) (Done st) \<longleftrightarrow> True"
| "allowed m (Op_read nm sz p) (Done st) \<longleftrightarrow> st = Some E_NOENT \<and> m p nm = None \<or> st = Some E_NODEV"
| "allowed m (Op_read nm sz p) (Got bs) \<longleftrightarrow>
     (case m p nm of None \<Rightarrow> False | Some Dir_node \<Rightarrow> True | Some (File_node b) \<Rightarrow> bs = take (unat sz) b)"
| "allowed m _ (Got bs) \<longleftrightarrow> False"

fun run_ops :: "('e \<Rightarrow> 's \<Rightarrow> fs_op \<Rightarrow> (fs_result \<times> 's) option) \<Rightarrow> ('e \<times> fs_op) list \<Rightarrow> 's \<Rightarrow> (fs_result list \<times> 's) option" where
  "run_ops step [] s = Some ([], s)"
| "run_ops step ((e, op) # ops) s =
     (case step e s op of None \<Rightarrow> None
      | Some (r, s1) \<Rightarrow> map_option (\<lambda>(rs, s'). (r # rs, s')) (run_ops step ops s1))"

fun map_run :: "file_map \<Rightarrow> (fs_op \<times> fs_result) list \<Rightarrow> file_map option" where
  "map_run m [] = Some m"
| "map_run m ((op, r) # evs) = (if allowed m op r then map_run (effect m op r) evs else None)"

locale file_store =
  fixes inv :: "'s \<Rightarrow> bool" and contents :: "'s \<Rightarrow> file_map" and legal :: "'e \<Rightarrow> fs_op \<Rightarrow> bool"
    and step :: "'e \<Rightarrow> 's \<Rightarrow> fs_op \<Rightarrow> (fs_result \<times> 's) option"
  assumes step_refines: "inv s \<Longrightarrow> legal e op \<Longrightarrow>
    \<exists>r s'. step e s op = Some (r, s') \<and> inv s' \<and> allowed (contents s) op r \<and> contents s' = effect (contents s) op r"
begin

lemma run_refines:
  "inv s \<Longrightarrow> \<forall>(e, op) \<in> set ops. legal e op \<Longrightarrow>
   \<exists>rs s'. run_ops step ops s = Some (rs, s') \<and> length rs = length ops \<and> inv s' \<and>
     map_run (contents s) (zip (map snd ops) rs) = Some (contents s')"
proof (induction ops arbitrary: s)
  case (Cons x ops)
  obtain e op where x: "x = (e, op)" by fastforce
  from step_refines [OF Cons.prems(1), of e op] Cons.prems(2) x obtain r s1 where
    s1: "step e s op = Some (r, s1)" "inv s1" "allowed (contents s) op r" "contents s1 = effect (contents s) op r" by auto
  from Cons.IH [OF s1(2)] Cons.prems(2) obtain rs s' where
    "run_ops step ops s1 = Some (rs, s')" "length rs = length ops" "inv s'"
    "map_run (contents s1) (zip (map snd ops) rs) = Some (contents s')" by auto
  then show ?case using s1 x by (intro exI [of _ "r # rs"] exI [of _ s']) simp
qed simp

end

text \<open>The operations of \<^verbatim>\<open>vfs.c\<close> behind that interface.\<close>

fun fs_step :: "'w fs_env \<Rightarrow> 'w fs_state \<Rightarrow> fs_op \<Rightarrow> (fs_result \<times> 'w fs_state) option" where
  "fs_step E s (Op_create nm content sz p) = map_option (\<lambda>(st, s'). (Done st, s')) (fs_create_file_raw E s nm content sz p)"
| "fs_step E s (Op_mkdir nm p) = (case fs_mkdir E s nm p of (st, s') \<Rightarrow> Some (Done st, s'))"
| "fs_step E s (Op_delete nm p) = (case fs_delete E s nm p of (st, s') \<Rightarrow> Some (Done st, s'))"
| "fs_step E s (Op_rename old_nm new_nm p) = (case fs_rename E s old_nm new_nm p of (st, s') \<Rightarrow> Some (Done st, s'))"
| "fs_step E s (Op_chmod x md) = (case fs_chmod E s x md of (st, s') \<Rightarrow> Some (Done st, s'))"
| "fs_step E s (Op_chown x u g) = (case fs_chown E s x u g of (st, s') \<Rightarrow> Some (Done st, s'))"
| "fs_step E s (Op_read nm sz p) =
     (case fs_open s nm p of Inl x \<Rightarrow> Some (Done (Some x), s)
      | Inr f \<Rightarrow> map_option (\<lambda>(bs, f', s'). (Got bs, s')) (fs_read_raw E s f sz))"

text \<open>The arguments a caller may pass: a buffer as long as it says, of less than 2 GB.\<close>

fun op_ok :: "fs_op \<Rightarrow> bool" where
  "op_ok (Op_create nm content sz p) \<longleftrightarrow> unat sz \<le> length content \<and> unat sz < 2147483648"
| "op_ok _ \<longleftrightarrow> True"

text \<open>The devices are the same from call to call; the clock, the caller and the rest of memory need not be.\<close>

definition same_devices :: "'w fs_env \<Rightarrow> 'w fs_env \<Rightarrow> bool" where
  "same_devices E E' \<longleftrightarrow> devs E' = devs E \<and> root E' = root E \<and> 512 \<le> length (heap_after_fat E) \<and> 512 \<le> length (heap_after_fat E')"

lemma same_devices_inv:
  assumes "same_devices E E'"
  shows "fs_inv E' plat s = fs_inv E plat s" "fs_abs E' plat s = fs_abs E plat s"
proof -
  have "fview E' plat s r = fview E plat s r" for r using assms by (simp add: same_devices_def fview_def)
  then have v: "fview E' plat s = fview E plat s" "fs_ok E' plat s = fs_ok E plat s"
    using assms by (simp_all add: ext same_devices_def fs_ok_def)
  show "fs_inv E' plat s = fs_inv E plat s"
    using assms v by (simp add: fs_inv_def disk_inv_def dir_synced_def fat_synced_def same_devices_def)
  show "fs_abs E' plat s = fs_abs E plat s" using v by (intro ext) (simp add: fs_abs_def)
qed

lemma abs_None: "fs_abs E plat s p nm = None \<longleftrightarrow> find_used1 (dir_table s) nm p = None"
  by (simp add: fs_abs_def)

lemma create_step:
  assumes inv: "fs_inv E plat s" and op: "op_ok (Op_create nm content sz p)"
  shows "\<exists>r s'. fs_step E s (Op_create nm content sz p) = Some (r, s') \<and> fs_inv E plat s' \<and>
    allowed (fs_abs E plat s) (Op_create nm content sz p) r \<and> fs_abs E plat s' = effect (fs_abs E plat s) (Op_create nm content sz p) r"
proof -
  have "csecs s < 65536" using unsigned_less [of "cluster_sectors (fs_super s)", where ?'a = nat] by simp
  then have sz: "unat sz + 512 * csecs s < 4294967296" "unat sz \<le> length content" using op by simp_all
  show ?thesis
  proof (cases "create_status s nm sz p")
    case None
    then have "fs_abs E plat s p nm = None" by (simp add: abs_None create_status_def split: if_splits)
    with create_ok [OF inv None sz(2,1)] show ?thesis by auto
  next
    case (Some x)
    have "x = E_EXIST \<Longrightarrow> fs_abs E plat s p nm \<noteq> None"
      using Some unfolding abs_None by (auto simp: create_status_def split: if_splits)
    then show ?thesis using create_refused [OF inv Some sz(1)] inv by simp
  qed
qed

lemma mkdir_step:
  assumes inv: "fs_inv E plat s" and op: "fs_mkdir E s nm p = (st, s')"
  shows "allowed (fs_abs E plat s) (Op_mkdir nm p) (Done st)"
  using op get_entry_idx_used1 [OF fs_invD(4) [OF inv]] unfolding allowed.simps abs_None
  by (auto simp: fs_mkdir_def split: if_splits option.splits)

lemma delete_step:
  assumes "fs_delete E s nm p = (st, s')"
  shows "allowed (fs_abs E plat s) (Op_delete nm p) (Done st)"
  using assms unfolding allowed.simps abs_None by (auto simp: fs_delete_def Let_def split: if_splits option.splits)

lemma rename_step:
  assumes "fs_rename E s old_nm new_nm p = (st, s')"
  shows "allowed (fs_abs E plat s) (Op_rename old_nm new_nm p) (Done st)"
  using assms unfolding allowed.simps abs_None by (auto simp: fs_rename_def split: if_splits option.splits)

lemma read_step:
  assumes inv: "fs_inv E plat s"
  shows "\<exists>r s'. fs_step E s (Op_read nm sz p) = Some (r, s') \<and> fs_inv E plat s' \<and>
    allowed (fs_abs E plat s) (Op_read nm sz p) r \<and> fs_abs E plat s' = effect (fs_abs E plat s) (Op_read nm sz p) r"
proof (cases "fs_mounted s \<and> find_used1 (dir_table s) nm p \<noteq> None")
  case False
  then have "\<exists>x. fs_open s nm p = Inl x \<and> (x = E_NODEV \<or> x = E_NOENT \<and> fs_abs E plat s p nm = None)"
    by (auto simp: fs_open_def abs_None)
  then show ?thesis using inv by auto
next
  case True
  then obtain i where i: "find_used1 (dir_table s) nm p = Some i" by blast
  obtain f where f: "fs_open s nm p = Inr f" "handle_on s i f" "current_offset f = 0"
    using True open_spec [of s nm p] i find_used1_SomeD [OF i] by (auto simp: handle_on_def)
  have sz: "unat (current_offset f) + unat sz < 4294967296" using f(3) unat_u32_less [of sz] by simp
  from read_handle [OF inv f(2) sz] f(3) obtain f' s' where
    r: "fs_read_raw E s f sz = Some (take (unat sz) (entry_bytes s (fview E plat s) (dir_table s ! i)), f', s')" "same_view E plat s s'" by auto
  then show ?thesis using f(1) i same_view_inv [OF inv r(2)]
    by (auto simp: fs_abs_def abs_node_def)
qed

lemma fs_step_refines:
  assumes inv: "fs_inv E plat s" and op: "op_ok op"
  shows "\<exists>r s'. fs_step E s op = Some (r, s') \<and> fs_inv E plat s' \<and> allowed (fs_abs E plat s) op r \<and>
    fs_abs E plat s' = effect (fs_abs E plat s) op r"
proof (cases op)
  case (Op_create nm content sz p)
  then show ?thesis using create_step [OF inv] op by simp
next
  case (Op_mkdir nm p)
  obtain st s' where r: "fs_mkdir E s nm p = (st, s')" by fastforce
  show ?thesis using mkdir_step [OF inv r] mkdir_refines [OF inv r] r Op_mkdir by (cases st) simp_all
next
  case (Op_delete nm p)
  obtain st s' where r: "fs_delete E s nm p = (st, s')" by fastforce
  show ?thesis using delete_step [OF r, of plat] delete_refines [OF inv r] inv r Op_delete by (cases st) simp_all
next
  case (Op_rename old_nm new_nm p)
  obtain st s' where r: "fs_rename E s old_nm new_nm p = (st, s')" by fastforce
  show ?thesis using rename_step [OF r, of plat] rename_refines [OF inv r] inv r Op_rename by (cases st) simp_all
next
  case (Op_chmod x md)
  obtain st s' where r: "fs_chmod E s x md = (st, s')" by fastforce
  show ?thesis using chmod_refines [OF inv r] r Op_chmod by (cases st) simp_all
next
  case (Op_chown x u g)
  obtain st s' where r: "fs_chown E s x u g = (st, s')" by fastforce
  show ?thesis using chown_refines [OF inv r] r Op_chown by (cases st) simp_all
next
  case (Op_read nm sz p)
  then show ?thesis using read_step [OF inv] by simp
qed

interpretation fsr: file_store "fs_inv E plat" "fs_abs E plat" "\<lambda>E' op. same_devices E E' \<and> op_ok op" fs_step for E plat
proof
  fix s E' op
  assume "fs_inv E plat s" "same_devices E E' \<and> op_ok op"
  then show "\<exists>r s'. fs_step E' s op = Some (r, s') \<and> fs_inv E plat s' \<and> allowed (fs_abs E plat s) op r \<and>
      fs_abs E plat s' = effect (fs_abs E plat s) op r"
    using fs_step_refines [of E' plat s op] same_devices_inv by metis
qed

lemma write_cluster_mounted: "fs_mounted (snd (write_cluster E base content ks bw s)) = fs_mounted s"
proof (induction ks arbitrary: bw s)
  case (Cons k ks)
  have "fs_mounted (snd (fs_write_sector E s r b)) = fs_mounted s" for r b
    unfolding fs_write_sector_def case_prod_beta by simp
  then show ?case using Cons.IH by simp
qed simp

lemma write_clusters_mounted: "fs_mounted (write_clusters E content n c bw s) = fs_mounted s"
proof (induction n arbitrary: c bw s)
  case (Suc n)
  then show ?case using write_cluster_mounted [of E "fs_cluster_to_sector s c" content "[0..<csecs s]" bw s]
    by (simp add: case_prod_beta)
qed simp

lemma create_mounted: "fs_create_file_raw E s nm content sz p = Some (st, s') \<Longrightarrow> fs_mounted s' = fs_mounted s"
  by (auto simp: fs_create_file_raw_def fs_allocate_def Let_def write_clusters_mounted
      simp del: write_clusters.simps split: if_splits option.splits)

subsection \<open>A small file system for the witnesses\<close>

type_synonym mem_disk = "dev_ptr \<Rightarrow> u32 \<Rightarrow> u8 list"

definition mem_devs :: "mem_disk dev_store" where
  "mem_devs d = \<lparr>name = Some ''mem'', sector_size = 512, sector_count = 1000,
     dev_read = Some (\<lambda>w l. (None, w d l, w)), dev_write = Some (\<lambda>w l b. (None, w(d := (w d)(l := b))))\<rparr>"

definition mem_env :: "mem_disk fs_env" where
  "mem_env = \<lparr>devs = mem_devs, root = 1, ticks = 0, now = 0, cur_uid = 0, cur_gid = 0, current_sec_level = 0,
     heap_after_fat = replicate 512 0, stack_junk = zero_sector\<rparr>"

definition empty_entry :: disk_file_entry_t where
  "empty_entry = \<lparr>filename = replicate MAX_FILENAME 0, file_size = 0, start_cluster = 0, owner_uid = 0, owner_gid = 0,
     mtime = 0, ctime = 0, entry_id = 0, parent_id = 0, mode = 0, file_type = 0, is_used = 0\<rparr>"

definition mem_blank :: "mem_disk fs_state" where
  "mem_blank = \<lparr>dir_table = replicate 4 empty_entry, file_allocation_table = [FAT_EOF, FAT_EOF, 0, 0, 0, 0, 0, 0],
     fs_super = \<lparr>magic = 0, format_version = 0, sb_sector_size = 512, total_sectors = 64, dir_start = 1, dir_sectors = 1, max_entries = 4,
       entry_size = 96, cluster_sectors = 1, fat_start = 2, data_start = 3, total_clusters = 8, sb_flags = 0, keyslot = []\<rparr>,
     fs_mounted = True, fs_was_formatted = False, fs_part_start = 0, fs_max_sectors = 64, fs_total_clusters = 8,
     disk = bcache_init \<lparr>cache = [], bcache_ticks = 0, dirty_count = 0, oldest_dirty_tick = 0, world = (\<lambda>_ _. zero_sector)\<rparr>\<rparr>"

definition mem_fs :: "mem_disk fs_state" where
  "mem_fs = save_directory_to_disk mem_env (save_fat_to_disk mem_env mem_blank)"

lemma mem_blank_disk: "disk_inv mem_env (\<lambda>w. w) mem_blank"
proof -
  let ?c = "\<lparr>cache = [], bcache_ticks = 0, dirty_count = 0, oldest_dirty_tick = 0, world = (\<lambda>_ _. zero_sector) :: mem_disk\<rparr> :: mem_disk bcache"
  have d: "disk mem_blank = bcache_init ?c" by (simp add: mem_blank_def)
  have i: "bcache_inv (\<lambda>w. w) (bcache_init ?c)" "view (\<lambda>w. w) (bcache_init ?c) = (\<lambda>_ _. zero_sector)"
    using bcache_init_spec [of "\<lambda>w. w" ?c] by simp_all
  have "driver_ok mem_devs (\<lambda>w. w)" "healthy mem_devs"
    by (auto simp: driver_ok_def healthy_def mem_devs_def)
  moreover have "dirty_ok mem_devs (bcache_init ?c)"
    by (auto simp: dirty_ok_def bcache_init_def)
  ultimately have ok: "fs_ok mem_env (\<lambda>w. w) mem_blank" using i(1) d
    by (simp add: fs_ok_def mem_env_def) (simp add: mem_devs_def mem_blank_def)
  have "geom_ok mem_blank"
    by (simp add: geom_ok_def mem_blank_def FS_MAX_CLUSTERS_CAP_def dir_sectors_needed_def ENTRY_SIZE_def fat_sectors_needed_def)
  moreover have "fview mem_env (\<lambda>w. w) mem_blank r = zero_sector" for r using i(2) d by (simp add: fview_def)
  ultimately show ?thesis using ok by (simp add: disk_inv_def sectors_full_def mem_env_def zero_sector_def)
qed

lemma mem_fs_inv: "fs_inv mem_env (\<lambda>w. w) mem_fs" "fs_mounted mem_fs"
proof -
  note k1 = save_fat_keeps [OF mem_blank_disk]
  note k2 = save_dir_keeps [OF k1(1)]
  have t: "dir_table mem_blank = replicate 4 empty_entry" "file_allocation_table mem_blank = [FAT_EOF, FAT_EOF, 0, 0, 0, 0, 0, 0]"
    "fs_total_clusters mem_blank = 8" "fs_mounted mem_blank" by (simp_all add: mem_blank_def)
  have free: "\<not> used (replicate 4 empty_entry) i" for i by (auto simp: used_def empty_entry_def)
  have "dir_ok (replicate 4 empty_entry) 8"
    using free unfolding dir_ok_def names_unique_def
    by (auto simp: tree_ok_def empty_entry_def wf_entry_def nth_Cons' numeral_nat)
  moreover have "chains_ok cb fat (replicate 4 empty_entry)" for cb fat using free by (simp add: chains_ok_def)
  ultimately show "fs_inv mem_env (\<lambda>w. w) mem_fs"
    unfolding fs_inv_def mem_fs_def using k2(1,2) k2(3) [OF k1(2)] t by simp
  show "fs_mounted mem_fs" using t by (simp add: mem_fs_def)
qed

lemma mem_fs_room:
  assumes "unat sz \<le> 512"
  shows "create_status mem_fs [97] sz 0 = None"
proof -
  have t: "dir_table mem_fs = replicate 4 empty_entry" "file_allocation_table mem_fs = [FAT_EOF, FAT_EOF, 0, 0, 0, 0, 0, 0]"
    and cs: "csecs mem_fs = 1"
    by (simp_all add: mem_fs_def mem_blank_def)
  have "(511 + unat sz) div 512 \<le> 1" using assms by simp
  then show ?thesis
    unfolding create_status_def t clusters_needed_def cs using mem_fs_inv(2)
    by (simp add: cstr_def MAX_FILENAME_def fs_dir_exists_def find_used1_def free_slot_def free_clusters_def
        FS_FIRST_DATA_CLUSTER_def upt_rec empty_entry_def)
qed

text \<open>One file in it.\<close>

lemma mem_fs_file:
  assumes "length bs \<le> 512" "devs E = devs mem_env" "root E = root mem_env" "heap_after_fat E = heap_after_fat mem_env"
  obtains s1 where "fs_create_file_raw E mem_fs [97] bs (of_nat (length bs)) 0 = Some (None, s1)" "fs_inv mem_env (\<lambda>w. w) s1"
    "fs_abs mem_env (\<lambda>w. w) s1 = put (fs_abs mem_env (\<lambda>w. w) mem_fs) 0 [97] (Some (File_node bs))" "fs_mounted s1"
proof -
  have sd: "same_devices mem_env E" using assms(2-4) by (simp add: same_devices_def mem_env_def)
  have u: "unat (of_nat (length bs) :: u32) = length bs" using assms(1) by (simp add: unat_of_nat)
  have "fs_inv E (\<lambda>w. w) mem_fs" using mem_fs_inv(1) same_devices_inv [OF sd] by simp
  moreover have "csecs mem_fs = 1" by (simp add: mem_fs_def mem_blank_def)
  ultimately obtain s1 where s1: "fs_create_file_raw E mem_fs [97] bs (of_nat (length bs)) 0 = Some (None, s1)" "fs_inv E (\<lambda>w. w) s1"
    "fs_abs E (\<lambda>w. w) s1 = put (fs_abs E (\<lambda>w. w) mem_fs) 0 [97] (Some (File_node bs))"
    using create_ok [of E "\<lambda>w. w" mem_fs "[97]" "of_nat (length bs)" 0 bs] mem_fs_room [of "of_nat (length bs)"] assms(1) u by auto
  then show ?thesis using that same_devices_inv [OF sd] mem_fs_inv(2) create_mounted [OF s1(1)] by simp
qed

subsection \<open>Properties\<close>

text \<open>
  (C23) The file system is a map.  On devices that do not fail, any sequence of create, mkdir,
  delete, rename, chmod, chown and read calls, by any callers at any times, returns at every call;
  each result is one the abstract map allows (a read returns the current bytes of the file, a
  creation succeeds only on a free name), the map changes exactly as the results say, and the invariant (a tree, no shared
  clusters, tables on disk as in memory) holds at the end.
\<close>

theorem fs_refines_map:
  assumes "fs_inv E plat s" "\<forall>(E', op) \<in> set ops. same_devices E E' \<and> op_ok op"
  shows "\<exists>rs s'. run_ops fs_step ops s = Some (rs, s') \<and> length rs = length ops \<and> fs_inv E plat s' \<and>
    map_run (fs_abs E plat s) (zip (map snd ops) rs) = Some (fs_abs E plat s')"
  by (rule fsr.run_refines [OF assms])

theorem fs_refines_map_witness:
  "\<exists>rs s'. run_ops fs_step [(mem_env, Op_mkdir [100] 0), (mem_env, Op_create [97] [1, 2, 3] 2 0), (mem_env, Op_read [97] 9 0),
      (mem_env, Op_delete [97] 0)] mem_fs = Some (rs, s') \<and> length rs = 4"
  using fs_refines_map [OF mem_fs_inv(1), of "[(mem_env, Op_mkdir [100] 0), (mem_env, Op_create [97] [1, 2, 3] 2 0),
      (mem_env, Op_read [97] 9 0), (mem_env, Op_delete [97] 0)]"]
  by (auto simp: same_devices_def mem_env_def)

text \<open>
  (C24) Create, then open and read.  After a successful \<^verbatim>\<open>fs_create_file_raw\<close> the name opens, and one read
  returns the bytes that were stored, for files of any length, whatever the sector and cluster
  boundaries; every other name still shows what it showed.
\<close>

theorem fs_create_then_read:
  assumes "fs_inv E plat s" "op_ok (Op_create nm content sz p)"
    and "fs_create_file_raw E s nm content sz p = Some (None, s1)"
  shows "\<exists>f s2. fs_open s1 nm p = Inr f \<and> vf_size f = sz \<and>
    fs_read_raw E s1 f sz = Some (take (unat sz) content, f\<lparr>current_offset := sz\<rparr>, s2) \<and>
    (\<forall>q m. (q, cstr m) \<noteq> (p, cstr nm) \<longrightarrow> fs_abs E plat s2 q m = fs_abs E plat s q m)"
proof -
  from create_step [OF assms(1,2)] assms(3) have
    i1: "fs_inv E plat s1" "fs_abs E plat s1 = put (fs_abs E plat s) p nm (Some (File_node (take (unat sz) content)))" by auto
  have "fs_mounted s" using assms(3) by (auto simp: fs_create_file_raw_def split: if_splits)
  then have mt: "fs_mounted s1" using create_mounted [OF assms(3)] by simp
  have len: "length (take (unat sz) content) = unat sz" using assms(2) by simp
  have "fs_abs E plat s1 p nm = Some (File_node (take (unat sz) content))" using i1(2) by (simp add: put_def)
  from open_read [OF i1(1) mt this, of sz] len i1(2) show ?thesis by (auto simp: put_def)
qed

theorem fs_create_then_read_witness:
  "\<exists>s1 f s2. fs_create_file_raw mem_env mem_fs [97] [1, 2, 3] 3 0 = Some (None, s1) \<and> fs_open s1 [97] 0 = Inr f \<and>
    fs_read_raw mem_env s1 f 3 = Some ([1, 2, 3], f\<lparr>current_offset := 3\<rparr>, s2)"
proof -
  obtain s1 where s1: "fs_create_file_raw mem_env mem_fs [97] [1, 2, 3] 3 0 = Some (None, s1)"
    using mem_fs_file [of "[1, 2, 3]" mem_env] by auto
  show ?thesis using fs_create_then_read [OF mem_fs_inv(1) _ s1] s1 by auto
qed

end
