(* ===== verification/Hmac.thy ===== *)
theory Hmac
  imports Sha256
begin

text \<open>
  Message authentication and key derivation: \<^verbatim>\<open>crypto/hmac.c\<close> and \<^verbatim>\<open>crypto/pbkdf2.c\<close>.
\<close>

text \<open>Zero exactly when the first \<open>n\<close> bytes agree; the C loop never stops early.\<close>

definition crypto_ct_cmp_bytes :: "u8 list \<Rightarrow> u8 list \<Rightarrow> nat \<Rightarrow> u8" where
  "crypto_ct_cmp_bytes a b n = fold (\<lambda>i diff. diff OR (a ! i XOR b ! i)) [0..<n] 0"

definition hmac_key_pad :: "u8 list \<Rightarrow> u8 list" where
  "hmac_key_pad key = (if 64 < length key then sha256_binary key @ replicate 32 0 else key @ replicate (64 - length key) 0)"

definition hmac_sha256 :: "u8 list \<Rightarrow> u8 list \<Rightarrow> u8 list" where
  "hmac_sha256 key msg =
     (let k_pad = hmac_key_pad key;
          i_key_pad = map (\<lambda>b. b XOR 0x36) k_pad;
          o_key_pad = map (\<lambda>b. b XOR 0x5c) k_pad;
          inner_hash = sha256_final (sha256_update (sha256_update sha256_init i_key_pad) msg)
      in sha256_final (sha256_update (sha256_update sha256_init o_key_pad) inner_hash))"

definition PBKDF2_MIN_ITERATIONS :: u32 where
  "PBKDF2_MIN_ITERATIONS = 600000"

definition PBKDF2_MAX_ITERATIONS :: u32 where
  "PBKDF2_MAX_ITERATIONS = 10000000"

definition pbkdf2_iterations_are_acceptable :: "u32 \<Rightarrow> bool" where
  "pbkdf2_iterations_are_acceptable n \<longleftrightarrow> PBKDF2_MIN_ITERATIONS \<le> n \<and> n \<le> PBKDF2_MAX_ITERATIONS"

fun pbkdf2_loop :: "u8 list \<Rightarrow> nat \<Rightarrow> u8 list \<Rightarrow> u8 list \<Rightarrow> u8 list" where
  "pbkdf2_loop pw 0 u dk = dk"
| "pbkdf2_loop pw (Suc n) u dk = (let u' = hmac_sha256 pw u in pbkdf2_loop pw n u' (map2 (XOR) dk u'))"

definition pbkdf2_hmac_sha256 :: "u8 list \<Rightarrow> u8 list \<Rightarrow> u32 \<Rightarrow> nat \<Rightarrow> u8 list" where
  "pbkdf2_hmac_sha256 password salt iterations output_len =
     (let n = (if iterations = 0 then 1 else iterations);
          u = hmac_sha256 password (take 252 salt @ [0, 0, 0, 1])
      in take output_len (pbkdf2_loop password (unat n - 1) u u))"

subsection \<open>What they compute\<close>

lemma length_hmac [simp]: "length (hmac_sha256 key msg) = 32"
  by (simp add: hmac_sha256_def Let_def)

lemma length_key_pad: "length (hmac_key_pad key) = 64"
  by (simp add: hmac_key_pad_def)

lemma or_zero_iff: "(a :: u8) OR b = 0 \<longleftrightarrow> a = 0 \<and> b = 0"
  by (simp add: bit_eq_iff bit_simps) blast

lemma xor_zero_iff: "(a :: u8) XOR b = 0 \<longleftrightarrow> a = b"
  by (auto simp: bit_eq_iff bit_xor_iff)

lemma ct_cmp_fold:
  "fold (\<lambda>i diff. diff OR (a ! i XOR b ! i)) is d = 0 \<longleftrightarrow> d = 0 \<and> (\<forall>i \<in> set is. a ! i = (b ! i :: u8))"
  by (induction "is" arbitrary: d) (auto simp: or_zero_iff xor_zero_iff)

lemma ct_cmp_iff:
  assumes "n \<le> length a" "n \<le> length b"
  shows "crypto_ct_cmp_bytes a b n = 0 \<longleftrightarrow> take n a = take n b"
proof -
  have "crypto_ct_cmp_bytes a b n = 0 \<longleftrightarrow> (\<forall>i < n. a ! i = b ! i)"
    unfolding crypto_ct_cmp_bytes_def ct_cmp_fold by auto
  then show ?thesis using assms by (simp add: list_eq_iff_nth_eq)
qed

lemma hmac_spec:
  assumes "length key < 4294967296" "length msg < 4294967232"
  shows "hmac_sha256 key msg = sha256_spec (map (\<lambda>b. b XOR 0x5c) (hmac_key_pad key) @
    sha256_spec (map (\<lambda>b. b XOR 0x36) (hmac_key_pad key) @ msg))"
proof -
  have two: "sha256_final (sha256_update (sha256_update sha256_init a) b) = sha256_spec (a @ b)"
    if "length a + length b < 4294967296" for a b
    using sha256_update_append [OF sha_ok_init, of a b] sha256_binary_spec [of "a @ b"] that by (simp add: sha256_binary_def)
  have "sha256_spec (map (\<lambda>b. b XOR 0x36) (hmac_key_pad key) @ msg) =
      sha256_final (sha256_update (sha256_update sha256_init (map (\<lambda>b. b XOR 0x36) (hmac_key_pad key))) msg)"
    using two [of "map (\<lambda>b. b XOR 0x36) (hmac_key_pad key)" msg] assms(2) by (simp add: length_key_pad)
  then have "length (sha256_spec (map (\<lambda>b. b XOR 0x36) (hmac_key_pad key) @ msg)) = 32" by simp
  then show ?thesis using assms by (simp add: hmac_sha256_def Let_def two length_key_pad)
qed

subsection \<open>Properties\<close>

text \<open>The iterates of RFC 2898, and the first block of its output.\<close>

fun pbkdf2_u :: "u8 list \<Rightarrow> u8 list \<Rightarrow> nat \<Rightarrow> u8 list" where
  "pbkdf2_u pw salt 0 = hmac_sha256 pw (salt @ [0, 0, 0, 1])"
| "pbkdf2_u pw salt (Suc i) = hmac_sha256 pw (pbkdf2_u pw salt i)"

definition pbkdf2_block :: "u8 list \<Rightarrow> u8 list \<Rightarrow> nat \<Rightarrow> u8 list" where
  "pbkdf2_block pw salt c = map (\<lambda>j. fold (\<lambda>i x. x XOR pbkdf2_u pw salt i ! j) [0..<c] 0) [0..<32]"

lemma length_pbkdf2_u [simp]: "length (pbkdf2_u pw salt i) = 32"
  by (cases i) simp_all

lemma pbkdf2_loop_spec:
  "pbkdf2_loop pw n (pbkdf2_u pw salt k) (pbkdf2_block pw salt (Suc k)) = pbkdf2_block pw salt (Suc (n + k))"
proof (induction n arbitrary: k)
  case (Suc n)
  have "map2 (XOR) (pbkdf2_block pw salt (Suc k)) (pbkdf2_u pw salt (Suc k)) = pbkdf2_block pw salt (Suc (Suc k))"
    by (rule nth_equalityI) (simp_all add: pbkdf2_block_def del: pbkdf2_u.simps)
  then show ?case using Suc.IH [of "Suc k"] by (simp add: Let_def)
qed simp

text \<open>
  (C26) Key derivation.  \<^verbatim>\<open>hmac_sha256\<close> is the nested hash of RFC 2104 for every key length, and
  \<^verbatim>\<open>pbkdf2_hmac_sha256\<close> is the exclusive-or of the iterates of RFC 2898: the aliased in-place loop
  computes the first output block, cut to the length asked for.
\<close>

theorem pbkdf2_standard:
  assumes "length key < 4294967296" "length msg < 4294967232" "length salt \<le> 252" "iterations \<noteq> 0"
  shows "hmac_sha256 key msg = sha256_spec (map (\<lambda>b. b XOR 0x5c) (hmac_key_pad key) @
      sha256_spec (map (\<lambda>b. b XOR 0x36) (hmac_key_pad key) @ msg)) \<and>
    pbkdf2_hmac_sha256 key salt iterations n = take n (pbkdf2_block key salt (unat iterations))"
proof
  show "hmac_sha256 key msg = sha256_spec (map (\<lambda>b. b XOR 0x5c) (hmac_key_pad key) @
      sha256_spec (map (\<lambda>b. b XOR 0x36) (hmac_key_pad key) @ msg))"
    by (rule hmac_spec [OF assms(1,2)])
  have "pbkdf2_block key salt (Suc 0) = pbkdf2_u key salt 0"
    by (rule nth_equalityI) (simp_all add: pbkdf2_block_def)
  then have "pbkdf2_loop key n (pbkdf2_u key salt 0) (pbkdf2_u key salt 0) = pbkdf2_block key salt (Suc n)" for n
    using pbkdf2_loop_spec [of key n salt 0] by simp
  moreover have "Suc (unat iterations - 1) = unat iterations" using assms(4) by (simp add: unat_gt_0)
  ultimately show "pbkdf2_hmac_sha256 key salt iterations n = take n (pbkdf2_block key salt (unat iterations))"
    using assms(3,4) by (simp add: pbkdf2_hmac_sha256_def Let_def)
qed

theorem pbkdf2_standard_witness:
  "pbkdf2_hmac_sha256 [1] [2, 3] 2 16 = take 16 (pbkdf2_block [1] [2, 3] 2)"
  using pbkdf2_standard [of "[1]" "[]" "[2, 3]" 2 16] by simp

end
