(* ===== verification/Aes.thy ===== *)
theory Aes
  imports Prelude
begin

text \<open>
  AES-256 as \<^verbatim>\<open>crypto/aes.c\<close> has it (\<open>AES256\<close> is the size its header selects, so \<open>Nk = 8\<close> and \<open>Nr = 14\<close>), in
  its block, CBC and counter modes.  The state is the 16-byte buffer itself: \<^verbatim>\<open>(*state)[i][j]\<close> is byte
  \<open>4 * i + j\<close>.
\<close>

definition sbox :: "u8 list" where
  "sbox =
    [0x63, 0x7c, 0x77, 0x7b, 0xf2, 0x6b, 0x6f, 0xc5, 0x30, 0x01, 0x67, 0x2b, 0xfe, 0xd7, 0xab, 0x76,
     0xca, 0x82, 0xc9, 0x7d, 0xfa, 0x59, 0x47, 0xf0, 0xad, 0xd4, 0xa2, 0xaf, 0x9c, 0xa4, 0x72, 0xc0,
     0xb7, 0xfd, 0x93, 0x26, 0x36, 0x3f, 0xf7, 0xcc, 0x34, 0xa5, 0xe5, 0xf1, 0x71, 0xd8, 0x31, 0x15,
     0x04, 0xc7, 0x23, 0xc3, 0x18, 0x96, 0x05, 0x9a, 0x07, 0x12, 0x80, 0xe2, 0xeb, 0x27, 0xb2, 0x75,
     0x09, 0x83, 0x2c, 0x1a, 0x1b, 0x6e, 0x5a, 0xa0, 0x52, 0x3b, 0xd6, 0xb3, 0x29, 0xe3, 0x2f, 0x84,
     0x53, 0xd1, 0x00, 0xed, 0x20, 0xfc, 0xb1, 0x5b, 0x6a, 0xcb, 0xbe, 0x39, 0x4a, 0x4c, 0x58, 0xcf,
     0xd0, 0xef, 0xaa, 0xfb, 0x43, 0x4d, 0x33, 0x85, 0x45, 0xf9, 0x02, 0x7f, 0x50, 0x3c, 0x9f, 0xa8,
     0x51, 0xa3, 0x40, 0x8f, 0x92, 0x9d, 0x38, 0xf5, 0xbc, 0xb6, 0xda, 0x21, 0x10, 0xff, 0xf3, 0xd2,
     0xcd, 0x0c, 0x13, 0xec, 0x5f, 0x97, 0x44, 0x17, 0xc4, 0xa7, 0x7e, 0x3d, 0x64, 0x5d, 0x19, 0x73,
     0x60, 0x81, 0x4f, 0xdc, 0x22, 0x2a, 0x90, 0x88, 0x46, 0xee, 0xb8, 0x14, 0xde, 0x5e, 0x0b, 0xdb,
     0xe0, 0x32, 0x3a, 0x0a, 0x49, 0x06, 0x24, 0x5c, 0xc2, 0xd3, 0xac, 0x62, 0x91, 0x95, 0xe4, 0x79,
     0xe7, 0xc8, 0x37, 0x6d, 0x8d, 0xd5, 0x4e, 0xa9, 0x6c, 0x56, 0xf4, 0xea, 0x65, 0x7a, 0xae, 0x08,
     0xba, 0x78, 0x25, 0x2e, 0x1c, 0xa6, 0xb4, 0xc6, 0xe8, 0xdd, 0x74, 0x1f, 0x4b, 0xbd, 0x8b, 0x8a,
     0x70, 0x3e, 0xb5, 0x66, 0x48, 0x03, 0xf6, 0x0e, 0x61, 0x35, 0x57, 0xb9, 0x86, 0xc1, 0x1d, 0x9e,
     0xe1, 0xf8, 0x98, 0x11, 0x69, 0xd9, 0x8e, 0x94, 0x9b, 0x1e, 0x87, 0xe9, 0xce, 0x55, 0x28, 0xdf,
     0x8c, 0xa1, 0x89, 0x0d, 0xbf, 0xe6, 0x42, 0x68, 0x41, 0x99, 0x2d, 0x0f, 0xb0, 0x54, 0xbb, 0x16]"

definition rsbox :: "u8 list" where
  "rsbox =
    [0x52, 0x09, 0x6a, 0xd5, 0x30, 0x36, 0xa5, 0x38, 0xbf, 0x40, 0xa3, 0x9e, 0x81, 0xf3, 0xd7, 0xfb,
     0x7c, 0xe3, 0x39, 0x82, 0x9b, 0x2f, 0xff, 0x87, 0x34, 0x8e, 0x43, 0x44, 0xc4, 0xde, 0xe9, 0xcb,
     0x54, 0x7b, 0x94, 0x32, 0xa6, 0xc2, 0x23, 0x3d, 0xee, 0x4c, 0x95, 0x0b, 0x42, 0xfa, 0xc3, 0x4e,
     0x08, 0x2e, 0xa1, 0x66, 0x28, 0xd9, 0x24, 0xb2, 0x76, 0x5b, 0xa2, 0x49, 0x6d, 0x8b, 0xd1, 0x25,
     0x72, 0xf8, 0xf6, 0x64, 0x86, 0x68, 0x98, 0x16, 0xd4, 0xa4, 0x5c, 0xcc, 0x5d, 0x65, 0xb6, 0x92,
     0x6c, 0x70, 0x48, 0x50, 0xfd, 0xed, 0xb9, 0xda, 0x5e, 0x15, 0x46, 0x57, 0xa7, 0x8d, 0x9d, 0x84,
     0x90, 0xd8, 0xab, 0x00, 0x8c, 0xbc, 0xd3, 0x0a, 0xf7, 0xe4, 0x58, 0x05, 0xb8, 0xb3, 0x45, 0x06,
     0xd0, 0x2c, 0x1e, 0x8f, 0xca, 0x3f, 0x0f, 0x02, 0xc1, 0xaf, 0xbd, 0x03, 0x01, 0x13, 0x8a, 0x6b,
     0x3a, 0x91, 0x11, 0x41, 0x4f, 0x67, 0xdc, 0xea, 0x97, 0xf2, 0xcf, 0xce, 0xf0, 0xb4, 0xe6, 0x73,
     0x96, 0xac, 0x74, 0x22, 0xe7, 0xad, 0x35, 0x85, 0xe2, 0xf9, 0x37, 0xe8, 0x1c, 0x75, 0xdf, 0x6e,
     0x47, 0xf1, 0x1a, 0x71, 0x1d, 0x29, 0xc5, 0x89, 0x6f, 0xb7, 0x62, 0x0e, 0xaa, 0x18, 0xbe, 0x1b,
     0xfc, 0x56, 0x3e, 0x4b, 0xc6, 0xd2, 0x79, 0x20, 0x9a, 0xdb, 0xc0, 0xfe, 0x78, 0xcd, 0x5a, 0xf4,
     0x1f, 0xdd, 0xa8, 0x33, 0x88, 0x07, 0xc7, 0x31, 0xb1, 0x12, 0x10, 0x59, 0x27, 0x80, 0xec, 0x5f,
     0x60, 0x51, 0x7f, 0xa9, 0x19, 0xb5, 0x4a, 0x0d, 0x2d, 0xe5, 0x7a, 0x9f, 0x93, 0xc9, 0x9c, 0xef,
     0xa0, 0xe0, 0x3b, 0x4d, 0xae, 0x2a, 0xf5, 0xb0, 0xc8, 0xeb, 0xbb, 0x3c, 0x83, 0x53, 0x99, 0x61,
     0x17, 0x2b, 0x04, 0x7e, 0xba, 0x77, 0xd6, 0x26, 0xe1, 0x69, 0x14, 0x63, 0x55, 0x21, 0x0c, 0x7d]"

definition Rcon :: "u8 list" where
  "Rcon = [0x8d, 0x01, 0x02, 0x04, 0x08, 0x10, 0x20, 0x40, 0x80, 0x1b, 0x36]"

abbreviation getSBoxValue :: "u8 \<Rightarrow> u8" where "getSBoxValue b \<equiv> sbox ! unat b"

abbreviation getSBoxInvert :: "u8 \<Rightarrow> u8" where "getSBoxInvert b \<equiv> rsbox ! unat b"

definition Nk :: nat where "Nk = 8"

definition Nr :: nat where "Nr = 14"

definition AES_BLOCKLEN :: nat where "AES_BLOCKLEN = 16"

subsection \<open>The key schedule\<close>

text \<open>One more word of the schedule, appended to the words there are.\<close>

definition expand_word :: "nat \<Rightarrow> u8 list \<Rightarrow> u8 list" where
  "expand_word i rk =
     (let k = (i - 1) * 4;
          tempa = [rk ! k, rk ! (k + 1), rk ! (k + 2), rk ! (k + 3)];
          tempa = (if i mod Nk = 0
                   then (let r = [tempa ! 1, tempa ! 2, tempa ! 3, tempa ! 0];
                             s = map (\<lambda>b. getSBoxValue b) r
                         in s[0 := s ! 0 XOR Rcon ! (i div Nk)])
                   else tempa);
          tempa = (if i mod Nk = 4 then map (\<lambda>b. getSBoxValue b) tempa else tempa);
          j = (i - Nk) * 4
      in rk @ [rk ! j XOR tempa ! 0, rk ! (j + 1) XOR tempa ! 1, rk ! (j + 2) XOR tempa ! 2, rk ! (j + 3) XOR tempa ! 3])"

definition KeyExpansion :: "u8 list \<Rightarrow> u8 list" where
  "KeyExpansion key = fold expand_word [Nk..<4 * (Nr + 1)] (take (4 * Nk) key)"

subsection \<open>The steps of a round\<close>

definition AddRoundKey :: "nat \<Rightarrow> u8 list \<Rightarrow> u8 list \<Rightarrow> u8 list" where
  "AddRoundKey round rk st = map (\<lambda>n. st ! n XOR rk ! (round * 16 + n)) [0..<16]"

definition SubBytes :: "u8 list \<Rightarrow> u8 list" where
  "SubBytes st = map (\<lambda>b. getSBoxValue b) st"

definition cell :: "u8 list \<Rightarrow> nat \<Rightarrow> nat \<Rightarrow> u8" where
  "cell st i j = st ! (4 * i + j)"

definition put_cell :: "nat \<Rightarrow> nat \<Rightarrow> u8 \<Rightarrow> u8 list \<Rightarrow> u8 list" where
  "put_cell i j v st = st[4 * i + j := v]"

definition ShiftRows :: "u8 list \<Rightarrow> u8 list" where
  "ShiftRows st =
     (let temp = cell st 0 1;
          st = put_cell 0 1 (cell st 1 1) st; st = put_cell 1 1 (cell st 2 1) st; st = put_cell 2 1 (cell st 3 1) st;
          st = put_cell 3 1 temp st;
          temp = cell st 0 2; st = put_cell 0 2 (cell st 2 2) st; st = put_cell 2 2 temp st;
          temp = cell st 1 2; st = put_cell 1 2 (cell st 3 2) st; st = put_cell 3 2 temp st;
          temp = cell st 0 3;
          st = put_cell 0 3 (cell st 3 3) st; st = put_cell 3 3 (cell st 2 3) st; st = put_cell 2 3 (cell st 1 3) st
      in put_cell 1 3 temp st)"

definition xtime :: "u8 \<Rightarrow> u8" where
  "xtime x = push_bit 1 x XOR ((drop_bit 7 x AND 1) * 0x1b)"

fun mix_column :: "u8 list \<Rightarrow> u8 list" where
  "mix_column [a, b, c, d] =
     (let tmp = a XOR b XOR c XOR d
      in [a XOR xtime (a XOR b) XOR tmp, b XOR xtime (b XOR c) XOR tmp, c XOR xtime (c XOR d) XOR tmp, d XOR xtime (d XOR a) XOR tmp])"
| "mix_column v = v"

definition columns :: "(u8 list \<Rightarrow> u8 list) \<Rightarrow> u8 list \<Rightarrow> u8 list" where
  "columns f st = concat (map (\<lambda>i. f (take 4 (drop (4 * i) st))) [0..<4])"

definition MixColumns :: "u8 list \<Rightarrow> u8 list" where
  "MixColumns st = columns mix_column st"

definition Multiply :: "u8 \<Rightarrow> u8 \<Rightarrow> u8" where
  "Multiply x y = ((y AND 1) * x) XOR ((drop_bit 1 y AND 1) * xtime x) XOR ((drop_bit 2 y AND 1) * xtime (xtime x)) XOR
     ((drop_bit 3 y AND 1) * xtime (xtime (xtime x))) XOR ((drop_bit 4 y AND 1) * xtime (xtime (xtime (xtime x))))"

fun inv_mix_column :: "u8 list \<Rightarrow> u8 list" where
  "inv_mix_column [a, b, c, d] =
     [Multiply a 0x0e XOR Multiply b 0x0b XOR Multiply c 0x0d XOR Multiply d 0x09,
      Multiply a 0x09 XOR Multiply b 0x0e XOR Multiply c 0x0b XOR Multiply d 0x0d,
      Multiply a 0x0d XOR Multiply b 0x09 XOR Multiply c 0x0e XOR Multiply d 0x0b,
      Multiply a 0x0b XOR Multiply b 0x0d XOR Multiply c 0x09 XOR Multiply d 0x0e]"
| "inv_mix_column v = v"

definition InvMixColumns :: "u8 list \<Rightarrow> u8 list" where
  "InvMixColumns st = columns inv_mix_column st"

definition InvSubBytes :: "u8 list \<Rightarrow> u8 list" where
  "InvSubBytes st = map (\<lambda>b. getSBoxInvert b) st"

definition InvShiftRows :: "u8 list \<Rightarrow> u8 list" where
  "InvShiftRows st =
     (let temp = cell st 3 1;
          st = put_cell 3 1 (cell st 2 1) st; st = put_cell 2 1 (cell st 1 1) st; st = put_cell 1 1 (cell st 0 1) st;
          st = put_cell 0 1 temp st;
          temp = cell st 0 2; st = put_cell 0 2 (cell st 2 2) st; st = put_cell 2 2 temp st;
          temp = cell st 1 2; st = put_cell 1 2 (cell st 3 2) st; st = put_cell 3 2 temp st;
          temp = cell st 0 3;
          st = put_cell 0 3 (cell st 1 3) st; st = put_cell 1 3 (cell st 2 3) st; st = put_cell 2 3 (cell st 3 3) st
      in put_cell 3 3 temp st)"

subsection \<open>One block\<close>

text \<open>The loop of \<^verbatim>\<open>Cipher\<close> from a round on, given how many rounds are left after it.\<close>

fun cipher_rounds :: "u8 list \<Rightarrow> nat \<Rightarrow> nat \<Rightarrow> u8 list \<Rightarrow> u8 list" where
  "cipher_rounds rk round 0 st = ShiftRows (SubBytes st)"
| "cipher_rounds rk round (Suc n) st =
     cipher_rounds rk (Suc round) n (AddRoundKey round rk (MixColumns (ShiftRows (SubBytes st))))"

definition Cipher :: "u8 list \<Rightarrow> u8 list \<Rightarrow> u8 list" where
  "Cipher rk st = AddRoundKey Nr rk (cipher_rounds rk 1 (Nr - 1) (AddRoundKey 0 rk st))"

text \<open>The loop of \<^verbatim>\<open>InvCipher\<close>, counting the round down to 0.\<close>

fun inv_cipher_rounds :: "u8 list \<Rightarrow> nat \<Rightarrow> u8 list \<Rightarrow> u8 list" where
  "inv_cipher_rounds rk 0 st = AddRoundKey 0 rk (InvSubBytes (InvShiftRows st))"
| "inv_cipher_rounds rk (Suc n) st =
     inv_cipher_rounds rk n (InvMixColumns (AddRoundKey (Suc n) rk (InvSubBytes (InvShiftRows st))))"

definition InvCipher :: "u8 list \<Rightarrow> u8 list \<Rightarrow> u8 list" where
  "InvCipher rk st = inv_cipher_rounds rk (Nr - 1) (AddRoundKey Nr rk st)"

subsection \<open>Modes\<close>

record AES_ctx =
  RoundKey :: "u8 list"
  Iv :: "u8 list"

definition AES_init_ctx :: "AES_ctx \<Rightarrow> u8 list \<Rightarrow> AES_ctx" where
  "AES_init_ctx ctx key = ctx\<lparr>RoundKey := KeyExpansion key\<rparr>"

definition AES_init_ctx_iv :: "u8 list \<Rightarrow> u8 list \<Rightarrow> AES_ctx" where
  "AES_init_ctx_iv key iv = \<lparr>RoundKey = KeyExpansion key, Iv = take AES_BLOCKLEN iv\<rparr>"

definition AES_ctx_set_iv :: "AES_ctx \<Rightarrow> u8 list \<Rightarrow> AES_ctx" where
  "AES_ctx_set_iv ctx iv = ctx\<lparr>Iv := take AES_BLOCKLEN iv\<rparr>"

definition AES_ECB_encrypt :: "AES_ctx \<Rightarrow> u8 list \<Rightarrow> u8 list" where
  "AES_ECB_encrypt ctx buf = Cipher (RoundKey ctx) buf"

definition AES_ECB_decrypt :: "AES_ctx \<Rightarrow> u8 list \<Rightarrow> u8 list" where
  "AES_ECB_decrypt ctx buf = InvCipher (RoundKey ctx) buf"

definition XorWithIv :: "u8 list \<Rightarrow> u8 list \<Rightarrow> u8 list" where
  "XorWithIv buf iv = map (\<lambda>i. buf ! i XOR iv ! i) [0..<16]"

text \<open>
  The buffer after the call and the context's new vector.  The loops work on whole blocks, so a
  length that is no multiple of 16 makes them run past the buffer: \<open>None\<close>.
\<close>

fun cbc_encrypt :: "u8 list \<Rightarrow> u8 list \<Rightarrow> nat \<Rightarrow> u8 list \<Rightarrow> u8 list \<times> u8 list" where
  "cbc_encrypt rk iv 0 buf = ([], iv)"
| "cbc_encrypt rk iv (Suc n) buf =
     (let c = Cipher rk (XorWithIv (take 16 buf) iv);
          (cs, iv') = cbc_encrypt rk c n (drop 16 buf)
      in (c @ cs, iv'))"

definition AES_CBC_encrypt_buffer :: "AES_ctx \<Rightarrow> u8 list \<Rightarrow> (u8 list \<times> AES_ctx) option" where
  "AES_CBC_encrypt_buffer ctx buf =
     (if length buf mod 16 \<noteq> 0 then None
      else case cbc_encrypt (RoundKey ctx) (Iv ctx) (length buf div 16) buf of (cs, iv) \<Rightarrow> Some (cs, ctx\<lparr>Iv := iv\<rparr>))"

fun cbc_decrypt :: "u8 list \<Rightarrow> u8 list \<Rightarrow> nat \<Rightarrow> u8 list \<Rightarrow> u8 list \<times> u8 list" where
  "cbc_decrypt rk iv 0 buf = ([], iv)"
| "cbc_decrypt rk iv (Suc n) buf =
     (let storeNextIv = take 16 buf;
          p = XorWithIv (InvCipher rk (take 16 buf)) iv;
          (ps, iv') = cbc_decrypt rk storeNextIv n (drop 16 buf)
      in (p @ ps, iv'))"

definition AES_CBC_decrypt_buffer :: "AES_ctx \<Rightarrow> u8 list \<Rightarrow> (u8 list \<times> AES_ctx) option" where
  "AES_CBC_decrypt_buffer ctx buf =
     (if length buf mod 16 \<noteq> 0 then None
      else case cbc_decrypt (RoundKey ctx) (Iv ctx) (length buf div 16) buf of (ps, iv) \<Rightarrow> Some (ps, ctx\<lparr>Iv := iv\<rparr>))"

text \<open>The counter is the vector as a big-endian number; from position \<open>n\<close> of it down.\<close>

fun inc_iv :: "nat \<Rightarrow> u8 list \<Rightarrow> u8 list" where
  "inc_iv 0 iv = iv"
| "inc_iv (Suc n) iv = (if iv ! n = 255 then inc_iv n (iv[n := 0]) else iv[n := iv ! n + 1])"

fun ctr_xcrypt :: "u8 list \<Rightarrow> u8 list \<Rightarrow> u8 list \<Rightarrow> nat \<Rightarrow> u8 list \<Rightarrow> u8 list \<times> u8 list" where
  "ctr_xcrypt rk iv stream bi [] = ([], iv)"
| "ctr_xcrypt rk iv stream bi (b # bs) =
     (let (stream, iv, bi) = (if bi = AES_BLOCKLEN then (Cipher rk iv, inc_iv AES_BLOCKLEN iv, 0) else (stream, iv, bi));
          (cs, iv') = ctr_xcrypt rk iv stream (Suc bi) bs
      in ((b XOR stream ! bi) # cs, iv'))"

definition AES_CTR_xcrypt_buffer :: "AES_ctx \<Rightarrow> u8 list \<Rightarrow> u8 list \<times> AES_ctx" where
  "AES_CTR_xcrypt_buffer ctx buf =
     (case ctr_xcrypt (RoundKey ctx) (Iv ctx) [] AES_BLOCKLEN buf of (cs, iv) \<Rightarrow> (cs, ctx\<lparr>Iv := iv\<rparr>))"

subsection \<open>Each step has an inverse\<close>

lemma sbox_table: "list_all (\<lambda>n. rsbox ! unat (sbox ! n) = of_nat n) [0..<256]"
  by code_simp

lemma rsbox_sbox [simp]: "getSBoxInvert (getSBoxValue b) = b"
proof -
  have "unat b < 256" using unsigned_less [of b, where ?'a = nat] by simp
  then have "rsbox ! unat (sbox ! unat b) = of_nat (unat b)" using sbox_table by (simp add: list_all_iff)
  then show ?thesis by simp
qed

lemma InvSubBytes_SubBytes [simp]: "InvSubBytes (SubBytes st) = st"
  by (simp add: InvSubBytes_def SubBytes_def o_def)

lemma length_steps [simp]:
  "length (SubBytes st) = length st" "length (ShiftRows st) = length st" "length (AddRoundKey r rk st) = 16"
  by (simp_all add: SubBytes_def ShiftRows_def AddRoundKey_def put_cell_def Let_def)

lemma length16E:
  assumes "length (st :: u8 list) = 16"
  obtains a b c d e f g h i j k l m n p q where "st = [a, b, c, d, e, f, g, h, i, j, k, l, m, n, p, q]"
proof -
  have "st = map (\<lambda>i. st ! i) [0..<16]" using assms by (metis map_nth)
  also have "[0..<16] = [0, 1, 2, 3, 4, 5, 6, 7, 8, 9, 10, 11, 12, 13, 14, 15 :: nat]" by code_simp
  finally show ?thesis using that by simp
qed

lemma InvShiftRows_ShiftRows [simp]:
  assumes "length st = 16"
  shows "InvShiftRows (ShiftRows st) = st"
  using assms by (elim length16E) (simp add: InvShiftRows_def ShiftRows_def cell_def put_cell_def Let_def numeral_nat)

lemma xor_cancel: "(a :: u8) XOR (a XOR b) = b" "a XOR (b XOR a) = b" "(b XOR a) XOR a = b"
  by (simp_all add: ac_simps)

lemma AddRoundKey_twice [simp]:
  assumes "length st = 16"
  shows "AddRoundKey r rk (AddRoundKey r rk st) = st"
  by (rule nth_equalityI) (simp_all add: assms AddRoundKey_def xor_cancel)

text \<open>Multiplication by \<open>x\<close> is linear, so the mixing of a column is undone by the inverse polynomial.\<close>

lemma carry_eq: "(drop_bit 7 x AND 1) * 0x1b = (if bit (x :: u8) 7 then 0x1b else 0)"
proof -
  have "drop_bit 7 x AND 1 = (if bit x 7 then 1 else 0)"
    by (simp add: and_one_eq bit_iff_odd_drop_bit odd_iff_mod_2_eq_one even_iff_mod_2_eq_zero)
  then show ?thesis by simp
qed

lemma xtime_xor: "xtime (a XOR b) = xtime a XOR xtime b"
proof -
  have "push_bit 1 (a XOR b) = push_bit 1 a XOR push_bit 1 b" by (rule push_bit_xor)
  moreover have "(drop_bit 7 (a XOR b) AND 1) * 0x1b = ((drop_bit 7 a AND 1) * 0x1b) XOR ((drop_bit 7 b AND 1) * 0x1b)"
    unfolding carry_eq by (simp add: bit_xor_iff)
  ultimately show ?thesis unfolding xtime_def by (simp only: ac_simps)
qed

lemma Multiply_eval:
  "Multiply x 0x0e = xtime x XOR xtime (xtime x) XOR xtime (xtime (xtime x))"
  "Multiply x 0x0b = x XOR xtime x XOR xtime (xtime (xtime x))"
  "Multiply x 0x0d = x XOR xtime (xtime x) XOR xtime (xtime (xtime x))"
  "Multiply x 0x09 = x XOR xtime (xtime (xtime x))"
  by (simp_all add: Multiply_def drop_bit_eq_div)

lemma inv_mix_mix: "inv_mix_column (mix_column [a, b, c, d]) = [a, b, c, d]"
  by (simp add: Let_def Multiply_eval xtime_xor ac_simps)

lemma columns_four: "columns f [a, b, c, d, e, g, h, i, j, k, l, m, n, p, q, r] = f [a, b, c, d] @ f [e, g, h, i] @ f [j, k, l, m] @ f [n, p, q, r]"
proof -
  have "[0..<4] = [0, 1, 2, 3 :: nat]" by code_simp
  then show ?thesis by (simp add: columns_def numeral_nat)
qed

lemma InvMixColumns_MixColumns [simp]:
  assumes "length st = 16"
  shows "InvMixColumns (MixColumns st) = st" "length (MixColumns st) = 16"
proof -
  obtain a b c d e g h i j k l m n p q r where st: "st = [a, b, c, d, e, g, h, i, j, k, l, m, n, p, q, r]"
    using assms by (rule length16E)
  have len: "length (mix_column [w, x, y, z]) = 4" for w x y z by (simp add: Let_def)
  obtain A B C D where
    A: "mix_column [a, b, c, d] = A" "length A = 4" and B: "mix_column [e, g, h, i] = B" "length B = 4" and
    C: "mix_column [j, k, l, m] = C" "length C = 4" and D: "mix_column [n, p, q, r] = D" "length D = 4"
    using len by metis
  have M: "MixColumns st = A @ B @ C @ D" unfolding MixColumns_def st columns_four A B C D ..
  then show "length (MixColumns st) = 16" using A B C D by simp
  have "[0..<4] = [0, 1, 2, 3 :: nat]" by code_simp
  then have "InvMixColumns (A @ B @ C @ D) = inv_mix_column A @ inv_mix_column B @ inv_mix_column C @ inv_mix_column D"
    using A(2) B(2) C(2) D(2) by (simp add: InvMixColumns_def columns_def)
  also have "\<dots> = st" unfolding st A(1) [symmetric] B(1) [symmetric] C(1) [symmetric] D(1) [symmetric] inv_mix_mix by simp
  finally show "InvMixColumns (MixColumns st) = st" unfolding M .
qed

lemma length_cipher_rounds: "length st = 16 \<Longrightarrow> length (cipher_rounds rk r n st) = 16"
  by (induction n arbitrary: r st) simp_all

text \<open>Undoing the rounds \<open>r, ..., r + n\<close> leaves the state before them, with the rounds below \<open>r\<close> to undo.\<close>

lemma inv_rounds:
  "length st = 16 \<Longrightarrow> inv_cipher_rounds rk (r + n) (cipher_rounds rk (Suc r) n (AddRoundKey r rk st)) =
    (case r of 0 \<Rightarrow> st | Suc k \<Rightarrow> inv_cipher_rounds rk k (InvMixColumns st))"
proof (induction n arbitrary: r st)
  case 0
  then show ?case by (cases r) simp_all
next
  case (Suc n)
  let ?t = "MixColumns (ShiftRows (SubBytes (AddRoundKey r rk st)))"
  have "inv_cipher_rounds rk (Suc r + n) (cipher_rounds rk (Suc (Suc r)) n (AddRoundKey (Suc r) rk ?t)) =
      inv_cipher_rounds rk r (InvMixColumns ?t)"
    using Suc.IH [of ?t "Suc r"] by simp
  then show ?case using Suc.prems by (cases r) simp_all
qed

lemma InvCipher_Cipher:
  assumes "length st = 16"
  shows "InvCipher rk (Cipher rk st) = st"
  using inv_rounds [of st rk 0 "Nr - 1"] assms length_cipher_rounds [of "AddRoundKey 0 rk st" rk 1 "Nr - 1"]
  by (simp add: InvCipher_def Cipher_def)

lemma length_Cipher [simp]: "length (Cipher rk st) = 16"
  by (simp add: Cipher_def)

subsection \<open>The modes\<close>

lemma XorWithIv_twice: "length buf = 16 \<Longrightarrow> XorWithIv (XorWithIv buf iv) iv = buf"
  by (rule nth_equalityI) (simp_all add: XorWithIv_def xor_cancel)

lemma length_XorWithIv [simp]: "length (XorWithIv buf iv) = 16"
  by (simp add: XorWithIv_def)

lemma cbc_round_trip:
  "length buf = 16 * n \<Longrightarrow> cbc_encrypt rk iv n buf = (cs, iv') \<Longrightarrow> length cs = 16 * n \<and> fst (cbc_decrypt rk iv n cs) = buf"
proof (induction n arbitrary: buf iv cs iv')
  case (Suc n)
  let ?c = "Cipher rk (XorWithIv (take 16 buf) iv)"
  obtain ds jv where r: "cbc_encrypt rk ?c n (drop 16 buf) = (ds, jv)" by fastforce
  then have cs: "cs = ?c @ ds" using Suc.prems(2) by (simp add: Let_def)
  have ih: "length ds = 16 * n \<and> fst (cbc_decrypt rk ?c n ds) = drop 16 buf"
    using Suc.IH [OF _ r] Suc.prems(1) by simp
  have "XorWithIv (InvCipher rk ?c) iv = take 16 buf"
    using Suc.prems(1) by (simp add: InvCipher_Cipher XorWithIv_twice)
  then show ?case using ih cs by (simp add: Let_def case_prod_beta)
qed simp

lemma cbc_buffer_round_trip:
  assumes "length buf mod 16 = 0"
  obtains cs ctx ctx' where "AES_CBC_encrypt_buffer (AES_init_ctx_iv key iv) buf = Some (cs, ctx)" "length cs = length buf"
    "AES_CBC_decrypt_buffer (AES_init_ctx_iv key iv) cs = Some (buf, ctx')"
proof -
  define ctx where "ctx = AES_init_ctx_iv key iv"
  have len: "length buf = 16 * (length buf div 16)" using assms by auto
  obtain cs iv' where e: "cbc_encrypt (RoundKey ctx) (Iv ctx) (length buf div 16) buf = (cs, iv')" by fastforce
  obtain ps jv where d: "cbc_decrypt (RoundKey ctx) (Iv ctx) (length buf div 16) cs = (ps, jv)" by fastforce
  have "length cs = length buf" "ps = buf" using cbc_round_trip [OF len e] len d by simp_all
  then show ?thesis using that e d assms unfolding ctx_def [symmetric]
    by (simp add: AES_CBC_encrypt_buffer_def AES_CBC_decrypt_buffer_def)
qed

lemma length_cbc_decrypt: "length (fst (cbc_decrypt rk iv n buf)) = 16 * n"
  by (induction n arbitrary: iv buf) (simp_all add: Let_def case_prod_beta)

text \<open>
  (C27) AES-CBC round trip.  For every key, vector and buffer of whole blocks, decrypting what
  \<^verbatim>\<open>AES_CBC_encrypt_buffer\<close> produced, under the same key and vector, gives back the buffer; neither
  call touches memory outside it.
\<close>

theorem aes_cbc_round_trip:
  assumes "length buf mod 16 = 0"
  shows "\<exists>cs ctx ctx'. AES_CBC_encrypt_buffer (AES_init_ctx_iv key iv) buf = Some (cs, ctx) \<and> length cs = length buf \<and>
    AES_CBC_decrypt_buffer (AES_init_ctx_iv key iv) cs = Some (buf, ctx')"
  using cbc_buffer_round_trip [OF assms, of key iv] by blast

theorem aes_cbc_round_trip_witness:
  "\<exists>cs ctx ctx'. AES_CBC_encrypt_buffer (AES_init_ctx_iv (replicate 32 7) (replicate 16 1)) (replicate 32 9) = Some (cs, ctx) \<and>
    AES_CBC_decrypt_buffer (AES_init_ctx_iv (replicate 32 7) (replicate 16 1)) cs = Some (replicate 32 9, ctx')"
  using aes_cbc_round_trip [of "replicate 32 9" "replicate 32 7" "replicate 16 1"] by auto

lemma ctr_involution:
  "ctr_xcrypt rk iv stream bi bs = (cs, iv') \<Longrightarrow> ctr_xcrypt rk iv stream bi cs = (bs, iv') \<and> length cs = length bs"
proof (induction bs arbitrary: iv stream bi cs iv')
  case (Cons b bs)
  obtain stream1 iv1 bi1 where s: "(if bi = AES_BLOCKLEN then (Cipher rk iv, inc_iv AES_BLOCKLEN iv, 0) else (stream, iv, bi)) = (stream1, iv1, bi1)"
    by (metis prod_cases3)
  obtain ds jv where r: "ctr_xcrypt rk iv1 stream1 (Suc bi1) bs = (ds, jv)" by fastforce
  have "cs = (b XOR stream1 ! bi1) # ds" "jv = iv'" using Cons.prems s r by (simp_all add: Let_def)
  then show ?case using Cons.IH [OF r] s by (simp add: Let_def xor_cancel)
qed simp

end
