(* ===== verification/Keyslot.thy ===== *)
theory Keyslot
  imports Hmac Aes Security
begin

text \<open>
  The passphrase slot of \<^verbatim>\<open>crypto/keyslot.c\<close>: a data key wrapped under a key derived from a
  passphrase, with a tag over everything the slot holds.  A passphrase is a C string or a null
  pointer; the slot and the data key are valid pointers.  The outcomes of the RDRAND instruction
  during each request for random bytes are arguments.  Wiping of dead buffers has no effect on what
  the functions return and is not modelled.  A result \<open>None\<close> is a buffer overrun.
\<close>

definition KEYSLOT_SALT_LEN :: nat where "KEYSLOT_SALT_LEN = 32"

definition KEYSLOT_IV_LEN :: nat where "KEYSLOT_IV_LEN = 16"

definition KEYSLOT_KEY_LEN :: nat where "KEYSLOT_KEY_LEN = 32"

definition KEYSLOT_TAG_LEN :: nat where "KEYSLOT_TAG_LEN = 32"

definition KEYSLOT_MAX_PASSPHRASE :: nat where "KEYSLOT_MAX_PASSPHRASE = 64"

definition KEYSLOT_DISK_SIZE :: nat where "KEYSLOT_DISK_SIZE = 116"

lemmas keyslot_lens =
  KEYSLOT_SALT_LEN_def KEYSLOT_IV_LEN_def KEYSLOT_KEY_LEN_def KEYSLOT_TAG_LEN_def

record keyslot_t =
  salt :: "u8 list"
  iterations :: u32
  iv :: "u8 list"
  wrapped :: "u8 list"
  tag :: "u8 list"

text \<open>The packed layout on the disk.\<close>

definition encode_keyslot :: "keyslot_t \<Rightarrow> u8 list" where
  "encode_keyslot k = salt k @ le32 (iterations k) @ iv k @ wrapped k @ tag k"

definition decode_keyslot :: "u8 list \<Rightarrow> keyslot_t" where
  "decode_keyslot b =
     \<lparr>salt = take 32 b, iterations = of_le32 (take 4 (drop 32 b)), iv = take 16 (drop 36 b),
      wrapped = take 32 (drop 52 b), tag = take 32 (drop 84 b)\<rparr>"

definition keyslot_tag_input :: "keyslot_t \<Rightarrow> u8 list" where
  "keyslot_tag_input k = salt k @ iv k @ wrapped k"

definition keyslot_derive_kek :: "keyslot_t \<Rightarrow> u8 list \<Rightarrow> u8 list" where
  "keyslot_derive_kek k passphrase = pbkdf2_hmac_sha256 (cstr passphrase) (salt k) (iterations k) KEYSLOT_KEY_LEN"

definition passphrase_is_usable :: "u8 list option \<Rightarrow> bool" where
  "passphrase_is_usable passphrase =
     (case passphrase of None \<Rightarrow> False
      | Some pw \<Rightarrow> 0 < length (cstr pw) \<and> length (cstr pw) < KEYSLOT_MAX_PASSPHRASE)"

type_synonym rdrand = "bool \<times> u32 option list"

text \<open>A buffer filled by the entropy pool: its quality, the buffer after it, and the pool.\<close>

definition random_fill :: "rdrand \<Rightarrow> entropy_pool \<Rightarrow> u8 list \<Rightarrow> nat \<Rightarrow> entropy_quality_t \<times> u8 list \<times> entropy_pool" where
  "random_fill rd p buf n =
     (case generate_random_bytes (fst rd) (snd rd) p n of
        (q, bs, p') \<Rightarrow> (q, (case bs of None \<Rightarrow> buf | Some b \<Rightarrow> b), p'))"

definition PBKDF2_DEFAULT_ITERATIONS :: u32 where
  "PBKDF2_DEFAULT_ITERATIONS = 600000"

definition keyslot_create :: "rdrand \<Rightarrow> rdrand \<Rightarrow> entropy_pool \<Rightarrow> keyslot_t \<Rightarrow> u8 list option \<Rightarrow> u8 list \<Rightarrow>
  (status \<times> keyslot_t \<times> entropy_pool) option" where
  "keyslot_create rd1 rd2 p slot passphrase dek =
     (if \<not> passphrase_is_usable passphrase then Some (Some E_INVAL, slot, p)
      else case random_fill rd1 p (salt slot) KEYSLOT_SALT_LEN of
        (q1, salt1, p1) \<Rightarrow>
          if q1 = ENTROPY_FAIL then Some (Some E_IO, slot\<lparr>salt := salt1\<rparr>, p1)
          else (case random_fill rd2 p1 (iv slot) KEYSLOT_IV_LEN of
            (q2, iv1, p2) \<Rightarrow>
              let slot2 = slot\<lparr>salt := salt1, iv := iv1\<rparr> in
              if q2 = ENTROPY_FAIL then Some (Some E_IO, slot2, p2)
              else let slot3 = slot2\<lparr>iterations := PBKDF2_DEFAULT_ITERATIONS\<rparr>;
                       kek = keyslot_derive_kek slot3 (the passphrase) in
                case AES_CBC_encrypt_buffer (AES_init_ctx_iv kek (iv slot3)) (take KEYSLOT_KEY_LEN dek) of
                  None \<Rightarrow> None
                | Some (w, _) \<Rightarrow>
                    let slot4 = slot3\<lparr>wrapped := w\<rparr>
                    in Some (None, slot4\<lparr>tag := hmac_sha256 kek (keyslot_tag_input slot4)\<rparr>, p2)))"

definition keyslot_unwrap :: "keyslot_t \<Rightarrow> u8 list option \<Rightarrow> (errno + u8 list) option" where
  "keyslot_unwrap slot passphrase =
     (if \<not> passphrase_is_usable passphrase then Some (Inl E_INVAL)
      else if \<not> pbkdf2_iterations_are_acceptable (iterations slot) then Some (Inl E_INVAL)
      else let kek = keyslot_derive_kek slot (the passphrase);
               expected_tag = hmac_sha256 kek (keyslot_tag_input slot) in
        if crypto_ct_cmp_bytes expected_tag (tag slot) KEYSLOT_TAG_LEN \<noteq> 0 then Some (Inl E_ACCES)
        else case AES_CBC_decrypt_buffer (AES_init_ctx_iv kek (iv slot)) (wrapped slot) of
               None \<Rightarrow> None
             | Some (plain, _) \<Rightarrow> Some (Inr plain))"

definition keyslot_is_present :: "keyslot_t \<Rightarrow> bool" where
  "keyslot_is_present slot \<longleftrightarrow> iterations slot \<noteq> 0"

subsection \<open>Slots that were built here\<close>

definition slot_wf :: "keyslot_t \<Rightarrow> bool" where
  "slot_wf k \<longleftrightarrow> length (salt k) = 32 \<and> length (iv k) = 16 \<and> length (wrapped k) = 32 \<and> length (tag k) = 32"

lemma length_encode_keyslot: "slot_wf k \<Longrightarrow> length (encode_keyslot k) = KEYSLOT_DISK_SIZE"
  by (simp add: slot_wf_def encode_keyslot_def KEYSLOT_DISK_SIZE_def)

lemma decode_encode_keyslot: "slot_wf k \<Longrightarrow> decode_keyslot (encode_keyslot k @ rest) = k"
  by (simp add: slot_wf_def encode_keyslot_def decode_keyslot_def)

lemma slot_wf_decode: "KEYSLOT_DISK_SIZE \<le> length b \<Longrightarrow> slot_wf (decode_keyslot b)"
  by (simp add: slot_wf_def decode_keyslot_def KEYSLOT_DISK_SIZE_def)

lemma random_fill_length:
  assumes "random_fill rd p buf n = (q, b, p')" "q \<noteq> ENTROPY_FAIL" "0 < n"
  shows "length b = n"
proof -
  obtain q' bs p'' where g: "generate_random_bytes (fst rd) (snd rd) p n = (q', bs, p'')" by (metis prod_cases3)
  then have "q' = q" "b = (case bs of None \<Rightarrow> buf | Some x \<Rightarrow> x)" using assms(1) by (simp_all add: random_fill_def)
  then show ?thesis using length_random_bytes [OF g] assms(2,3) by auto
qed

lemma default_iterations_ok: "pbkdf2_iterations_are_acceptable PBKDF2_DEFAULT_ITERATIONS" "PBKDF2_DEFAULT_ITERATIONS \<noteq> 0"
  by (simp_all add: pbkdf2_iterations_are_acceptable_def PBKDF2_DEFAULT_ITERATIONS_def PBKDF2_MIN_ITERATIONS_def
    PBKDF2_MAX_ITERATIONS_def)

text \<open>What a successful creation leaves: a present, well-formed slot whose tag and key fit.\<close>

lemma keyslot_create_spec:
  assumes "keyslot_create rd1 rd2 p slot pw dek = Some (None, slot', p')" "length dek = KEYSLOT_KEY_LEN"
  shows "passphrase_is_usable pw" "slot_wf slot'" "iterations slot' = PBKDF2_DEFAULT_ITERATIONS"
    "tag slot' = hmac_sha256 (keyslot_derive_kek slot' (the pw)) (keyslot_tag_input slot')"
    "\<exists>ctx. AES_CBC_decrypt_buffer (AES_init_ctx_iv (keyslot_derive_kek slot' (the pw)) (iv slot')) (wrapped slot') = Some (dek, ctx)"
proof -
  show pw: "passphrase_is_usable pw" using assms(1) by (auto simp: keyslot_create_def split: if_splits)
  obtain q1 s1 p1 where f1: "random_fill rd1 p (salt slot) KEYSLOT_SALT_LEN = (q1, s1, p1)" by (metis prod_cases3)
  obtain q2 v1 p2 where f2: "random_fill rd2 p1 (iv slot) KEYSLOT_IV_LEN = (q2, v1, p2)" by (metis prod_cases3)
  have q: "q1 \<noteq> ENTROPY_FAIL" "q2 \<noteq> ENTROPY_FAIL"
    using assms(1) pw f1 f2 by (auto simp: keyslot_create_def Let_def split: if_splits)
  define slot3 where "slot3 = slot\<lparr>salt := s1, iv := v1, iterations := PBKDF2_DEFAULT_ITERATIONS\<rparr>"
  define kek where "kek = keyslot_derive_kek slot3 (the pw)"
  have len: "length dek mod 16 = 0" using assms(2) by (simp add: keyslot_lens)
  obtain w ctx ctx' where w: "AES_CBC_encrypt_buffer (AES_init_ctx_iv kek v1) dek = Some (w, ctx)" "length w = length dek"
    "AES_CBC_decrypt_buffer (AES_init_ctx_iv kek v1) w = Some (dek, ctx')"
    by (rule cbc_buffer_round_trip [OF len])
  define slot4 where "slot4 = slot3\<lparr>wrapped := w\<rparr>"
  have s': "slot' = slot4\<lparr>tag := hmac_sha256 kek (keyslot_tag_input slot4)\<rparr>"
    using assms pw f1 f2 q w(1) unfolding keyslot_create_def
    by (simp add: Let_def slot3_def [symmetric] kek_def [symmetric] slot4_def [symmetric])
  have lens: "length s1 = 32" "length v1 = 16"
    using random_fill_length [OF f1 q(1)] random_fill_length [OF f2 q(2)] by (simp_all add: keyslot_lens)
  show "slot_wf slot'" using lens w(2) assms(2) by (simp add: s' slot4_def slot3_def slot_wf_def keyslot_lens)
  show "iterations slot' = PBKDF2_DEFAULT_ITERATIONS" by (simp add: s' slot4_def slot3_def)
  have kek': "keyslot_derive_kek slot' (the pw) = kek" "keyslot_tag_input slot' = keyslot_tag_input slot4" "iv slot' = v1"
    by (simp_all add: s' slot4_def slot3_def kek_def keyslot_derive_kek_def keyslot_tag_input_def)
  show "tag slot' = hmac_sha256 (keyslot_derive_kek slot' (the pw)) (keyslot_tag_input slot')"
    unfolding kek' by (simp add: s')
  show "\<exists>ctx. AES_CBC_decrypt_buffer (AES_init_ctx_iv (keyslot_derive_kek slot' (the pw)) (iv slot')) (wrapped slot') = Some (dek, ctx)"
    unfolding kek' using w(3) by (simp add: s' slot4_def)
qed

lemma keyslot_create_fails:
  assumes "keyslot_create rd1 rd2 p slot pw dek = Some (Some e, slot', p')"
  shows "e = E_INVAL \<and> \<not> passphrase_is_usable pw \<and> slot' = slot \<and> p' = p \<or> e = E_IO \<and> passphrase_is_usable pw"
  using assms by (auto simp: keyslot_create_def Let_def split: if_splits prod.splits option.splits)

lemma keyslot_unwrap_created:
  assumes "keyslot_create rd1 rd2 p slot pw dek = Some (None, slot', p')" "length dek = KEYSLOT_KEY_LEN"
  shows "keyslot_unwrap slot' pw = Some (Inr dek)" "keyslot_is_present slot'"
proof -
  note c = keyslot_create_spec [OF assms]
  have "crypto_ct_cmp_bytes (hmac_sha256 (keyslot_derive_kek slot' (the pw)) (keyslot_tag_input slot')) (tag slot') 32 = 0"
    unfolding c(4) [symmetric] using c(2) by (subst ct_cmp_iff) (simp_all add: slot_wf_def)
  then show "keyslot_unwrap slot' pw = Some (Inr dek)"
    using c(1,3,5) default_iterations_ok by (auto simp: keyslot_unwrap_def Let_def keyslot_lens)
  show "keyslot_is_present slot'" using c(3) default_iterations_ok by (simp add: keyslot_is_present_def)
qed


lemma random_fill_seeded:
  assumes "random_fill rd p buf n = (q, b, p')" "seeded p"
  shows "q \<noteq> ENTROPY_FAIL" "seeded p'"
  using assms random_bytes_seeded by (auto simp: random_fill_def split: prod.splits)

lemma keyslot_create_succeeds:
  assumes "seeded p" "passphrase_is_usable pw" "length dek = KEYSLOT_KEY_LEN"
  obtains slot' p' where "keyslot_create rd1 rd2 p slot pw dek = Some (None, slot', p')" "seeded p'"
proof -
  obtain q1 s1 p1 where f1: "random_fill rd1 p (salt slot) KEYSLOT_SALT_LEN = (q1, s1, p1)" by (metis prod_cases3)
  obtain q2 v1 p2 where f2: "random_fill rd2 p1 (iv slot) KEYSLOT_IV_LEN = (q2, v1, p2)" by (metis prod_cases3)
  note r1 = random_fill_seeded [OF f1 assms(1)]
  note r2 = random_fill_seeded [OF f2 r1(2)]
  have len: "length dek mod 16 = 0" using assms(3) by (simp add: keyslot_lens)
  define kek where "kek = keyslot_derive_kek (slot\<lparr>salt := s1, iv := v1, iterations := PBKDF2_DEFAULT_ITERATIONS\<rparr>) (the pw)"
  obtain w ctx where "AES_CBC_encrypt_buffer (AES_init_ctx_iv kek v1) dek = Some (w, ctx)"
    by (rule cbc_buffer_round_trip [OF len])
  then show ?thesis using that assms f1 f2 r1 r2 by (simp add: keyslot_create_def Let_def kek_def)
qed

subsection \<open>Properties\<close>

text \<open>
  Round trip (C33): with an initialised entropy pool and a usable passphrase a slot is always built,
  and after a trip through its 116 bytes on the disk the same passphrase gives back exactly the data
  key that was locked in.
\<close>

theorem keyslot_round_trip:
  assumes "seeded p" "passphrase_is_usable pw" "length dek = KEYSLOT_KEY_LEN"
  shows "\<exists>slot' p'. keyslot_create rd1 rd2 p slot pw dek = Some (None, slot', p') \<and>
    length (encode_keyslot slot') = KEYSLOT_DISK_SIZE \<and>
    keyslot_is_present (decode_keyslot (encode_keyslot slot' @ rest)) \<and>
    keyslot_unwrap (decode_keyslot (encode_keyslot slot' @ rest)) pw = Some (Inr dek)"
proof -
  obtain slot' p' where c: "keyslot_create rd1 rd2 p slot pw dek = Some (None, slot', p')"
    by (rule keyslot_create_succeeds [OF assms])
  note wf = keyslot_create_spec(2) [OF c assms(3)]
  show ?thesis using c keyslot_unwrap_created [OF c assms(3)] length_encode_keyslot [OF wf]
    by (auto simp: decode_encode_keyslot [OF wf])
qed

theorem keyslot_round_trip_witness:
  "\<exists>slot' p'. keyslot_create (False, []) (False, []) (pool_zero\<lparr>seeded := True\<rparr>) (decode_keyslot []) (Some [112, 119]) (replicate 32 5) =
      Some (None, slot', p') \<and> keyslot_unwrap (decode_keyslot (encode_keyslot slot' @ [0])) (Some [112, 119]) = Some (Inr (replicate 32 5))"
  using keyslot_round_trip [of "pool_zero\<lparr>seeded := True\<rparr>" "Some [112, 119]" "replicate 32 5" "(False, [])" "(False, [])"
      "decode_keyslot []" "[0]"]
  by (auto simp: passphrase_is_usable_def cstr_def KEYSLOT_MAX_PASSPHRASE_def KEYSLOT_KEY_LEN_def)



end
