(* ===== verification/Cryptofs.thy ===== *)
theory Cryptofs
  imports Fileops Keyslot
begin

text \<open>
  The encrypted form of files, \<^verbatim>\<open>fs/crypto_fs.c\<close>, and the operations of \<^verbatim>\<open>fs/vfs.c\<close> that choose between
  the plain and the encrypted form by the security level, buffer writes and replace the contents of
  a file.  \<open>kfs\<close> puts together the file system, the keys and the entropy pool; \<open>krt\<close> is what one call
  sees of the rest of the kernel: which requests the heap can satisfy, what fresh heap memory holds,
  and the outcomes of RDRAND.  A result \<open>None\<close> is behaviour C leaves undefined.
\<close>

record krt =
  kmalloc_ok :: "u32 \<Rightarrow> bool"
  kmem :: "u8 list"
  rd_iv :: rdrand

record 'w kfs =
  kfs_fs :: "'w fs_state"
  kfs_sec :: sec_state
  kfs_pool :: entropy_pool

definition env_at :: "'w fs_env \<Rightarrow> 'w kfs \<Rightarrow> 'w fs_env" where
  "env_at E s = E\<lparr>current_sec_level := sec_level (kfs_sec s)\<rparr>"

definition SAFE_MAGIC :: u32 where "SAFE_MAGIC = 0x53414645"

subsection \<open>Sealing and opening\<close>

definition le64 :: "64 word \<Rightarrow> u8 list" where
  "le64 w = map (\<lambda>i. ucast (drop_bit (i * 8) w)) [0..<8]"

text \<open>The bytes of \<^verbatim>\<open>"esdumanOS-iv-v1"\<close> with the terminator.\<close>

definition iv_label :: "u8 list" where
  "iv_label = [101, 115, 100, 117, 109, 97, 110, 79, 83, 45, 105, 118, 45, 118, 49, 0]"

definition derive_file_iv :: "krt \<Rightarrow> entropy_pool \<Rightarrow> u8 list \<Rightarrow> (errno + u8 list) \<times> entropy_pool" where
  "derive_file_iv K p key =
     (case generate_random_bytes (fst (rd_iv K)) (snd (rd_iv K)) p 16 of
        (q, bs, p1) \<Rightarrow>
          if q = ENTROPY_FAIL then (Inl E_IO, p1)
          else (case entropy_next_counter p1 of
                  (c, p2) \<Rightarrow> (Inr (take 16 (hmac_sha256 key (iv_label @ le64 c @ the bs))), p2)))"

definition fs_create_encrypted :: "'w fs_env \<Rightarrow> krt \<Rightarrow> 'w kfs \<Rightarrow> u8 list \<Rightarrow> u8 list \<Rightarrow> u32 \<Rightarrow> u8 list \<Rightarrow> u16 \<Rightarrow>
  (status \<times> 'w kfs) option" where
  "fs_create_encrypted E K s nm content len key p =
     (let payload_len = 40 + len;
          padded_len = (payload_len + 15) AND NOT 15;
          total_len = 16 + padded_len in
      if \<not> kmalloc_ok K total_len then Some (Some E_NOMEM, s)
      else case derive_file_iv K (kfs_pool s) key of
        (Inl e, p1) \<Rightarrow> Some (Some e, s\<lparr>kfs_pool := p1\<rparr>)
      | (Inr iv0, p1) \<Rightarrow>
          if unat total_len < 56 + unat len \<or> length content < unat len then None
          else let plain = le32 SAFE_MAGIC @ le32 len @ hmac_sha256 key (take (unat len) content) @ take (unat len) content @
                             replicate (unat padded_len - (40 + unat len)) 0 in
            (case AES_CBC_encrypt_buffer (AES_init_ctx_iv key iv0) plain of
               None \<Rightarrow> None
             | Some (c, _) \<Rightarrow>
                 (case fs_create_file_raw (env_at E s) (kfs_fs s) nm (iv0 @ c) total_len p of
                    None \<Rightarrow> None
                  | Some (st, f) \<Rightarrow> Some (st, s\<lparr>kfs_fs := f, kfs_pool := p1\<rparr>))))"

definition fs_size_encrypted :: "'w fs_env \<Rightarrow> 'w kfs \<Rightarrow> vfs_file_t \<Rightarrow> u8 list \<Rightarrow> ((errno + u32) \<times> 'w kfs) option" where
  "fs_size_encrypted E s f key =
     (if vf_size f \<le> 56 then Some (Inr 0, s)
      else case fs_read_sector E (kfs_fs s) (fs_cluster_to_sector (kfs_fs s) (vf_cluster f)) (stack_junk E) of
        (st, sec_buf, t) \<Rightarrow>
          let s1 = s\<lparr>kfs_fs := t\<rparr> in
          if st \<noteq> None then Some (Inl E_IO, s1)
          else (case AES_CBC_decrypt_buffer (AES_init_ctx_iv key (take 16 sec_buf)) (take AES_BLOCKLEN (drop 16 sec_buf)) of
                  None \<Rightarrow> None
                | Some (block, _) \<Rightarrow>
                    if of_le32 block \<noteq> SAFE_MAGIC then Some (Inl E_IO, s1)
                    else let orig_len = of_le32 (drop 4 block); max_possible_len = (vf_size f - 16) - 40 in
                      if max_possible_len < orig_len then Some (Inl E_IO, s1) else Some (Inr orig_len, s1)))"

text \<open>
  Opening a blob in place.  The cipher works on whole blocks, so a length that is no multiple of 16
  takes in heap memory behind the bytes (\<^verbatim>\<open>kmalloc\<close> rounds up to 16).  The result is the length of the
  plaintext and the memory from its first byte on.
\<close>

definition crypto_fs_open_blob :: "krt \<Rightarrow> u8 list \<Rightarrow> u8 list \<Rightarrow> (errno + u32 \<times> u8 list) option" where
  "crypto_fs_open_blob K buf key =
     (if length buf \<le> 56 then Some (Inl E_INVAL)
      else let cipher_len = length buf - 16;
               blocks = (cipher_len + 15) div 16 in
        case AES_CBC_decrypt_buffer (AES_init_ctx_iv key (take 16 buf)) (take (blocks * 16) (drop 16 (buf @ kmem K))) of
          None \<Rightarrow> None
        | Some (d, _) \<Rightarrow>
            let orig_len = of_le32 (drop 4 d) in
            if of_le32 d \<noteq> SAFE_MAGIC then Some (Inl E_ACCES)
            else if cipher_len - 40 < unat orig_len then Some (Inl E_INVAL)
            else if crypto_ct_cmp_bytes (hmac_sha256 key (take (unat orig_len) (drop 40 d))) (take 32 (drop 8 d)) 32 \<noteq> 0
              then Some (Inl E_IO)
            else Some (Inr (orig_len, drop 40 d)))"

definition fs_read_encrypted :: "'w fs_env \<Rightarrow> krt \<Rightarrow> 'w kfs \<Rightarrow> vfs_file_t \<Rightarrow> u32 \<Rightarrow> u8 list \<Rightarrow>
  (u8 list \<times> vfs_file_t \<times> 'w kfs) option" where
  "fs_read_encrypted E K s f sz key =
     (if vf_size f \<le> 56 \<or> \<not> kmalloc_ok K (vf_size f) then Some ([], f, s)
      else let requested_offset = current_offset f in
        case fs_read_raw E (kfs_fs s) (f\<lparr>current_offset := 0\<rparr>) (vf_size f) of
          None \<Rightarrow> None
        | Some (blob, f1, t) \<Rightarrow>
            let s1 = s\<lparr>kfs_fs := t\<rparr>; back = f1\<lparr>current_offset := requested_offset\<rparr> in
            if length blob \<le> 56 then Some ([], back, s1)
            else (case crypto_fs_open_blob K blob key of
                    None \<Rightarrow> None
                  | Some (Inl e) \<Rightarrow> Some ([], back, s1)
                  | Some (Inr (orig_len, plaintext)) \<Rightarrow>
                      let bytes_to_copy =
                        (if orig_len \<le> requested_offset then 0
                         else if orig_len < requested_offset + sz then orig_len - requested_offset
                         else sz) in
                      if bytes_to_copy \<noteq> 0 \<and> length plaintext < unat requested_offset + unat bytes_to_copy then None
                      else Some (take (unat bytes_to_copy) (drop (unat requested_offset) plaintext),
                                 f1\<lparr>current_offset := requested_offset + bytes_to_copy\<rparr>, s1)))"

subsection \<open>By security level\<close>

definition fs_read :: "'w fs_env \<Rightarrow> krt \<Rightarrow> 'w kfs \<Rightarrow> vfs_file_t \<Rightarrow> u32 \<Rightarrow>
  ((errno + u8 list) \<times> vfs_file_t \<times> 'w kfs) option" where
  "fs_read E K s f sz =
     (if SEC_LEVEL_CRYPTO_ENFORCED \<le> sec_level (kfs_sec s)
      then if \<not> crypto_fs_key_is_usable (kfs_sec s) then Some (Inl E_ACCES, f, s)
           else map_option (\<lambda>(bs, f', s'). (Inr bs, f', s')) (fs_read_encrypted E K s f sz (kernel_master_key (kfs_sec s)))
      else map_option (\<lambda>(bs, f', t). (Inr bs, f', s\<lparr>kfs_fs := t\<rparr>)) (fs_read_raw E (kfs_fs s) f sz))"

definition fs_size :: "'w fs_env \<Rightarrow> 'w kfs \<Rightarrow> vfs_file_t \<Rightarrow> ((errno + u32) \<times> 'w kfs) option" where
  "fs_size E s f =
     (if SEC_LEVEL_CRYPTO_ENFORCED \<le> sec_level (kfs_sec s)
      then if \<not> crypto_fs_key_is_usable (kfs_sec s) then Some (Inl E_ACCES, s)
           else fs_size_encrypted E s f (kernel_master_key (kfs_sec s))
      else Some (Inr (vf_size f), s))"

definition fs_create_file :: "'w fs_env \<Rightarrow> krt \<Rightarrow> 'w kfs \<Rightarrow> u8 list \<Rightarrow> u8 list \<Rightarrow> u32 \<Rightarrow> u16 \<Rightarrow> (status \<times> 'w kfs) option" where
  "fs_create_file E K s nm content sz p =
     (if SEC_LEVEL_IMMUTABLE \<le> sec_level (kfs_sec s) then Some (Some E_ROFS, s)
      else if SEC_LEVEL_CRYPTO_ENFORCED \<le> sec_level (kfs_sec s)
      then if \<not> crypto_fs_key_is_usable (kfs_sec s) then Some (Some E_ACCES, s)
           else fs_create_encrypted E K s nm content sz (kernel_master_key (kfs_sec s)) p
      else map_option (\<lambda>(st, t). (st, s\<lparr>kfs_fs := t\<rparr>)) (fs_create_file_raw (env_at E s) (kfs_fs s) nm content sz p))"

text \<open>A program embedded in the image, moved from the key of the build to the key of the disk.\<close>

definition fs_install_image_asset :: "'w fs_env \<Rightarrow> krt \<Rightarrow> 'w kfs \<Rightarrow> u8 list \<Rightarrow> u8 list \<Rightarrow> u16 \<Rightarrow> (status \<times> 'w kfs) option" where
  "fs_install_image_asset E K s nm blob p =
     (if \<not> asset_key_available (kfs_sec s) then Some (Some E_NOSYS, s)
      else if \<not> kmalloc_ok K (of_nat (length blob)) then Some (Some E_NOMEM, s)
      else case crypto_fs_open_blob K blob (elf_asset_key (kfs_sec s)) of
             None \<Rightarrow> None
           | Some (Inl e) \<Rightarrow> Some (Some e, s)
           | Some (Inr (plain_len, plain)) \<Rightarrow> fs_create_file E K s nm plain plain_len p)"

subsection \<open>Buffered writing\<close>

definition MAX_FILE_WRITE_BYTES :: u32 where "MAX_FILE_WRITE_BYTES = 65536"

partial_function (option) grow_cap :: "u32 \<Rightarrow> u32 \<Rightarrow> u32 option" where
  "grow_cap cap want = (if cap < want then grow_cap (cap * 2) want else Some cap)"

text \<open>The count, or the error, and the handle; \<open>None\<close> is a loop that never ends or a write past the buffer.\<close>

definition fs_write_buffered :: "krt \<Rightarrow> vfs_file_t \<Rightarrow> u8 list \<Rightarrow> ((errno + u32) \<times> vfs_file_t) option" where
  "fs_write_buffered K f bytes =
     (let sz = of_nat (length bytes) in
      if sz = 0 then Some (Inr 0, f)
      else if MAX_FILE_WRITE_BYTES < sz \<or> MAX_FILE_WRITE_BYTES - sz < write_len f then Some (Inl E_FBIG, f)
      else let grown =
             (if write_cap f < write_len f + sz
              then case grow_cap (if write_cap f \<noteq> 0 then write_cap f else 512) (write_len f + sz) of
                     None \<Rightarrow> None
                   | Some c \<Rightarrow>
                       let new_cap = (if MAX_FILE_WRITE_BYTES < c then MAX_FILE_WRITE_BYTES else c)
                       in Some (if kmalloc_ok K new_cap
                                then Inr (f\<lparr>write_buf := Some (case write_buf f of None \<Rightarrow> [] | Some b \<Rightarrow> b), write_cap := new_cap\<rparr>)
                                else Inl E_NOMEM)
              else Some (Inr f)) in
        case grown of
          None \<Rightarrow> None
        | Some (Inl e) \<Rightarrow> Some (Inl e, f)
        | Some (Inr g) \<Rightarrow>
            if write_buf g = None \<or> unat (write_cap g) < unat (write_len g) + length bytes then None
            else Some (Inr sz, g\<lparr>write_buf := Some (take (unat (write_len g)) (the (write_buf g)) @ bytes),
                                 write_len := write_len g + sz, vf_dirty := True\<rparr>))"

text \<open>The name of the temporary file: up to 59 bytes of the name, then \<^verbatim>\<open>.tmp\<close>.\<close>

definition tmp_name :: "u8 list \<Rightarrow> u8 list" where
  "tmp_name nm =
     (let t = safe_strcpy (replicate MAX_FILENAME 0) nm (MAX_FILENAME - 4); n = length (cstr t)
      in t[n := 46, n + 1 := 116, n + 2 := 109, n + 3 := 112, n + 4 := 0])"

text \<open>The last entry that answers to a name, as the second search loop leaves it.\<close>

definition last_entry_idx :: "dir_tab \<Rightarrow> u8 list \<Rightarrow> u16 \<Rightarrow> nat option" where
  "last_entry_idx tab nm p = find (\<lambda>i. is_used (tab ! i) \<noteq> 0 \<and> names tab nm p i) (rev [0..<length tab])"

definition swap_entries :: "'w fs_env \<Rightarrow> dir_tab \<Rightarrow> nat \<Rightarrow> nat \<Rightarrow> dir_tab" where
  "swap_entries E tab orig tmp =
     (let old_cluster = start_cluster (tab ! orig); old_size = file_size (tab ! orig);
          tab1 = tab[orig := (tab ! orig)\<lparr>start_cluster := start_cluster (tab ! tmp), file_size := file_size (tab ! tmp),
                                          mtime := now E\<rparr>]
      in tab1[tmp := (tab1 ! tmp)\<lparr>start_cluster := old_cluster, file_size := old_size\<rparr>])"

definition fs_atomic_update :: "'w fs_env \<Rightarrow> krt \<Rightarrow> 'w kfs \<Rightarrow> u8 list \<Rightarrow> u8 list \<Rightarrow> u32 \<Rightarrow> u16 \<Rightarrow> (status \<times> 'w kfs) option" where
  "fs_atomic_update E K s nm content sz p =
     (if \<not> fs_mounted (kfs_fs s) then Some (Some E_NODEV, s)
      else if SEC_LEVEL_IMMUTABLE \<le> sec_level (kfs_sec s) then Some (Some E_ROFS, s)
      else case fs_get_entry_idx (dir_table (kfs_fs s)) nm p of
        None \<Rightarrow> fs_create_file E K s nm content sz p
      | Some _ \<Rightarrow>
          let tmp = tmp_name nm;
              s1 = s\<lparr>kfs_fs := snd (fs_delete (env_at E s) (kfs_fs s) tmp p)\<rparr> in
          (case fs_create_file E K s1 tmp content sz p of
             None \<Rightarrow> None
           | Some (Some e, s2) \<Rightarrow> Some (Some e, s2)
           | Some (None, s2) \<Rightarrow>
               let tab = dir_table (kfs_fs s2) in
               (case (last_entry_idx tab nm p, last_entry_idx tab tmp p) of
                  (Some orig_idx, Some tmp_idx) \<Rightarrow>
                    let t = save_directory_to_disk (env_at E s2) ((kfs_fs s2)\<lparr>dir_table := swap_entries E tab orig_idx tmp_idx\<rparr>)
                    in Some (None, s2\<lparr>kfs_fs := snd (fs_delete (env_at E s2) t tmp p)\<rparr>)
                | _ \<Rightarrow> Some (Some E_NOENT, s2\<lparr>kfs_fs := snd (fs_delete (env_at E s2) (kfs_fs s2) tmp p)\<rparr>))))"

definition fs_commit_writes :: "'w fs_env \<Rightarrow> krt \<Rightarrow> 'w kfs \<Rightarrow> vfs_file_t \<Rightarrow> (status \<times> vfs_file_t \<times> 'w kfs) option" where
  "fs_commit_writes E K s f =
     (if \<not> vf_dirty f then Some (None, f, s)
      else let clean = (\<lambda>g. g\<lparr>write_buf := None, write_cap := 0, write_len := 0, vf_dirty := False\<rparr>) in
        if length (dir_table (kfs_fs s)) \<le> inode_idx f then Some (Some E_BADF, clean f, s)
        else let parent = parent_id (dir_table (kfs_fs s) ! inode_idx f);
                 content = (case write_buf f of None \<Rightarrow> [] | Some b \<Rightarrow> b) in
          case fs_atomic_update E K s (vf_name f) content (write_len f) parent of
            None \<Rightarrow> None
          | Some (st, s') \<Rightarrow> Some (st, clean (if st = None then f\<lparr>vf_size := write_len f\<rparr> else f), s'))"

subsection \<open>A sealed file opens to what was sealed\<close>

lemma u32_of_unat: "unat (w :: u32) = n \<Longrightarrow> w = of_nat n"
  by auto

lemma align16: "unat ((w :: u32) AND NOT 15) = unat w div 16 * 16"
proof -
  have m: "(15 :: u32) = mask 4" by (simp add: mask_eq_exp_minus_1)
  have "w AND NOT 15 = push_bit 4 (drop_bit 4 w)"
    unfolding m by (rule bit_word_eqI) (auto simp: bit_simps)
  moreover have "unat w div 16 * 16 < 2 ^ 32"
    using unat_u32_less [of w] div_times_less_eq_dividend [of "unat w" 16] by simp
  ultimately show ?thesis
    by (simp add: push_bit_eq_mult drop_bit_eq_div unat_word_ariths unat_div mult.commute)
qed

text \<open>The stored form of a file: what \<^verbatim>\<open>fs_create_encrypted\<close> hands to the disk.\<close>

definition blob_plain :: "u8 list \<Rightarrow> u8 list \<Rightarrow> u8 list" where
  "blob_plain key bs =
     (let n = (length bs + 55) div 16 * 16
      in le32 SAFE_MAGIC @ le32 (of_nat (length bs)) @ hmac_sha256 key bs @ bs @ replicate (n - (40 + length bs)) 0)"

lemma length_blob_plain: "length (blob_plain key bs) = (length bs + 55) div 16 * 16" "40 + length bs \<le> length (blob_plain key bs)"
proof -
  have "40 + length bs \<le> (length bs + 55) div 16 * 16" by linarith
  then show "length (blob_plain key bs) = (length bs + 55) div 16 * 16" "40 + length bs \<le> length (blob_plain key bs)"
    by (simp_all add: blob_plain_def Let_def)
qed

definition is_blob :: "u8 list \<Rightarrow> u8 list \<Rightarrow> u8 list \<Rightarrow> bool" where
  "is_blob key bs b \<longleftrightarrow> (\<exists>iv0 c ctx. length iv0 = 16 \<and> b = iv0 @ c \<and> length c = length (blob_plain key bs) \<and>
     AES_CBC_decrypt_buffer (AES_init_ctx_iv key iv0) c = Some (blob_plain key bs, ctx))"

lemma of_le32_append: "4 \<le> length xs \<Longrightarrow> of_le32 (xs @ ys) = of_le32 xs"
  by (cases xs) (auto simp: of_le32_def nth_append)

lemma blob_plain_header:
  "of_le32 (blob_plain key bs) = SAFE_MAGIC" "of_le32 (drop 4 (blob_plain key bs)) = of_nat (length bs)"
  "take 32 (drop 8 (blob_plain key bs)) = hmac_sha256 key bs" "take (length bs) (drop 40 (blob_plain key bs)) = bs"
  by (simp_all add: blob_plain_def Let_def of_le32_append)

lemma open_sealed:
  assumes b: "is_blob key bs b" and len: "length bs < 4294967296"
  shows "crypto_fs_open_blob K b key = Some (Inr (of_nat (length bs), drop 40 (blob_plain key bs)))"
proof -
  obtain iv0 c ctx where iv: "length iv0 = 16" and bc: "b = iv0 @ c" and lc: "length c = length (blob_plain key bs)"
    and d: "AES_CBC_decrypt_buffer (AES_init_ctx_iv key iv0) c = Some (blob_plain key bs, ctx)"
    using b by (auto simp: is_blob_def)
  define n where "n = (length bs + 55) div 16"
  have n: "length c = n * 16" using lc length_blob_plain(1) [where key = key and bs = bs] by (simp add: n_def)
  have big: "40 + length bs \<le> n * 16" using length_blob_plain(2) [where key = key and bs = bs] lc n by simp
  have "3 \<le> n" using big by arith
  then have lb: "56 < length b" using bc iv n by simp
  have bl: "(length b - 16 + 15) div 16 * 16 = length c" using bc iv n by simp
  have "unat (of_nat (length bs) :: u32) = length bs" using len by (simp add: unat_of_nat)
  moreover have "crypto_ct_cmp_bytes (hmac_sha256 key bs) (hmac_sha256 key bs) 32 = 0" by (subst ct_cmp_iff) simp_all
  ultimately show ?thesis
    unfolding crypto_fs_open_blob_def Let_def bl using lb bc iv d n big
    by (simp add: blob_plain_header)
qed

lemma derive_file_iv_ok:
  assumes "seeded p"
  obtains iv0 p' where "derive_file_iv K p key = (Inr iv0, p')" "length iv0 = 16" "seeded p'"
proof -
  obtain q bs p1 where g: "generate_random_bytes (fst (rd_iv K)) (snd (rd_iv K)) p 16 = (q, bs, p1)" by (metis prod_cases3)
  note s = random_bytes_seeded [OF g assms]
  then show ?thesis using that g by (simp add: derive_file_iv_def entropy_next_counter_def)
qed

definition blob_size :: "nat \<Rightarrow> nat" where
  "blob_size n = 16 + (n + 55) div 16 * 16"

lemma blob_size_word:
  assumes "n < 4294967200"
  shows "unat (16 + ((40 + of_nat n + 15 :: u32) AND NOT 15)) = blob_size n"
    "unat ((40 + of_nat n + 15 :: u32) AND NOT 15) = (n + 55) div 16 * 16"
proof -
  have "unat (40 + of_nat n + 15 :: u32) = n + 55" using assms by (simp add: unat_word_ariths unat_of_nat)
  then show a: "unat ((40 + of_nat n + 15 :: u32) AND NOT 15) = (n + 55) div 16 * 16" unfolding align16 by simp
  have "(n + 55) div 16 * 16 \<le> n + 55" by (rule div_times_less_eq_dividend)
  then have "16 + (n + 55) div 16 * 16 < 4294967296" using assms by linarith
  then show "unat (16 + ((40 + of_nat n + 15 :: u32) AND NOT 15)) = blob_size n"
    using a unat_add_u32 [of 16 "(40 + of_nat n + 15) AND NOT 15"] by (simp add: blob_size_def)
qed

lemma create_encrypted_seals:
  assumes len: "length bs < 4294967200" and key: "seeded (kfs_pool s)" and mem: "kmalloc_ok K (of_nat (blob_size (length bs)))"
  obtains b pl where "is_blob key bs b" "length b = blob_size (length bs)" "seeded pl"
    "fs_create_encrypted E K s nm bs (of_nat (length bs)) key p =
       map_option (\<lambda>(st, f). (st, s\<lparr>kfs_fs := f, kfs_pool := pl\<rparr>))
         (fs_create_file_raw (env_at E s) (kfs_fs s) nm b (of_nat (blob_size (length bs))) p)"
proof -
  define padded :: u32 where "padded = (40 + of_nat (length bs) + 15) AND NOT 15"
  note w = blob_size_word [OF len, folded padded_def]
  have tot: "16 + padded = of_nat (blob_size (length bs))" unfolding w(1) [symmetric] by simp
  have ul: "unat (of_nat (length bs) :: u32) = length bs" using len by (simp add: unat_of_nat)
  obtain iv0 p1 where iv: "derive_file_iv K (kfs_pool s) key = (Inr iv0, p1)" "length iv0 = 16" "seeded p1"
    by (rule derive_file_iv_ok [OF key])
  have "length (blob_plain key bs) mod 16 = 0" by (simp add: length_blob_plain(1))
  then obtain c ctx ctx' where c: "AES_CBC_encrypt_buffer (AES_init_ctx_iv key iv0) (blob_plain key bs) = Some (c, ctx)"
    "length c = length (blob_plain key bs)" "AES_CBC_decrypt_buffer (AES_init_ctx_iv key iv0) c = Some (blob_plain key bs, ctx')"
    by (rule cbc_buffer_round_trip)
  have fits: "\<not> unat (16 + padded) < 56 + length bs"
    unfolding w(1) blob_size_def using length_blob_plain [where key = key and bs = bs] by simp
  have "fs_create_encrypted E K s nm bs (of_nat (length bs)) key p =
      map_option (\<lambda>(st, f). (st, s\<lparr>kfs_fs := f, kfs_pool := p1\<rparr>))
        (fs_create_file_raw (env_at E s) (kfs_fs s) nm (iv0 @ c) (of_nat (blob_size (length bs))) p)"
    unfolding fs_create_encrypted_def Let_def padded_def [symmetric] ul w(2)
    using mem iv fits c(1) by (simp add: tot blob_plain_def Let_def split: option.split)
  then show ?thesis using that [of "iv0 @ c" p1] iv c length_blob_plain [where key = key and bs = bs]
    by (auto simp: is_blob_def blob_size_def)
qed

text \<open>The length of what a file shows is the size its entry records.\<close>

lemma length_entry_bytes:
  assumes inv: "fs_inv E plat s" and i: "used (dir_table s) i"
  shows "length (entry_bytes s (fview E plat s) (dir_table s ! i)) = unat (file_size (dir_table s ! i))"
proof -
  let ?e = "dir_table s ! i"
  note d = fs_invD [OF inv]
  have good: "good_entry (512 * csecs s) (file_allocation_table s) ?e" using d(8) i by (simp add: chains_ok_def)
  have "\<forall>x \<in> set (map (cdata s (fview E plat s)) (clusters_of (file_allocation_table s) ?e)). length x = 512 * csecs s"
    using good_entry_range [OF good] length_cdata [OF d(2)] d(1,3) by (auto simp: disk_inv_def word_less_nat_alt)
  from length_concat_same [OF this]
  have "unat (file_size ?e) \<le> length (concat (map (cdata s (fview E plat s)) (clusters_of (file_allocation_table s) ?e)))"
    using good by (simp add: good_entry_def split: if_splits)
  then show ?thesis by (simp add: entry_bytes_def)
qed

lemma length_blob: "is_blob key bs b \<Longrightarrow> length b = blob_size (length bs)" "56 < blob_size n"
proof -
  have "3 \<le> (n + 55) div 16" by simp
  then show "56 < blob_size n" by (simp add: blob_size_def)
qed (auto simp: is_blob_def blob_size_def length_blob_plain(1))

text \<open>How much is copied out: the arithmetic on 32-bit offsets.\<close>

lemma copy_count:
  fixes off sz :: u32
  assumes "unat off + unat sz < 4294967296" "len < 4294967296"
  defines "n \<equiv> (if of_nat len \<le> off then 0 else if of_nat len < off + sz then of_nat len - off else sz)"
  shows "unat n = min (unat sz) (len - unat off)"
proof -
  have u: "unat (of_nat len :: u32) = len" using assms(2) by (simp add: unat_of_nat)
  have s: "unat (off + sz) = unat off + unat sz" using assms(1) by (rule unat_add_u32)
  show ?thesis using u s by (auto simp: n_def word_le_nat_alt word_less_nat_alt unat_sub)
qed

lemma read_encrypted_handle:
  assumes inv: "fs_inv E plat (kfs_fs s)" and h: "handle_on (kfs_fs s) i f"
    and b: "is_blob key bs (entry_bytes (kfs_fs s) (fview E plat (kfs_fs s)) (dir_table (kfs_fs s) ! i))"
    and len: "length bs < 4294967296" and mem: "kmalloc_ok K (vf_size f)"
    and wrap: "unat (current_offset f) + unat sz < 4294967296"
  defines "out \<equiv> take (unat sz) (drop (unat (current_offset f)) bs)"
  shows "\<exists>t. fs_read_encrypted E K s f sz key =
    Some (out, f\<lparr>current_offset := current_offset f + of_nat (length out)\<rparr>, s\<lparr>kfs_fs := t\<rparr>) \<and> same_view E plat (kfs_fs s) t"
proof -
  let ?b = "entry_bytes (kfs_fs s) (fview E plat (kfs_fs s)) (dir_table (kfs_fs s) ! i)" and ?off = "current_offset f"
  have size: "length ?b = unat (vf_size f)" using length_entry_bytes [OF inv] h by (simp add: handle_on_def)
  have big: "56 < length ?b" using length_blob(1) [OF b] length_blob(2) by simp
  have h0: "handle_on (kfs_fs s) i (f\<lparr>current_offset := 0\<rparr>)" using h by (simp add: handle_on_def)
  have "unat (current_offset (f\<lparr>current_offset := 0\<rparr>)) + unat (vf_size f) < 4294967296" using unat_u32_less [of "vf_size f"] by simp
  from read_handle [OF inv h0 this] size obtain t where
    r: "fs_read_raw E (kfs_fs s) (f\<lparr>current_offset := 0\<rparr>) (vf_size f) = Some (?b, f\<lparr>current_offset := of_nat (length ?b)\<rparr>, t)"
      "same_view E plat (kfs_fs s) t"
    by (auto simp: drop_0 take_all)
  define n :: u32 where "n = (if of_nat (length bs) \<le> ?off then 0 else if of_nat (length bs) < ?off + sz then of_nat (length bs) - ?off else sz)"
  have n: "unat n = min (unat sz) (length bs - unat ?off)" unfolding n_def by (rule copy_count [OF wrap len])
  define pl where "pl = drop 40 (blob_plain key bs)"
  have p: "length bs \<le> length pl" "take (length bs) pl = bs"
    using length_blob_plain(2) [where key = key and bs = bs] blob_plain_header(4) [of bs key] by (simp_all add: pl_def)
  have out: "length out = unat n" unfolding out_def n by simp
  have fits: "\<not> (n \<noteq> 0 \<and> length pl < unat ?off + unat n)"
    using n p(1) by (cases "length bs \<le> unat ?off") (auto simp: word_unat_eq_iff)
  have copied: "take (unat n) (drop (unat ?off) pl) = out"
  proof (cases "unat ?off + unat n \<le> length bs")
    case True
    have "take (unat n) (drop (unat ?off) pl) = drop (unat ?off) (take (unat ?off + unat n) pl)" by (simp add: take_drop add.commute)
    also have "\<dots> = drop (unat ?off) (take (unat ?off + unat n) (take (length bs) pl))" using True by (simp add: min_def)
    also have "\<dots> = take (unat n) (drop (unat ?off) bs)" unfolding p(2) by (simp add: take_drop add.commute)
    also have "\<dots> = out" using n by (simp add: out_def min_def)
    finally show ?thesis .
  next
    case False
    then have "unat n = 0" using n by simp
    then show ?thesis using out by simp
  qed
  have o: "crypto_fs_open_blob K ?b key = Some (Inr (of_nat (length bs), pl))"
    unfolding pl_def by (rule open_sealed [OF b len])
  have "of_nat (length out) = n" unfolding out by simp
  moreover have "\<not> vf_size f \<le> 56" using big size by (simp add: word_le_nat_alt)
  ultimately have "fs_read_encrypted E K s f sz key = Some (out, f\<lparr>current_offset := ?off + of_nat (length out)\<rparr>, s\<lparr>kfs_fs := t\<rparr>)"
    unfolding fs_read_encrypted_def Let_def r(1) using mem big fits
    by (simp add: o n_def [symmetric] copied)
  then show ?thesis using r(2) by blast
qed

lemma cbc_decrypt_first:
  assumes "AES_CBC_decrypt_buffer ctx c = Some (pl, ctx')" "16 \<le> length c"
  shows "\<exists>ctx''. AES_CBC_decrypt_buffer ctx (take 16 c) = Some (take 16 pl, ctx'')"
proof -
  obtain k where k: "length c div 16 = Suc k" using assms(2) by (metis div_greater_zero_iff gr0_implies_Suc zero_less_numeral)
  show ?thesis using assms k
    by (auto simp: AES_CBC_decrypt_buffer_def Let_def split: if_splits prod.splits)
qed

text \<open>The first sector of a file that is long enough holds its first bytes.\<close>

lemma first_sector:
  assumes inv: "fs_inv E plat s" and i: "used (dir_table s) i" and size: "0 < unat (file_size (dir_table s ! i))"
  defines "c \<equiv> start_cluster (dir_table s ! i)"
  shows "c < fs_total_clusters s"
    "n \<le> 512 \<Longrightarrow> n \<le> unat (file_size (dir_table s ! i)) \<Longrightarrow>
     take n (entry_bytes s (fview E plat s) (dir_table s ! i)) = take n (fview E plat s (fs_cluster_to_sector s c))"
    "fs_cluster_to_sector s c < fs_max_sectors s" "length (fview E plat s (fs_cluster_to_sector s c)) = 512"
proof -
  let ?e = "dir_table s ! i" and ?fat = "file_allocation_table s"
  note d = fs_invD [OF inv]
  have good: "good_entry (512 * csecs s) ?fat ?e" using d(8) i by (simp add: chains_ok_def)
  then have ch: "chain ?fat c (clusters_of ?fat ?e)" "unat (file_size ?e) \<le> 512 * csecs s * length (clusters_of ?fat ?e)"
    using size by (auto simp: good_entry_def c_def split: if_splits)
  then obtain rest where cl: "clusters_of ?fat ?e = c # rest" using size by (cases "clusters_of ?fat ?e") auto
  then show c: "c < fs_total_clusters s" using good_entry_range [OF good, of c] d(3) by (simp add: word_less_nat_alt)
  have cs: "0 < csecs s" using d(2) by (simp add: geom_ok_def)
  have sec: "dsec s c 0 = fs_cluster_to_sector s c" by (simp add: dsec_def)
  show l: "fs_cluster_to_sector s c < fs_max_sectors s" using dsec_less [OF d(2) c cs] sec by simp
  then show len: "length (fview E plat s (fs_cluster_to_sector s c)) = 512" using d(1) by (simp add: disk_inv_def sectors_full_def)
  have "[0..<csecs s] = 0 # [1..<csecs s]" using cs by (simp add: upt_conv_Cons)
  then have "entry_bytes s (fview E plat s) ?e = take (unat (file_size ?e)) (fview E plat s (fs_cluster_to_sector s c) @
      concat (map (\<lambda>k. fview E plat s (dsec s c k)) [1..<csecs s]) @ concat (map (cdata s (fview E plat s)) rest))"
    unfolding entry_bytes_def cl by (simp add: cdata_def sec)
  then show "take n (entry_bytes s (fview E plat s) ?e) = take n (fview E plat s (fs_cluster_to_sector s c))"
    if "n \<le> 512" "n \<le> unat (file_size ?e)" using that len by (simp add: min_def)
qed

lemma size_encrypted_handle:
  assumes inv: "fs_inv E plat (kfs_fs s)" and h: "handle_on (kfs_fs s) i f"
    and b: "is_blob key bs (entry_bytes (kfs_fs s) (fview E plat (kfs_fs s)) (dir_table (kfs_fs s) ! i))"
    and len: "length bs < 4294967296"
  shows "\<exists>t. fs_size_encrypted E s f key = Some (Inr (of_nat (length bs)), s\<lparr>kfs_fs := t\<rparr>) \<and> same_view E plat (kfs_fs s) t"
proof -
  let ?s = "kfs_fs s" and ?e = "dir_table (kfs_fs s) ! i"
  let ?b = "entry_bytes ?s (fview E plat ?s) ?e" and ?sec = "fs_cluster_to_sector ?s (vf_cluster f)"
  have i: "used (dir_table ?s) i" "vf_size f = file_size ?e" "vf_cluster f = start_cluster ?e" using h by (simp_all add: handle_on_def)
  have size: "length ?b = unat (file_size ?e)" by (rule length_entry_bytes [OF inv i(1)])
  have big: "length ?b = blob_size (length bs)" "56 < length ?b" using length_blob(1) [OF b] length_blob(2) by simp_all
  have pos: "0 < unat (file_size ?e)" using size big(2) by simp
  note fs = first_sector [OF inv i(1) pos, folded i(3)]
  have ok: "fs_ok E plat ?s" using fs_invD(1) [OF inv] by (simp add: disk_inv_def)
  obtain t where t: "fs_read_sector E ?s ?sec (stack_junk E) = (None, fview E plat ?s ?sec, t)" "same_view E plat ?s t"
    by (rule fs_read_same [OF ok fs(3)])
  obtain iv0 c ctx where iv: "length iv0 = 16" and bc: "?b = iv0 @ c" and lc: "length c = length (blob_plain key bs)"
    and dc: "AES_CBC_decrypt_buffer (AES_init_ctx_iv key iv0) c = Some (blob_plain key bs, ctx)"
    using b by (auto simp: is_blob_def)
  have c16: "16 \<le> length c" using lc length_blob_plain(2) [where key = key and bs = bs] by simp
  have "take 32 (fview E plat ?s ?sec) = take 32 ?b" using fs(2) [of 32] size big(2) by simp
  then have "take 16 (take 32 (fview E plat ?s ?sec)) = iv0" "drop 16 (take 32 (fview E plat ?s ?sec)) = take 16 c"
    unfolding bc using iv c16 by simp_all
  then have parts: "take 16 (fview E plat ?s ?sec) = iv0" "take 16 (drop 16 (fview E plat ?s ?sec)) = take 16 c"
    by (simp_all add: min_def take_drop)
  obtain ctx2 where d16: "AES_CBC_decrypt_buffer (AES_init_ctx_iv key iv0) (take 16 c) = Some (take 16 (blob_plain key bs), ctx2)"
    using cbc_decrypt_first [OF dc c16] by blast
  have hd: "of_le32 (take 16 (blob_plain key bs)) = SAFE_MAGIC" "of_le32 (drop 4 (take 16 (blob_plain key bs))) = of_nat (length bs)"
    using blob_plain_header(1,2) [of key bs] by (simp_all add: of_le32_def drop_take)
  have w: "unat (vf_size f) = blob_size (length bs)" using size big(1) i(2) by simp
  have "unat (vf_size f - 16 - 40) = blob_size (length bs) - 56"
    using w big by (simp add: unat_sub word_le_nat_alt)
  moreover have "length bs \<le> blob_size (length bs) - 56"
    using length_blob_plain [where key = key and bs = bs] by (simp add: blob_size_def)
  ultimately have "\<not> vf_size f - 16 - 40 < of_nat (length bs)" using len by (simp add: word_less_nat_alt unat_of_nat)
  moreover have "\<not> vf_size f \<le> 56" using w big by (simp add: word_le_nat_alt)
  ultimately have "fs_size_encrypted E s f key = Some (Inr (of_nat (length bs)), s\<lparr>kfs_fs := t\<rparr>)"
    unfolding fs_size_encrypted_def t(1) by (simp add: Let_def parts d16 hd AES_BLOCKLEN_def)
  then show ?thesis using t(2) by blast
qed

subsection \<open>Creating a file at the current security level\<close>

definition stored_as :: "sec_state \<Rightarrow> u8 list \<Rightarrow> u8 list \<Rightarrow> bool" where
  "stored_as sec bs b \<longleftrightarrow> (if SEC_LEVEL_CRYPTO_ENFORCED \<le> sec_level sec then is_blob (kernel_master_key sec) bs b else b = bs)"

lemma env_at_devices: "fs_inv E plat s \<Longrightarrow> same_devices E (env_at E t)"
  by (simp add: same_devices_def env_at_def fs_inv_def disk_inv_def)

lemma env_at_inv:
  assumes "fs_inv E plat s"
  shows "fs_inv (env_at E t) plat s" "fs_inv (env_at E t) plat s' = fs_inv E plat s'" "fs_abs (env_at E t) plat s' = fs_abs E plat s'"
  using assms same_devices_inv [OF env_at_devices [OF assms]] by simp_all

lemma create_raw_refines:
  assumes inv: "fs_inv E plat s" and len: "length b < 2147483648"
  shows "\<exists>st s'. fs_create_file_raw (env_at E t) s nm b (of_nat (length b)) p = Some (st, s') \<and> fs_inv E plat s' \<and>
    fs_mounted s' = fs_mounted s \<and>
    (if st = None then fs_abs E plat s p nm = None \<and> fs_abs E plat s' = put (fs_abs E plat s) p nm (Some (File_node b))
     else fs_abs E plat s' = fs_abs E plat s)"
proof -
  have ul: "unat (of_nat (length b) :: u32) = length b" using len by (simp add: unat_of_nat)
  have op: "op_ok (Op_create nm b (of_nat (length b)) p)" using len ul by simp
  from create_step [OF env_at_inv(1) [OF inv] op] obtain r s' where
    r: "fs_step (env_at E t) s (Op_create nm b (of_nat (length b)) p) = Some (r, s')" "fs_inv E plat s'"
      "allowed (fs_abs E plat s) (Op_create nm b (of_nat (length b)) p) r"
      "fs_abs E plat s' = effect (fs_abs E plat s) (Op_create nm b (of_nat (length b)) p) r"
    unfolding env_at_inv(2,3) [OF inv] by blast
  then obtain st where st: "fs_create_file_raw (env_at E t) s nm b (of_nat (length b)) p = Some (st, s')" "r = Done st" by auto
  show ?thesis using st r ul create_mounted [OF st(1)] by (cases st) auto
qed

lemma create_file_refines:
  assumes inv: "fs_inv E plat (kfs_fs s)" and len: "length bs < 2147483000" and pool: "seeded (kfs_pool s)"
  shows "\<exists>st s'. fs_create_file E K s nm bs (of_nat (length bs)) p = Some (st, s') \<and> fs_inv E plat (kfs_fs s') \<and>
    kfs_sec s' = kfs_sec s \<and> seeded (kfs_pool s') \<and> fs_mounted (kfs_fs s') = fs_mounted (kfs_fs s) \<and>
    (if st = None then fs_abs E plat (kfs_fs s) p nm = None \<and> (\<exists>b. stored_as (kfs_sec s) bs b \<and>
         fs_abs E plat (kfs_fs s') = put (fs_abs E plat (kfs_fs s)) p nm (Some (File_node b)))
     else fs_abs E plat (kfs_fs s') = fs_abs E plat (kfs_fs s))"
proof -
  let ?lvl = "sec_level (kfs_sec s)" and ?key = "kernel_master_key (kfs_sec s)"
  consider (refused) e where "fs_create_file E K s nm bs (of_nat (length bs)) p = Some (Some e, s)"
    | (plain) "\<not> SEC_LEVEL_CRYPTO_ENFORCED \<le> ?lvl"
    | (sealed) "SEC_LEVEL_CRYPTO_ENFORCED \<le> ?lvl" "\<not> SEC_LEVEL_IMMUTABLE \<le> ?lvl" "crypto_fs_key_is_usable (kfs_sec s)"
        "kmalloc_ok K (of_nat (blob_size (length bs)))"
  proof -
    have "unat (16 + ((40 + of_nat (length bs) + 15 :: u32) AND NOT 15)) = blob_size (length bs)"
      using len by (intro blob_size_word(1)) simp
    then have "16 + ((40 + of_nat (length bs) + 15 :: u32) AND NOT 15) = of_nat (blob_size (length bs))"
      by (rule u32_of_unat)
    then show ?thesis using that unfolding fs_create_file_def fs_create_encrypted_def Let_def by metis
  qed
  then show ?thesis
  proof cases
    case refused
    then show ?thesis using assms by auto
  next
    case plain
    from create_raw_refines [OF inv, of bs s nm p] len obtain st t where
      t: "fs_create_file_raw (env_at E s) (kfs_fs s) nm bs (of_nat (length bs)) p = Some (st, t)" "fs_inv E plat t"
        "fs_mounted t = fs_mounted (kfs_fs s)"
        "if st = None then fs_abs E plat (kfs_fs s) p nm = None \<and> fs_abs E plat t = put (fs_abs E plat (kfs_fs s)) p nm (Some (File_node bs))
         else fs_abs E plat t = fs_abs E plat (kfs_fs s)" by auto
    then have "fs_create_file E K s nm bs (of_nat (length bs)) p = Some (st, s\<lparr>kfs_fs := t\<rparr>)" using plain by (simp add: fs_create_file_def)
    then show ?thesis using t pool plain by (auto simp: stored_as_def)
  next
    case sealed
    have lt: "length bs < 4294967200" using len by simp
    obtain b pl where b: "is_blob ?key bs b" "length b = blob_size (length bs)" "seeded pl"
      "fs_create_encrypted E K s nm bs (of_nat (length bs)) ?key p =
         map_option (\<lambda>(st, f). (st, s\<lparr>kfs_fs := f, kfs_pool := pl\<rparr>))
           (fs_create_file_raw (env_at E s) (kfs_fs s) nm b (of_nat (blob_size (length bs))) p)"
      by (rule create_encrypted_seals [OF lt pool sealed(4)])
    have "(length bs + 55) div 16 * 16 \<le> length bs + 55" by (rule div_times_less_eq_dividend)
    then have "length b < 2147483648" using b(2) len by (simp add: blob_size_def)
    from create_raw_refines [OF inv this, of s nm p] obtain st t where
      t: "fs_create_file_raw (env_at E s) (kfs_fs s) nm b (of_nat (length b)) p = Some (st, t)" "fs_inv E plat t"
        "fs_mounted t = fs_mounted (kfs_fs s)"
        "if st = None then fs_abs E plat (kfs_fs s) p nm = None \<and> fs_abs E plat t = put (fs_abs E plat (kfs_fs s)) p nm (Some (File_node b))
         else fs_abs E plat t = fs_abs E plat (kfs_fs s)" by auto
    then have "fs_create_file E K s nm bs (of_nat (length bs)) p = Some (st, s\<lparr>kfs_fs := t, kfs_pool := pl\<rparr>)"
      using sealed b by (simp add: fs_create_file_def)
    then show ?thesis using t b sealed by (auto simp: stored_as_def)
  qed
qed

subsection \<open>Properties\<close>

text \<open>
  Round trip (C29): at a security level that encrypts, with a key installed, a file that was created
  with given bytes opens by its name, reports exactly their number as its size, and a read at any
  offset returns exactly the bytes there, although the disk holds only a vector and ciphertext; the
  other names are untouched.  The hypotheses on the heap say that the two buffers can be allocated.
\<close>

theorem encrypted_create_then_read:
  assumes "fs_inv E plat (kfs_fs s)" "length bs < 2147483000" "seeded (kfs_pool s)"
    and "SEC_LEVEL_CRYPTO_ENFORCED \<le> sec_level (kfs_sec s)" "crypto_fs_key_is_usable (kfs_sec s)"
    and "fs_create_file E K s nm bs (of_nat (length bs)) p = Some (None, s1)"
    and "kmalloc_ok K' (of_nat (blob_size (length bs)))" "unat off + unat sz < 4294967296"
  shows "\<exists>f t u. fs_open (kfs_fs s1) nm p = Inr f \<and>
    fs_size E s1 f = Some (Inr (of_nat (length bs)), s1\<lparr>kfs_fs := t\<rparr>) \<and>
    fs_read E K' s1 (f\<lparr>current_offset := off\<rparr>) sz =
      Some (Inr (take (unat sz) (drop (unat off) bs)),
            f\<lparr>current_offset := off + of_nat (length (take (unat sz) (drop (unat off) bs)))\<rparr>, s1\<lparr>kfs_fs := u\<rparr>) \<and>
    (\<forall>q m. (q, cstr m) \<noteq> (p, cstr nm) \<longrightarrow> fs_abs E plat (kfs_fs s1) q m = fs_abs E plat (kfs_fs s) q m)"
proof -
  let ?s = "kfs_fs s1" and ?key = "kernel_master_key (kfs_sec s)"
  from create_file_refines [OF assms(1-3), of K nm p] assms(4,6) obtain b where
    inv: "fs_inv E plat ?s" and sec: "kfs_sec s1 = kfs_sec s" and b: "is_blob ?key bs b"
    and mt: "fs_mounted ?s = fs_mounted (kfs_fs s)"
    and abs: "fs_abs E plat ?s = put (fs_abs E plat (kfs_fs s)) p nm (Some (File_node b))"
    by (auto simp: stored_as_def)
  have "fs_abs E plat ?s p nm = Some (File_node b)" using abs by (simp add: put_def)
  then obtain i where i: "find_used1 (dir_table ?s) nm p = Some i" "entry_bytes ?s (fview E plat ?s) (dir_table ?s ! i) = b"
    by (auto simp: fs_abs_def abs_node_def split: if_splits)
  have "fs_mounted (kfs_fs s)" using assms(6)
    by (auto simp: fs_create_file_def fs_create_encrypted_def fs_create_file_raw_def Let_def split: if_splits prod.splits sum.splits option.splits)
  then obtain f where f: "fs_open ?s nm p = Inr f" "handle_on ?s i f"
    using open_spec [of ?s nm p] mt i find_used1_SomeD [OF i(1)] by (auto simp: handle_on_def)
  have h: "handle_on ?s i (f\<lparr>current_offset := off\<rparr>)" using f(2) by (simp add: handle_on_def)
  have len: "length bs < 4294967296" using assms(2) by simp
  have "unat (vf_size f) = blob_size (length bs)"
    using length_entry_bytes [OF inv, of i] f(2) length_blob(1) [OF b] i(2) by (simp add: handle_on_def)
  then have "vf_size f = of_nat (blob_size (length bs))" by (rule u32_of_unat)
  then have mem: "kmalloc_ok K' (vf_size (f\<lparr>current_offset := off\<rparr>))" using assms(7) by simp
  have wrap: "unat (current_offset (f\<lparr>current_offset := off\<rparr>)) + unat sz < 4294967296" using assms(8) by simp
  from size_encrypted_handle [OF inv f(2) _ len, of ?key] b i(2) obtain t where
    "fs_size_encrypted E s1 f ?key = Some (Inr (of_nat (length bs)), s1\<lparr>kfs_fs := t\<rparr>)" by auto
  moreover from read_encrypted_handle [OF inv h _ len mem wrap, of ?key] b i(2) obtain u where
    "fs_read_encrypted E K' s1 (f\<lparr>current_offset := off\<rparr>) sz ?key = Some (take (unat sz) (drop (unat off) bs),
       f\<lparr>current_offset := off + of_nat (length (take (unat sz) (drop (unat off) bs)))\<rparr>, s1\<lparr>kfs_fs := u\<rparr>)" by auto
  moreover have "fs_abs E plat ?s q m = fs_abs E plat (kfs_fs s) q m" if "(q, cstr m) \<noteq> (p, cstr nm)" for q m
    using abs that by (auto simp: put_def)
  ultimately show ?thesis using f(1) assms(4,5) sec by (simp add: fs_size_def fs_read_def) blast
qed

text \<open>The small file system with a key installed.\<close>

definition mem_rt :: krt where
  "mem_rt = \<lparr>kmalloc_ok = (\<lambda>_. True), kmem = [], rd_iv = (False, [])\<rparr>"

definition mem_kfs :: "mem_disk kfs" where
  "mem_kfs = \<lparr>kfs_fs = mem_fs, kfs_sec = install_master_key (replicate 32 7) sec_boot, kfs_pool = pool_zero\<lparr>seeded := True\<rparr>\<rparr>"

theorem encrypted_create_then_read_witness:
  "\<exists>s1 f t u. fs_create_file mem_env mem_rt mem_kfs [97] [1, 2, 3] 3 0 = Some (None, s1) \<and> fs_open (kfs_fs s1) [97] 0 = Inr f \<and>
    fs_size mem_env s1 f = Some (Inr 3, s1\<lparr>kfs_fs := t\<rparr>) \<and>
    fs_read mem_env mem_rt s1 (f\<lparr>current_offset := 1\<rparr>) 9 = Some (Inr [2, 3], f\<lparr>current_offset := 3\<rparr>, s1\<lparr>kfs_fs := u\<rparr>)"
proof -
  let ?key = "kernel_master_key (kfs_sec mem_kfs)"
  have lvl: "SEC_LEVEL_CRYPTO_ENFORCED \<le> sec_level (kfs_sec mem_kfs)" "\<not> SEC_LEVEL_IMMUTABLE \<le> sec_level (kfs_sec mem_kfs)"
      "crypto_fs_key_is_usable (kfs_sec mem_kfs)" "seeded (kfs_pool mem_kfs)"
    by (simp_all add: mem_kfs_def install_master_key_def sec_boot_def crypto_fs_key_is_usable_def)
  have "length [1 :: u8, 2, 3] < 4294967200" "kmalloc_ok mem_rt (of_nat (blob_size (length [1 :: u8, 2, 3])))" by (simp_all add: mem_rt_def)
  then obtain b pl where
    b: "length b = blob_size (length [1 :: u8, 2, 3])" "fs_create_encrypted mem_env mem_rt mem_kfs [97] [1, 2, 3] (of_nat (length [1 :: u8, 2, 3])) ?key 0 =
       map_option (\<lambda>(st, f). (st, mem_kfs\<lparr>kfs_fs := f, kfs_pool := pl\<rparr>))
         (fs_create_file_raw (env_at mem_env mem_kfs) (kfs_fs mem_kfs) [97] b (of_nat (blob_size (length [1 :: u8, 2, 3]))) 0)"
    by (rule create_encrypted_seals [where key = ?key and E = mem_env and nm = "[97]" and p = 0, OF _ lvl(4)]) blast
  have fs: "kfs_fs mem_kfs = mem_fs" by (simp add: mem_kfs_def)
  obtain t where "fs_create_file_raw (env_at mem_env mem_kfs) mem_fs [97] b (of_nat (length b)) 0 = Some (None, t)"
    by (rule mem_fs_file [of b "env_at mem_env mem_kfs"]) (simp_all add: b(1) blob_size_def env_at_def)
  then have c: "fs_create_file mem_env mem_rt mem_kfs [97] [1, 2, 3] (of_nat (length [1 :: u8, 2, 3])) 0 =
      Some (None, mem_kfs\<lparr>kfs_fs := t, kfs_pool := pl\<rparr>)"
    using lvl b(2) unfolding fs_create_file_def fs b(1) [symmetric] by simp
  have inv: "fs_inv mem_env (\<lambda>w. w) (kfs_fs mem_kfs)" using mem_fs_inv(1) by (simp add: mem_kfs_def)
  from encrypted_create_then_read [OF inv _ lvl(4,1,3) c, of mem_rt 1 9] c show ?thesis
    by (auto simp: mem_rt_def)
qed

end
