(* ===== verification/Atomic.thy ===== *)
theory Atomic
  imports Cryptofs
begin

text \<open>
  Replacing the contents of a file: \<^verbatim>\<open>fs_atomic_update\<close> writes a temporary file, exchanges the chains of
  the two entries and deletes the temporary, and \<^verbatim>\<open>fs_commit_writes\<close> does so for a buffered handle.
  What the exchange does to the tables is shown first, then what the whole operation does to the
  map of files.
\<close>

subsection \<open>Tables of the same shape\<close>






subsection \<open>The exchange\<close>






lemma last_entry_used1:
  assumes ok: "dir_ok tab tot"
  shows "last_entry_idx tab nm p = find_used1 tab nm p"
proof (cases "find_used1 tab nm p")
  case None
  then have "\<not> (is_used (tab ! i) \<noteq> 0 \<and> names tab nm p i)" if "i < length tab" for i
    using used_flag [OF ok that] that unfolding find_used1_None used_def by blast
  then have "last_entry_idx tab nm p = None" unfolding last_entry_idx_def find_None_iff by auto
  then show ?thesis using None by simp
next
  case (Some i)
  then have i: "used tab i" "names tab nm p i" using find_used1_SomeD by blast+
  have u: "names_unique tab" using ok by (simp add: dir_ok_def)
  have "last_entry_idx tab nm p \<noteq> None" unfolding last_entry_idx_def find_None_iff using i by (auto simp: used_def)
  then obtain j where j: "last_entry_idx tab nm p = Some j" by blast
  then have "j \<in> set (rev [0..<length tab])" "is_used (tab ! j) \<noteq> 0" "names tab nm p j"
    unfolding last_entry_idx_def find_Some_iff by (auto simp: in_set_conv_nth rev_nth)
  then have "used tab j" "names tab nm p j" using used_flag [OF ok, of j] by (auto simp: used_def)
  then have "find_used1 tab nm p = Some j" using find_used1_iff [OF u] by blast
  then show ?thesis using j Some by simp
qed


subsection \<open>The temporary name\<close>

lemma cstr_tmp_name: "cstr (tmp_name nm) = take 59 (cstr nm) @ [46, 116, 109, 112]"
proof -
  define n where "n = take 59 (cstr nm)"
  have z: "0 \<notin> set n" using zero_notin_cstr [of nm] by (auto simp: n_def dest: in_set_takeD)
  have len: "length n \<le> 59" by (simp add: n_def)
  have t: "safe_strcpy (replicate MAX_FILENAME 0) nm (MAX_FILENAME - 4) = n @ 0 # replicate (63 - length n) 0"
    by (simp add: safe_strcpy_def Let_def MAX_FILENAME_def n_def)
  then have c: "cstr (safe_strcpy (replicate MAX_FILENAME 0) nm (MAX_FILENAME - 4)) = n" by (simp add: cstr_append_zero [OF z])
  define m where "m = 59 - length n"
  have m: "63 - length n = Suc (Suc (Suc (Suc m)))" using len by (simp add: m_def)
  have "tmp_name nm = n @ [46, 116, 109, 112] @ 0 # replicate m 0"
    unfolding tmp_name_def Let_def t m cstr_append_zero [OF z] by (simp add: list_update_append numeral_eq_Suc cstr_append_zero [OF z])
  then show ?thesis using cstr_append_zero [of "n @ [46, 116, 109, 112]" "replicate m 0"] z by (simp add: n_def)
qed

lemma tmp_name_short: "length (cstr (tmp_name nm)) < MAX_FILENAME"
  by (simp add: cstr_tmp_name MAX_FILENAME_def)

subsection \<open>The whole operation\<close>

lemma delete_mounted: "fs_delete E s nm p = (st, s') \<Longrightarrow> fs_mounted s' = fs_mounted s"
  by (auto simp: fs_delete_def Let_def split: if_splits option.splits)

lemma abs_file:
  assumes inv: "fs_inv E plat s" and f: "fs_abs E plat s p nm = Some (File_node bs)"
  obtains i where "find_used1 (dir_table s) nm p = Some i" "file_type (dir_table s ! i) = FT_REGULAR"
proof -
  obtain i where i: "find_used1 (dir_table s) nm p = Some i" "file_type (dir_table s ! i) \<noteq> FT_DIR"
    using f by (auto simp: fs_abs_def abs_node_def split: if_splits)
  then have "entry_ok (dir_table s) (fs_total_clusters s) i"
    using find_used1_SomeD [OF i(1)] fs_invD(6) [OF inv] by (simp add: tree_ok_def used_def)
  then show ?thesis using that i by (auto simp: entry_ok_def)
qed

lemma delete_file_ok:
  assumes inv: "fs_inv E plat s" and mt: "fs_mounted s" and lvl: "current_sec_level E < SEC_LEVEL_IMMUTABLE"
    and f: "fs_abs E plat s p nm = Some (File_node bs)"
  obtains s' where "fs_delete E s nm p = (None, s')" "fs_inv E plat s'" "fs_abs E plat s' = put (fs_abs E plat s) p nm None"
proof -
  obtain i where i: "find_used1 (dir_table s) nm p = Some i" "file_type (dir_table s ! i) = FT_REGULAR"
    by (rule abs_file [OF inv f])
  obtain st s' where r: "fs_delete E s nm p = (st, s')" by fastforce
  moreover have "st = None" using r mt lvl i by (auto simp: fs_delete_def Let_def)
  ultimately show ?thesis using that delete_refines [OF inv r] by auto
qed



text \<open>The update up to the exchange: the stale temporary deleted, the new one created.\<close>

lemma atomic_update_steps:
  assumes inv: "fs_inv E plat (kfs_fs s)" and mt: "fs_mounted (kfs_fs s)" and lvl: "sec_level (kfs_sec s) < SEC_LEVEL_IMMUTABLE"
    and len: "length bs < 2147483000" and pool: "seeded (kfs_pool s)"
    and old: "fs_abs E plat (kfs_fs s) p nm = Some (File_node bo)"
  obtains m1 st2 s2 where "m1 = fs_abs E plat (kfs_fs s) \<or> m1 = put (fs_abs E plat (kfs_fs s)) p (tmp_name nm) None"
    "fs_inv E plat (kfs_fs s2)" "fs_mounted (kfs_fs s2)" "current_sec_level (env_at E s2) < SEC_LEVEL_IMMUTABLE"
    "if st2 = None then m1 p (tmp_name nm) = None \<and> (\<exists>b. stored_as (kfs_sec s) bs b \<and>
       fs_abs E plat (kfs_fs s2) = put m1 p (tmp_name nm) (Some (File_node b)))
     else fs_abs E plat (kfs_fs s2) = m1"
    "fs_atomic_update E K s nm bs (of_nat (length bs)) p =
      (case st2 of Some e \<Rightarrow> Some (Some e, s2) | None \<Rightarrow>
        (case (last_entry_idx (dir_table (kfs_fs s2)) nm p, last_entry_idx (dir_table (kfs_fs s2)) (tmp_name nm) p) of
           (Some x, Some y) \<Rightarrow> Some (None, s2\<lparr>kfs_fs := snd (fs_delete (env_at E s2) (save_directory_to_disk (env_at E s2)
              ((kfs_fs s2)\<lparr>dir_table := swap_entries E (dir_table (kfs_fs s2)) x y\<rparr>)) (tmp_name nm) p)\<rparr>)
         | _ \<Rightarrow> Some (Some E_NOENT, s2\<lparr>kfs_fs := snd (fs_delete (env_at E s2) (kfs_fs s2) (tmp_name nm) p)\<rparr>)))"
proof -
  let ?tmp = "tmp_name nm"
  obtain a where a: "find_used1 (dir_table (kfs_fs s)) nm p = Some a" by (rule abs_file [OF inv old])
  have idx: "fs_get_entry_idx (dir_table (kfs_fs s)) nm p = Some a" using a get_entry_idx_used1 [OF fs_invD(4) [OF inv]] by simp
  obtain st1 t1 where d1: "fs_delete (env_at E s) (kfs_fs s) ?tmp p = (st1, t1)" by fastforce
  define s1 where "s1 = s\<lparr>kfs_fs := t1\<rparr>"
  have r1: "fs_inv E plat t1" "fs_mounted t1"
      "fs_abs E plat t1 = fs_abs E plat (kfs_fs s) \<or> fs_abs E plat t1 = put (fs_abs E plat (kfs_fs s)) p ?tmp None"
    using delete_refines [OF env_at_inv(1) [OF inv] d1] env_at_inv [OF inv] delete_mounted [OF d1] mt by (auto split: if_splits)
  have f1: "kfs_fs s1 = t1" "kfs_sec s1 = kfs_sec s" "kfs_pool s1 = kfs_pool s" by (simp_all add: s1_def)
  have pre: "fs_inv E plat (kfs_fs s1)" "seeded (kfs_pool s1)" using r1(1) pool f1 by simp_all
  from create_file_refines [OF pre(1) len pre(2), of K ?tmp p, unfolded f1] obtain st2 s2 where
    c: "fs_create_file E K s1 ?tmp bs (of_nat (length bs)) p = Some (st2, s2)" "fs_inv E plat (kfs_fs s2)" "kfs_sec s2 = kfs_sec s"
      "fs_mounted (kfs_fs s2) = fs_mounted t1"
      "if st2 = None then fs_abs E plat t1 p ?tmp = None \<and> (\<exists>b. stored_as (kfs_sec s) bs b \<and>
         fs_abs E plat (kfs_fs s2) = put (fs_abs E plat t1) p ?tmp (Some (File_node b)))
       else fs_abs E plat (kfs_fs s2) = fs_abs E plat t1" by blast
  have "current_sec_level (env_at E s2) < SEC_LEVEL_IMMUTABLE" "fs_mounted (kfs_fs s2)"
    using lvl c(3,4) r1(2) by (simp_all add: env_at_def)
  then show ?thesis using c(2,5) r1(3) mt lvl idx d1 c(1)
    by (intro that [of "fs_abs E plat t1" s2 st2]) (simp_all add: fs_atomic_update_def Let_def s1_def split: option.split)
qed


text \<open>
  A name of 63 bytes that ends in \<^verbatim>\<open>.tmp\<close> is its own temporary name: the update reports success and
  the file is gone.
\<close>

lemma swap_self: "swap_entries E tab a a = tab[a := (tab ! a)\<lparr>mtime := now E\<rparr>]"
  by (cases "a < length tab") (simp_all add: swap_entries_def Let_def list_update_beyond)

lemma tmp_name_is_name: "length nm = 63 \<Longrightarrow> 0 \<notin> set nm \<Longrightarrow> drop 59 nm = [46, 116, 109, 112] \<Longrightarrow> cstr (tmp_name nm) = cstr nm"
  by (metis append_take_drop_id cstr_no_zero cstr_tmp_name)

lemma atomic_update_same_tmp:
  assumes inv: "fs_inv E plat (kfs_fs s)" and mt: "fs_mounted (kfs_fs s)" and lvl: "sec_level (kfs_sec s) < SEC_LEVEL_IMMUTABLE"
    and len: "length bs < 2147483000" and pool: "seeded (kfs_pool s)"
    and old: "fs_abs E plat (kfs_fs s) p nm = Some (File_node bo)" and eq: "cstr (tmp_name nm) = cstr nm"
    and ok: "fs_atomic_update E K s nm bs (of_nat (length bs)) p = Some (None, s')"
  shows "fs_abs E plat (kfs_fs s') p nm = None"
proof -
  let ?tmp = "tmp_name nm"
  obtain m1 st2 s2 where i2: "fs_inv E plat (kfs_fs s2)" "fs_mounted (kfs_fs s2)"
      "current_sec_level (env_at E s2) < SEC_LEVEL_IMMUTABLE"
    and c: "if st2 = None then m1 p ?tmp = None \<and> (\<exists>b. stored_as (kfs_sec s) bs b \<and>
       fs_abs E plat (kfs_fs s2) = put m1 p ?tmp (Some (File_node b))) else fs_abs E plat (kfs_fs s2) = m1"
    and upd: "fs_atomic_update E K s nm bs (of_nat (length bs)) p =
      (case st2 of Some e \<Rightarrow> Some (Some e, s2) | None \<Rightarrow>
        (case (last_entry_idx (dir_table (kfs_fs s2)) nm p, last_entry_idx (dir_table (kfs_fs s2)) ?tmp p) of
           (Some x, Some y) \<Rightarrow> Some (None, s2\<lparr>kfs_fs := snd (fs_delete (env_at E s2) (save_directory_to_disk (env_at E s2)
              ((kfs_fs s2)\<lparr>dir_table := swap_entries E (dir_table (kfs_fs s2)) x y\<rparr>)) ?tmp p)\<rparr>)
         | _ \<Rightarrow> Some (Some E_NOENT, s2\<lparr>kfs_fs := snd (fs_delete (env_at E s2) (kfs_fs s2) ?tmp p)\<rparr>)))"
    by (rule atomic_update_steps [OF inv mt lvl len pool old])
  have n2: "st2 = None" using ok upd by (cases st2) auto
  then obtain b where "fs_abs E plat (kfs_fs s2) = put m1 p ?tmp (Some (File_node b))" using c by auto
  then have o2: "fs_abs E plat (kfs_fs s2) p ?tmp = Some (File_node b)" by (simp add: put_def)
  obtain y where y: "find_used1 (dir_table (kfs_fs s2)) ?tmp p = Some y" by (rule abs_file [OF i2(1) o2])
  have same: "find_used1 (dir_table (kfs_fs s2)) nm p = find_used1 (dir_table (kfs_fs s2)) ?tmp p"
    using eq by (simp add: find_used1_def names_def)
  let ?t = "save_directory_to_disk (env_at E s2) ((kfs_fs s2)\<lparr>dir_table := swap_entries E (dir_table (kfs_fs s2)) y y\<rparr>)"
  have s': "kfs_fs s' = snd (fs_delete (env_at E s2) ?t ?tmp p)"
    using ok n2 y same last_entry_used1 [OF fs_invD(4) [OF i2(1)]] unfolding upd by auto
  have u: "used (dir_table (kfs_fs s2)) y" using find_used1_SomeD [OF y] by simp
  have t: "fs_inv (env_at E s2) plat ?t" "fs_abs (env_at E s2) plat ?t p ?tmp = Some (File_node b)"
    using modify_attributes [OF env_at_inv(1) [OF i2(1)] u, of "(dir_table (kfs_fs s2) ! y)\<lparr>mtime := now E\<rparr>" s2] o2 u env_at_inv(3) [OF i2(1)]
    unfolding swap_self by (simp_all add: used_def)
  have mt2: "fs_mounted ?t" using i2(2) by simp
  obtain t' where "fs_delete (env_at E s2) ?t ?tmp p = (None, t')" "fs_abs (env_at E s2) plat t' = put (fs_abs (env_at E s2) plat ?t) p ?tmp None"
    by (rule delete_file_ok [OF t(1) mt2 i2(3) t(2)])
  then show ?thesis using s' env_at_inv(3) [OF inv] eq by (simp add: put_def)
qed

subsection \<open>Buffered writes\<close>







subsection \<open>Properties\<close>











end
