(* ===== verification/Mount.thy ===== *)
theory Mount
  imports Cryptofs
begin

text \<open>
  Bringing a file system up, \<^verbatim>\<open>fs/vfs.c\<close> from \<^verbatim>\<open>fs_tables_alloc\<close> to \<^verbatim>\<open>fs_keyslot_rewrap\<close>: the partition
  table, the superblock, formatting, mounting, and the key slot of the disk.  A table the code has
  released is the empty list, and \<^verbatim>\<open>fs_max_entries\<close> is the length of the directory table.  The
  allocation table is read back in whole sectors straight into its heap block, so the last sector
  also lands on what follows the block: \<open>init_fs\<close> returns those bytes next to the state.
\<close>

definition FS_MAX_ENTRIES_CAP :: nat where "FS_MAX_ENTRIES_CAP = 8192"

definition FS_DATA_START_SECTOR :: u32 where "FS_DATA_START_SECTOR = 200"

definition FS_CLUSTER_SECTORS :: nat where "FS_CLUSTER_SECTORS = 8"

definition FS_PART_START_LBA :: u32 where "FS_PART_START_LBA = 64"

definition FS_PART_TYPE :: u8 where "FS_PART_TYPE = 0x7F"

definition FS_SUPER_MAGIC :: u32 where "FS_SUPER_MAGIC = 0x46647365"

definition FS_FORMAT_VERSION :: u16 where "FS_FORMAT_VERSION = 3"

definition MBR_SIGNATURE :: u16 where "MBR_SIGNATURE = 0xAA55"

definition FS_LEGACY_DIR_SECTORS :: u32 where "FS_LEGACY_DIR_SECTORS = 136"

subsection \<open>Layouts\<close>

record mbr_partition_t =
  part_status :: u8
  chs_first :: "u8 list"
  part_type :: u8
  chs_last :: "u8 list"
  lba_first :: u32
  part_sectors :: u32

definition encode_partition :: "mbr_partition_t \<Rightarrow> u8 list" where
  "encode_partition p = [part_status p] @ chs_first p @ [part_type p] @ chs_last p @ le32 (lba_first p) @ le32 (part_sectors p)"

definition decode_partition :: "u8 list \<Rightarrow> mbr_partition_t" where
  "decode_partition b =
     \<lparr>part_status = b ! 0, chs_first = take 3 (drop 1 b), part_type = b ! 4, chs_last = take 3 (drop 5 b),
      lba_first = of_le32 (drop 8 b), part_sectors = of_le32 (drop 12 b)\<rparr>"

definition empty_partition :: mbr_partition_t where
  "empty_partition = \<lparr>part_status = 0, chs_first = [0, 0, 0], part_type = 0, chs_last = [0, 0, 0], lba_first = 0, part_sectors = 0\<rparr>"

record mbr_t =
  boot_code :: "u8 list"
  partitions :: "mbr_partition_t list"
  signature :: u16

definition encode_mbr :: "mbr_t \<Rightarrow> u8 list" where
  "encode_mbr m = boot_code m @ concat (map encode_partition (partitions m)) @ le16 (signature m)"

definition decode_mbr :: "u8 list \<Rightarrow> mbr_t" where
  "decode_mbr b =
     \<lparr>boot_code = take 446 b, partitions = map (\<lambda>i. decode_partition (take 16 (drop (446 + 16 * i) b))) [0..<4],
      signature = of_le16 (drop 510 b)\<rparr>"

definition encode_superblock :: "disk_superblock_t \<Rightarrow> u8 list" where
  "encode_superblock b =
     le32 (magic b) @ le16 (format_version b) @ le16 (sb_sector_size b) @ le32 (total_sectors b) @ le32 (dir_start b) @
     le32 (dir_sectors b) @ le32 (max_entries b) @ le16 (entry_size b) @ le16 (cluster_sectors b) @ le32 (fat_start b) @
     le32 (data_start b) @ le32 (total_clusters b) @ le32 (sb_flags b) @ keyslot b"

definition decode_superblock :: "u8 list \<Rightarrow> disk_superblock_t" where
  "decode_superblock b =
     \<lparr>magic = of_le32 b, format_version = of_le16 (drop 4 b), sb_sector_size = of_le16 (drop 6 b), total_sectors = of_le32 (drop 8 b),
      dir_start = of_le32 (drop 12 b), dir_sectors = of_le32 (drop 16 b), max_entries = of_le32 (drop 20 b),
      entry_size = of_le16 (drop 24 b), cluster_sectors = of_le16 (drop 26 b), fat_start = of_le32 (drop 28 b),
      data_start = of_le32 (drop 32 b), total_clusters = of_le32 (drop 36 b), sb_flags = of_le32 (drop 40 b),
      keyslot = take KEYSLOT_DISK_SIZE (drop 44 b)\<rparr>"

subsection \<open>The tables\<close>

definition fs_tables_free :: "'w fs_state \<Rightarrow> 'w fs_state" where
  "fs_tables_free s = s\<lparr>dir_table := [], file_allocation_table := []\<rparr>"

definition fs_tables_alloc :: "krt \<Rightarrow> 'w fs_state \<Rightarrow> u32 \<Rightarrow> u32 \<Rightarrow> status \<times> 'w fs_state" where
  "fs_tables_alloc K s entries clusters =
     (let s0 = fs_tables_free s in
      if entries = 0 \<or> clusters = 0 then (Some E_INVAL, s0)
      else if FS_MAX_ENTRIES_CAP < unat entries \<or> FS_MAX_CLUSTERS_CAP < unat clusters then (Some E_INVAL, s0)
      else if \<not> (kmalloc_ok K (entries * 96) \<and> kmalloc_ok K (clusters * 4) \<and> kmalloc_ok K (entries * 16)) then (Some E_NOMEM, s0)
      else (None, s0\<lparr>dir_table := decode_table (unat entries) (replicate (ENTRY_SIZE * unat entries) 0),
                     file_allocation_table := replicate (unat clusters) 0\<rparr>))"

definition save_superblock :: "'w fs_env \<Rightarrow> 'w fs_state \<Rightarrow> 'w fs_state" where
  "save_superblock E s =
     snd (fs_write_sector E s 0 (encode_superblock (fs_super s) @ replicate (512 - length (encode_superblock (fs_super s))) 0))"

subsection \<open>Formatting\<close>

text \<open>The sector buffer is read as raw memory of the disk, so these use the cache without the partition offset.\<close>

definition root_read :: "'w fs_env \<Rightarrow> 'w fs_state \<Rightarrow> u32 \<Rightarrow> status \<times> u8 list \<times> 'w fs_state" where
  "root_read E s l =
     (case bcache_read_sector (devs E) (disk s) (root E) l (Some (stack_junk E)) of (st, b, d) \<Rightarrow> (st, the b, s\<lparr>disk := d\<rparr>))"

definition root_write :: "'w fs_env \<Rightarrow> 'w fs_state \<Rightarrow> u32 \<Rightarrow> u8 list \<Rightarrow> status \<times> 'w fs_state" where
  "root_write E s l b =
     (case bcache_write_sector (devs E) (ticks E) (disk s) (root E) l (Some b) of (st, d) \<Rightarrow> (st, s\<lparr>disk := d\<rparr>))"

fun blank_scan :: "'w fs_env \<Rightarrow> u32 list \<Rightarrow> 'w fs_state \<Rightarrow> (errno + bool) \<times> 'w fs_state" where
  "blank_scan E [] s = (Inr True, s)"
| "blank_scan E (l # ls) s =
     (case root_read E s l of (st, b, s1) \<Rightarrow>
        (case st of Some e \<Rightarrow> (Inl e, s1)
         | None \<Rightarrow> if \<exists>i < 512. b ! i \<noteq> 0 then (Inr False, s1) else blank_scan E ls s1))"

definition disk_region_is_blank :: "'w fs_env \<Rightarrow> 'w fs_state \<Rightarrow> u32 \<Rightarrow> u32 \<Rightarrow> (errno + bool) \<times> 'w fs_state" where
  "disk_region_is_blank E s start count = blank_scan E (map (\<lambda>i. start + of_nat i) [0..<unat count]) s"

definition new_mbr :: "u32 \<Rightarrow> mbr_t" where
  "new_mbr disk_sectors =
     \<lparr>boot_code = replicate 446 0,
      partitions = [empty_partition\<lparr>part_type := FS_PART_TYPE, lba_first := FS_PART_START_LBA,
                                   part_sectors := disk_sectors - FS_PART_START_LBA\<rparr>,
                    empty_partition, empty_partition, empty_partition],
      signature = MBR_SIGNATURE\<rparr>"

definition write_mbr :: "'w fs_env \<Rightarrow> 'w fs_state \<Rightarrow> u32 \<Rightarrow> status \<times> 'w fs_state" where
  "write_mbr E s disk_sectors = root_write E s 0 (encode_mbr (new_mbr disk_sectors))"

definition dir_sectors_for :: "u32 \<Rightarrow> u32" where
  "dir_sectors_for entries = (entries * 96 + 511) div 512"

partial_function (option) more_entries :: "u32 \<Rightarrow> u32 \<Rightarrow> u32 option" where
  "more_entries psecs entries =
     (if entries * 2 \<le> 8192 \<and> dir_sectors_for (entries * 2) * 20 \<le> psecs
      then more_entries psecs (entries * 2) else Some entries)"

definition entries_for_partition :: "u32 \<Rightarrow> u32 option" where
  "entries_for_partition psecs = more_entries psecs 512"

text \<open>One pass of the loop that settles the number of clusters: the clusters, and where the data starts.\<close>

definition fit_pass :: "u32 \<Rightarrow> u32 \<Rightarrow> u32 \<Rightarrow> u32 \<times> u32" where
  "fit_pass max_secs fat_st clusters =
     (let fat_secs = (clusters * 4 + 511) div 512;
          data_st = fat_st + fat_secs;
          usable = (if data_st < max_secs then max_secs - data_st else 0);
          fit = usable div of_nat FS_CLUSTER_SECTORS
      in (if fit < clusters then fit else clusters, data_st))"

definition blank_super :: disk_superblock_t where
  "blank_super = decode_superblock (replicate 512 0)"

definition reserve_clusters :: "u32 list \<Rightarrow> u32 list" where
  "reserve_clusters fat = fold (\<lambda>i f. f[i := FAT_EOF]) [0..<min FS_FIRST_DATA_CLUSTER (length fat)] fat"

definition zero_directory :: "'w fs_env \<Rightarrow> 'w fs_state \<Rightarrow> 'w fs_state" where
  "zero_directory E s =
     fold (\<lambda>i t. snd (fs_write_sector E t (dir_start (fs_super s) + of_nat i) zero_sector)) [0..<unat (dir_sectors (fs_super s))] s"

definition cache_flush :: "'w fs_env \<Rightarrow> 'w fs_state \<Rightarrow> 'w fs_state" where
  "cache_flush E s = s\<lparr>disk := snd (bcache_flush (devs E) (disk s))\<rparr>"

definition format_disk :: "'w fs_env \<Rightarrow> krt \<Rightarrow> 'w fs_state \<Rightarrow> (status \<times> 'w fs_state) option" where
  "format_disk E K s =
     (case entries_for_partition (fs_max_sectors s) of
        None \<Rightarrow> None
      | Some entries \<Rightarrow>
          let dir_secs = dir_sectors_for entries;
              fat_st = 1 + dir_secs;
              clusters = fs_total_clusters s;
              clusters = (if FS_MAX_CLUSTERS_CAP < unat clusters then of_nat FS_MAX_CLUSTERS_CAP else clusters);
              clusters = fst (fit_pass (fs_max_sectors s) fat_st clusters);
              (clusters, data_st) = fit_pass (fs_max_sectors s) fat_st clusters;
              s1 = s\<lparr>fs_total_clusters := clusters\<rparr> in
          (case fs_tables_alloc K s1 entries clusters of
             (Some _, s2) \<Rightarrow> Some (Some E_NOMEM, s2)
           | (None, s2) \<Rightarrow>
               let s3 = s2\<lparr>fs_super := blank_super\<lparr>magic := FS_SUPER_MAGIC, format_version := FS_FORMAT_VERSION, sb_sector_size := 512,
                              total_sectors := fs_max_sectors s2, dir_start := 1, dir_sectors := dir_secs, max_entries := entries,
                              entry_size := 96, cluster_sectors := of_nat FS_CLUSTER_SECTORS, fat_start := fat_st,
                              data_start := data_st, total_clusters := fs_total_clusters s2, sb_flags := 0\<rparr>,
                            file_allocation_table := reserve_clusters (file_allocation_table s2)\<rparr>;
                   s4 = zero_directory E s3;
                   s5 = save_directory_to_disk E (save_fat_to_disk E (save_superblock E s4));
                   s6 = cache_flush E s5
               in Some (None, s6\<lparr>fs_was_formatted := True\<rparr>)))"

subsection \<open>Recognising a disk\<close>

definition superblock_ok :: "disk_superblock_t \<Rightarrow> bool" where
  "superblock_ok b \<longleftrightarrow>
     magic b = FS_SUPER_MAGIC \<and> format_version b = FS_FORMAT_VERSION \<and>
     \<not> (sb_sector_size b \<noteq> 512 \<or> entry_size b \<noteq> 96 \<or> FS_MAX_ENTRIES_CAP < unat (max_entries b) \<or>
        cluster_sectors b \<noteq> of_nat FS_CLUSTER_SECTORS \<or> total_clusters b = 0 \<or> FS_MAX_CLUSTERS_CAP < unat (total_clusters b) \<or>
        dir_start b = 0 \<or> fat_start b \<le> dir_start b \<or> data_start b \<le> fat_start b)"

definition load_superblock :: "'w fs_env \<Rightarrow> 'w fs_state \<Rightarrow> bool \<times> 'w fs_state" where
  "load_superblock E s =
     (case fs_read_sector E s 0 (stack_junk E) of (st, b, s1) \<Rightarrow>
        if st \<noteq> None then (False, s1)
        else let s2 = s1\<lparr>fs_super := decode_superblock b\<rparr> in
          if \<not> superblock_ok (fs_super s2) then (False, s2)
          else if fs_max_sectors s2 < fs_cluster_to_sector s2 (total_clusters (fs_super s2)) then (False, s2)
          else (True, s2\<lparr>fs_total_clusters := total_clusters (fs_super s2)\<rparr>))"

definition partition_fits :: "u32 \<Rightarrow> mbr_partition_t \<Rightarrow> bool" where
  "partition_fits disk_sectors p \<longleftrightarrow>
     part_type p = FS_PART_TYPE \<and>
     \<not> (lba_first p = 0 \<or> part_sectors p = 0) \<and> \<not> disk_sectors \<le> lba_first p \<and>
     \<not> disk_sectors - lba_first p < part_sectors p \<and> \<not> part_sectors p \<le> FS_DATA_START_SECTOR"

datatype part_result = Part_unreadable | Part_none | Part_found

definition load_partition :: "'w fs_env \<Rightarrow> 'w fs_state \<Rightarrow> u32 \<Rightarrow> part_result \<times> 'w fs_state" where
  "load_partition E s disk_sectors =
     (case root_read E s 0 of (st, b, s1) \<Rightarrow>
        if st \<noteq> None then (Part_unreadable, s1)
        else let mbr = decode_mbr b in
          if signature mbr \<noteq> MBR_SIGNATURE then (Part_none, s1)
          else case find (partition_fits disk_sectors) (partitions mbr) of
                 None \<Rightarrow> (Part_none, s1)
               | Some p \<Rightarrow> (Part_found, s1\<lparr>fs_part_start := lba_first p, fs_max_sectors := part_sectors p\<rparr>))"

subsection \<open>Mounting\<close>

definition clusters_that_fit :: "u32 \<Rightarrow> u32" where
  "clusters_that_fit max_secs =
     (let usable = (if FS_DATA_START_SECTOR < max_secs then max_secs - FS_DATA_START_SECTOR else 0);
          n = usable div of_nat FS_CLUSTER_SECTORS
      in if FS_MAX_CLUSTERS_CAP < unat n then of_nat FS_MAX_CLUSTERS_CAP else n)"

definition blit :: "u8 list \<Rightarrow> nat \<Rightarrow> u8 list \<Rightarrow> u8 list" where
  "blit mem a b = take a mem @ b @ drop (a + length b) mem"

fun load_dir :: "'w fs_env \<Rightarrow> nat \<Rightarrow> nat list \<Rightarrow> u8 list \<Rightarrow> 'w fs_state \<Rightarrow> bool \<times> u8 list \<times> 'w fs_state" where
  "load_dir E tot [] mem s = (True, mem, s)"
| "load_dir E tot (i # is) mem s =
     (case fs_read_sector E s (dir_start (fs_super s) + of_nat i) (stack_junk E) of (st, b, s1) \<Rightarrow>
        if st \<noteq> None then (False, mem, s1)
        else let copy_size = (if i * 512 + 512 > tot then tot mod 512 else 512)
             in load_dir E tot is (blit mem (i * 512) (take copy_size b)) s1)"

fun load_fat :: "'w fs_env \<Rightarrow> nat list \<Rightarrow> u8 list \<Rightarrow> 'w fs_state \<Rightarrow> bool \<times> u8 list \<times> 'w fs_state" where
  "load_fat E [] mem s = (True, mem, s)"
| "load_fat E (i # is) mem s =
     (case fs_read_sector E s (fat_start (fs_super s) + of_nat i) (take 512 (drop (i * 512) mem)) of (st, b, s1) \<Rightarrow>
        let mem' = blit mem (i * 512) b in
        if st \<noteq> None then (False, mem', s1) else load_fat E is mem' s1)"

fun decode_fat :: "nat \<Rightarrow> u8 list \<Rightarrow> u32 list" where
  "decode_fat 0 bs = []"
| "decode_fat (Suc n) bs = of_le32 (take 4 bs) # decode_fat n (drop 4 bs)"

text \<open>What both paths of \<^verbatim>\<open>init_fs\<close> lead to: the tables are read, checked and believed.\<close>

definition load_tables :: "'w fs_env \<Rightarrow> 'w fs_state \<Rightarrow> 'w fs_state \<times> u8 list" where
  "load_tables E s =
     (let tot = unat (ucast (entry_size (fs_super s)) * max_entries (fs_super s) :: u32);
          n = length (file_allocation_table s) in
      case load_dir E tot [0..<(tot + 511) div 512] (encode_table (dir_table s)) s of
        (ok, dmem, s1) \<Rightarrow>
          let s2 = s1\<lparr>dir_table := decode_table (length (dir_table s)) dmem\<rparr> in
          if \<not> ok then (s2, heap_after_fat E)
          else case load_fat E [0..<unat ((fs_total_clusters s2 * 4 + 511) div 512)]
                      (concat (map le32 (file_allocation_table s2)) @ heap_after_fat E) s2 of
            (ok, fmem, s3) \<Rightarrow>
              let s4 = s3\<lparr>file_allocation_table := decode_fat n fmem\<rparr>; behind = drop (4 * n) fmem in
              if \<not> ok then (s4, behind)
              else let s5 = s4\<lparr>file_allocation_table := reserve_clusters (file_allocation_table s4)\<rparr> in
                if \<not> fs_validate_directory_table (dir_table s5) (fs_total_clusters s5) then (fs_tables_free s5, behind)
                else (save_fat_to_disk (E\<lparr>heap_after_fat := behind\<rparr>) (s5\<lparr>fs_mounted := True\<rparr>), behind))"

definition init_fs :: "'w fs_env \<Rightarrow> krt \<Rightarrow> 'w fs_state \<Rightarrow> ('w fs_state \<times> u8 list) option" where
  "init_fs E K s =
     (let disk_sectors = (if root E = 0 then 0 else sector_count (devs E (root E)));
          keep = (\<lambda>t. Some (t, heap_after_fat E));
          s0 = fs_tables_free (s\<lparr>disk := bcache_init (disk s), fs_mounted := False, fs_part_start := 0, fs_total_clusters := 0\<rparr>) in
      if disk_sectors \<le> FS_PART_START_LBA + FS_DATA_START_SECTOR then keep s0
      else case load_partition E s0 disk_sectors of
        (Part_unreadable, s1) \<Rightarrow> keep s1
      | (Part_found, s1) \<Rightarrow>
          (case load_superblock E (s1\<lparr>fs_total_clusters := clusters_that_fit (fs_max_sectors s1)\<rparr>) of
             (False, s2) \<Rightarrow> keep s2
           | (True, s2) \<Rightarrow>
               (case fs_tables_alloc K s2 (max_entries (fs_super s2)) (total_clusters (fs_super s2)) of
                  (Some _, s3) \<Rightarrow> keep s3
                | (None, s3) \<Rightarrow> Some (load_tables E s3)))
      | (Part_none, s1) \<Rightarrow>
          (case root_read E s1 0 of
             (Some _, _, s2) \<Rightarrow> keep s2
           | (None, b, s2) \<Rightarrow>
               if of_le32 b = FS_SUPER_MAGIC then keep s2
               else (case disk_region_is_blank E s2 0 (FS_PART_START_LBA + FS_LEGACY_DIR_SECTORS) of
                       (Inl _, s3) \<Rightarrow> keep s3
                     | (Inr False, s3) \<Rightarrow> keep (snd (snd (root_read E s3 0)))
                     | (Inr True, s3) \<Rightarrow>
                         let s4 = s3\<lparr>fs_part_start := FS_PART_START_LBA, fs_max_sectors := disk_sectors - FS_PART_START_LBA\<rparr>;
                             s5 = s4\<lparr>fs_total_clusters := clusters_that_fit (fs_max_sectors s4)\<rparr> in
                         if unat (fs_total_clusters s5) < FS_FIRST_DATA_CLUSTER + 1 then keep s5
                         else (case write_mbr E s5 disk_sectors of
                                 (Some _, s6) \<Rightarrow> keep s6
                               | (None, s6) \<Rightarrow>
                                   (case format_disk E K s6 of
                                      None \<Rightarrow> None
                                    | Some (Some _, s7) \<Rightarrow> keep s7
                                    | Some (None, s7) \<Rightarrow> Some (load_tables E s7))))))"

subsection \<open>The key slot of the disk\<close>

definition super_slot :: "'w fs_state \<Rightarrow> keyslot_t" where
  "super_slot s = decode_keyslot (keyslot (fs_super s))"

definition set_super_slot :: "keyslot_t \<Rightarrow> 'w fs_state \<Rightarrow> 'w fs_state" where
  "set_super_slot k s = s\<lparr>fs_super := (fs_super s)\<lparr>keyslot := encode_keyslot k\<rparr>\<rparr>"

definition fs_keyslot_present :: "'w fs_state \<Rightarrow> bool" where
  "fs_keyslot_present s \<longleftrightarrow> fs_mounted s \<and> keyslot_is_present (super_slot s)"

text \<open>The outcomes of RDRAND for the data key, the salt and the initialisation vector.\<close>

type_synonym slot_rnd = "rdrand \<times> rdrand \<times> rdrand"

definition fs_keyslot_install :: "'w fs_env \<Rightarrow> slot_rnd \<Rightarrow> 'w kfs \<Rightarrow> u8 list option \<Rightarrow> (status \<times> 'w kfs) option" where
  "fs_keyslot_install E rd s passphrase =
     (case rd of (rd0, rd1, rd2) \<Rightarrow>
      if \<not> fs_mounted (kfs_fs s) then Some (Some E_NODEV, s)
      else case random_fill rd0 (kfs_pool s) (stack_junk E) KEYSLOT_KEY_LEN of
        (q, dek, p1) \<Rightarrow>
          let s1 = s\<lparr>kfs_pool := p1\<rparr> in
          if q = ENTROPY_FAIL then Some (Some E_IO, s1)
          else case keyslot_create rd1 rd2 p1 (super_slot (kfs_fs s1)) passphrase dek of
            None \<Rightarrow> None
          | Some (st, k, p2) \<Rightarrow>
              let s2 = s1\<lparr>kfs_fs := set_super_slot k (kfs_fs s1), kfs_pool := p2\<rparr> in
              if st \<noteq> None then Some (st, s2)
              else Some (None, s2\<lparr>kfs_fs := cache_flush E (save_superblock E (kfs_fs s2)),
                                 kfs_sec := install_master_key dek (kfs_sec s2)\<rparr>))"

definition fs_keyslot_unlock :: "'w kfs \<Rightarrow> u8 list option \<Rightarrow> (status \<times> 'w kfs) option" where
  "fs_keyslot_unlock s passphrase =
     (if \<not> fs_mounted (kfs_fs s) then Some (Some E_NODEV, s)
      else if \<not> keyslot_is_present (super_slot (kfs_fs s)) then Some (Some E_INVAL, s)
      else case keyslot_unwrap (super_slot (kfs_fs s)) passphrase of
        None \<Rightarrow> None
      | Some (Inl e) \<Rightarrow> Some (Some e, s)
      | Some (Inr dek) \<Rightarrow> Some (None, s\<lparr>kfs_sec := install_master_key dek (kfs_sec s)\<rparr>))"

definition fs_keyslot_rewrap :: "'w fs_env \<Rightarrow> rdrand \<Rightarrow> rdrand \<Rightarrow> keyslot_t \<Rightarrow> 'w kfs \<Rightarrow> u8 list option \<Rightarrow> u8 list option \<Rightarrow>
  (status \<times> 'w kfs) option" where
  "fs_keyslot_rewrap E rd1 rd2 junk s old_pass new_pass =
     (if \<not> fs_mounted (kfs_fs s) then Some (Some E_NODEV, s)
      else if SEC_LEVEL_IMMUTABLE \<le> sec_level (kfs_sec s) then Some (Some E_ROFS, s)
      else if \<not> keyslot_is_present (super_slot (kfs_fs s)) then Some (Some E_INVAL, s)
      else case keyslot_unwrap (super_slot (kfs_fs s)) old_pass of
        None \<Rightarrow> None
      | Some (Inl e) \<Rightarrow> Some (Some e, s)
      | Some (Inr dek) \<Rightarrow>
          (case keyslot_create rd1 rd2 (kfs_pool s) junk new_pass dek of
             None \<Rightarrow> None
           | Some (st, fresh, p1) \<Rightarrow>
               let s1 = s\<lparr>kfs_pool := p1\<rparr> in
               if st \<noteq> None then Some (st, s1)
               else Some (None, s1\<lparr>kfs_fs := cache_flush E (save_superblock E (set_super_slot fresh (kfs_fs s1)))\<rparr>)))"

subsection \<open>The layouts read back\<close>

lemma length_encode_superblock: "length (keyslot b) = KEYSLOT_DISK_SIZE \<Longrightarrow> length (encode_superblock b) = 160"
  by (simp add: encode_superblock_def KEYSLOT_DISK_SIZE_def)

lemma decode_encode_superblock:
  assumes "length (keyslot b) = KEYSLOT_DISK_SIZE"
  shows "decode_superblock (encode_superblock b @ zs) = b"
  using assms by (simp add: decode_superblock_def encode_superblock_def)

lemma length_encode_partition:
  "length (chs_first p) = 3 \<Longrightarrow> length (chs_last p) = 3 \<Longrightarrow> length (encode_partition p) = 16"
  by (simp add: encode_partition_def)

lemma decode_encode_partition:
  assumes "length (chs_first p) = 3" "length (chs_last p) = 3"
  shows "decode_partition (encode_partition p) = p"
  using assms by (simp add: decode_partition_def encode_partition_def nth_append)

lemma new_mbr_reads: "decode_mbr (encode_mbr (new_mbr n)) = new_mbr n" "length (encode_mbr (new_mbr n)) = 512"
proof -
  let ?p = "empty_partition\<lparr>part_type := FS_PART_TYPE, lba_first := FS_PART_START_LBA, part_sectors := n - FS_PART_START_LBA\<rparr>"
  have l: "length (encode_partition ?p) = 16" "length (encode_partition empty_partition) = 16"
    by (simp_all add: length_encode_partition empty_partition_def)
  have d: "decode_partition (encode_partition ?p) = ?p" "decode_partition (encode_partition empty_partition) = empty_partition"
    by (simp_all add: decode_encode_partition empty_partition_def)
  have "[0..<4] = [0, 1, 2, 3]" by (simp add: upt_rec)
  then show "decode_mbr (encode_mbr (new_mbr n)) = new_mbr n"
    unfolding decode_mbr_def encode_mbr_def new_mbr_def using l d by simp
  show "length (encode_mbr (new_mbr n)) = 512" unfolding encode_mbr_def new_mbr_def using l by simp
qed

lemma length_concat_le32 [simp]: "length (concat (map le32 fat)) = 4 * length fat"
  by (induction fat) simp_all

lemma decode_fat_image: "decode_fat (length fat) (concat (map le32 fat) @ t) = fat"
  by (induction fat) simp_all

lemma length_blit: "a + length b \<le> length mem \<Longrightarrow> length (blit mem a b) = length mem"
  by (simp add: blit_def)

lemma length_decode_table [simp]: "length (decode_table n bs) = n"
  by (induction n arbitrary: bs) simp_all

lemma length_decode_fat [simp]: "length (decode_fat n bs) = n"
  by (induction n arbitrary: bs) simp_all

lemma wf_decode_table: "ENTRY_SIZE * n \<le> length bs \<Longrightarrow> list_all wf_entry (decode_table n bs)"
  by (induction n arbitrary: bs) (simp_all add: wf_entry_def decode_entry_def MAX_FILENAME_def ENTRY_SIZE_def)

subsection \<open>Reading the tables back\<close>

lemma blit_image:
  assumes mem: "take a mem = take a img" and b: "b = take n (drop a img)" "length b = n" and le: "a + n \<le> length mem"
  shows "take (a + n) (blit mem a b) = take (a + n) img" "length (blit mem a b) = length mem"
    "drop (a + n) (blit mem a b) = drop (a + n) mem"
proof -
  have l: "length (take a mem) = a" using le by simp
  have "take (a + n) (blit mem a b) = take a mem @ b" unfolding blit_def using l b(2) by simp
  also have "\<dots> = take (a + n) img" unfolding mem b(1) take_add ..
  finally show "take (a + n) (blit mem a b) = take (a + n) img" .
  show "length (blit mem a b) = length mem" unfolding blit_def using l b(2) le by simp
  show "drop (a + n) (blit mem a b) = drop (a + n) mem" unfolding blit_def using l b(2) by simp
qed

lemma last_part: "i * 512 < tot \<Longrightarrow> (if i * 512 + 512 > tot then tot mod 512 else 512) = min 512 (tot - i * 512)" for tot :: nat
proof -
  assume "i * 512 < tot"
  then obtain r where "tot = i * 512 + r" by (metis less_imp_le_nat le_add_diff_inverse)
  then show ?thesis by (simp add: min_def)
qed

lemma dir_sector_copy:
  assumes wf: "list_all wf_entry tab" and i: "i < dir_sectors_needed tab"
  defines "tot \<equiv> ENTRY_SIZE * length tab"
  defines "n \<equiv> if i * 512 + 512 > tot then tot mod 512 else 512"
  shows "take n (dir_sector tab i) = take n (drop (i * 512) (encode_table tab))" "i * 512 + n \<le> tot"
    "n = min 512 (tot - i * 512)"
proof -
  have lt: "i * 512 < tot" using i unfolding dir_sectors_needed_def tot_def [symmetric] by simp
  have len: "length (encode_table tab) = tot" using length_encode_table [OF wf] by (simp add: tot_def)
  show n: "n = min 512 (tot - i * 512)" unfolding n_def by (rule last_part [OF lt])
  then show le: "i * 512 + n \<le> tot" using lt by simp
  have "length (take n (drop (i * 512) (encode_table tab))) = n" using le len by simp
  then show "take n (dir_sector tab i) = take n (drop (i * 512) (encode_table tab))"
    unfolding dir_sector_def Let_def tot_def [symmetric] n_def [symmetric] by simp
qed

lemma load_dir_step:
  assumes ok: "fs_ok E plat s" and wf: "list_all wf_entry tab" and tot: "tot = ENTRY_SIZE * length tab"
    and i: "i < dir_sectors_needed tab"
    and img: "fview E plat s (dir_start (fs_super s) + of_nat i) = dir_sector tab i"
    and rng: "dir_start (fs_super s) + of_nat i < fs_max_sectors s"
    and mem: "length mem = tot" "take (i * 512) mem = take (i * 512) (encode_table tab)"
  shows "\<exists>s1 mem'. load_dir E tot (i # is) mem s = load_dir E tot is mem' s1 \<and> same_view E plat s s1 \<and> length mem' = tot \<and>
    take (Suc i * 512) mem' = take (Suc i * 512) (encode_table tab)"
proof -
  define n where "n = (if i * 512 + 512 > tot then tot mod 512 else 512)"
  note c = dir_sector_copy [OF wf i, folded tot, folded n_def]
  obtain s1 where r: "fs_read_sector E s (dir_start (fs_super s) + of_nat i) (stack_junk E) = (None, dir_sector tab i, s1)" "same_view E plat s s1"
    using fs_read_same [OF ok rng, of "stack_junk E"] img by metis
  define mem' where "mem' = blit mem (i * 512) (take n (dir_sector tab i))"
  have ln: "length (take n (dir_sector tab i)) = n" using c(3) by simp
  have le: "i * 512 + n \<le> length mem" using c(2) mem(1) by simp
  note b = blit_image [OF mem(2) c(1) ln le, folded mem'_def]
  have m': "length mem' = tot" using b(2) mem(1) by simp
  have "take (Suc i * 512) mem' = take (Suc i * 512) (encode_table tab)"
  proof (cases "i * 512 + 512 \<le> tot")
    case True
    then have "i * 512 + n = Suc i * 512" by (simp add: n_def)
    then show ?thesis using b(1) by (simp add: add.commute)
  next
    case False
    then have "i * 512 + n = tot" using c(2,3) by simp
    then have "mem' = encode_table tab" using b(1) m' length_encode_table [OF wf] tot by simp
    then show ?thesis by simp
  qed
  moreover have "load_dir E tot (i # is) mem s = load_dir E tot is mem' s1"
    using r(1) by (simp add: n_def [symmetric] mem'_def [symmetric] Let_def)
  ultimately show ?thesis using r(2) m' by blast
qed

lemma load_dir_reads:
  assumes "fs_ok E plat s" and wf: "list_all wf_entry tab" and tot: "tot = ENTRY_SIZE * length tab"
    and "\<And>j. j < dir_sectors_needed tab \<Longrightarrow> fview E plat s (dir_start (fs_super s) + of_nat j) = dir_sector tab j"
    and "\<And>j. j < dir_sectors_needed tab \<Longrightarrow> dir_start (fs_super s) + of_nat j < fs_max_sectors s"
    and "length mem = tot" "i + k = dir_sectors_needed tab" "take (i * 512) mem = take (i * 512) (encode_table tab)"
  shows "\<exists>s'. load_dir E tot [i..<i + k] mem s = (True, encode_table tab, s') \<and> same_view E plat s s'"
  using assms(1,4-)
proof (induction k arbitrary: i mem s)
  case 0
  have "tot \<le> dir_sectors_needed tab * 512" unfolding dir_sectors_needed_def tot by linarith
  then have "mem = encode_table tab" using 0 length_encode_table [OF wf] tot by simp
  then show ?case using same_view_refl [OF 0(1)] by simp
next
  case (Suc k)
  have lt: "i < dir_sectors_needed tab" using Suc.prems(5) by simp
  obtain s1 mem' where st: "load_dir E tot (i # [Suc i..<i + Suc k]) mem s = load_dir E tot [Suc i..<i + Suc k] mem' s1"
    "same_view E plat s s1" "length mem' = tot" "take (Suc i * 512) mem' = take (Suc i * 512) (encode_table tab)"
    using load_dir_step [OF Suc.prems(1) wf tot lt Suc.prems(2) [OF lt] Suc.prems(3) [OF lt] Suc.prems(4,6), of "[Suc i..<i + Suc k]"] by blast
  note f = same_view_fields [OF st(2)]
  have "\<exists>s'. load_dir E tot [Suc i..<Suc i + k] mem' s1 = (True, encode_table tab, s') \<and> same_view E plat s1 s'"
    by (rule Suc.IH) (use Suc.prems(2,3,5) f st(3,4) in simp_all)
  then obtain s' where s': "load_dir E tot [Suc i..<Suc i + k] mem' s1 = (True, encode_table tab, s')" "same_view E plat s1 s'" by blast
  have "[i..<i + Suc k] = i # [Suc i..<i + Suc k]" by (simp add: upt_conv_Cons del: upt_Suc)
  then have "load_dir E tot [i..<i + Suc k] mem s = (True, encode_table tab, s')" using st(1) s'(1) by (simp del: upt_Suc load_dir.simps)
  then show ?case using same_view_trans [OF st(2) s'(2)] by blast
qed

lemma load_fat_reads:
  assumes "fs_ok E plat s" and "\<And>j. j < m \<Longrightarrow> fview E plat s (fat_start (fs_super s) + of_nat j) = take 512 (drop (j * 512) im)"
    and "\<And>j. j < m \<Longrightarrow> fat_start (fs_super s) + of_nat j < fs_max_sectors s"
    and im: "m * 512 \<le> length im" and "m * 512 \<le> length mem" "i + k = m" "take (i * 512) mem = take (i * 512) im"
  shows "\<exists>s'. load_fat E [i..<i + k] mem s = (True, take (m * 512) im @ drop (m * 512) mem, s') \<and> same_view E plat s s'"
  using assms(1-3,5-)
proof (induction k arbitrary: i mem s)
  case 0
  then have "mem = take (m * 512) im @ drop (m * 512) mem" using append_take_drop_id [of "m * 512" mem] by simp
  then show ?case using same_view_refl [OF 0(1)] by simp
next
  case (Suc k)
  have lt: "i < m" using Suc.prems(5) by simp
  let ?b = "take 512 (drop (i * 512) im)"
  obtain s1 where r: "fs_read_sector E s (fat_start (fs_super s) + of_nat i) (take 512 (drop (i * 512) mem)) = (None, ?b, s1)" "same_view E plat s s1"
    using fs_read_same [OF Suc.prems(1) Suc.prems(3) [OF lt]] Suc.prems(2) [OF lt] by metis
  note f = same_view_fields [OF r(2)]
  define mem' where "mem' = blit mem (i * 512) ?b"
  have le: "i * 512 + 512 \<le> m * 512" using lt by simp
  then have ln: "length ?b = 512" "i * 512 + 512 \<le> length mem" using im Suc.prems(4) by simp_all
  note b = blit_image [OF Suc.prems(6) refl ln, folded mem'_def]
  have tk: "take (Suc i * 512) mem' = take (Suc i * 512) im" using b(1) by (simp add: add.commute)
  have "\<exists>s'. load_fat E [Suc i..<Suc i + k] mem' s1 = (True, take (m * 512) im @ drop (m * 512) mem', s') \<and> same_view E plat s1 s'"
    by (rule Suc.IH) (use Suc.prems f b(2) tk in simp_all)
  then obtain s' where s': "load_fat E [Suc i..<Suc i + k] mem' s1 = (True, take (m * 512) im @ drop (m * 512) mem', s')" "same_view E plat s1 s'" by blast
  have "drop (m * 512) mem' = drop (m * 512 - (i * 512 + 512)) (drop (i * 512 + 512) mem')" using le by simp
  also have "\<dots> = drop (m * 512) mem" unfolding b(3) using le by simp
  finally have dr: "drop (m * 512) mem' = drop (m * 512) mem" .
  have "[i..<i + Suc k] = i # [Suc i..<Suc i + k]" by (simp add: upt_conv_Cons del: upt_Suc)
  then have "load_fat E [i..<i + Suc k] mem s = (True, take (m * 512) im @ drop (m * 512) mem, s')"
    using r(1) s'(1) unfolding mem'_def [symmetric] dr by (simp add: mem'_def [symmetric] Let_def del: upt_Suc)
  then show ?case using same_view_trans [OF r(2) s'(2)] by blast
qed

subsection \<open>Clusters 0 and 1\<close>

lemma reserve_clusters_keeps:
  "length (reserve_clusters fat) = length fat" "2 \<le> j \<Longrightarrow> reserve_clusters fat ! j = fat ! j"
proof -
  have "length (fold (\<lambda>i f. f[i := FAT_EOF]) xs fat) = length fat \<and>
      (j \<notin> set xs \<longrightarrow> fold (\<lambda>i f. f[i := FAT_EOF]) xs fat ! j = fat ! j)" for xs j
    by (induction xs arbitrary: fat) auto
  then show "length (reserve_clusters fat) = length fat" "2 \<le> j \<Longrightarrow> reserve_clusters fat ! j = fat ! j"
    unfolding reserve_clusters_def by (auto simp: FS_FIRST_DATA_CLUSTER_def)
qed

lemma reserve_chains:
  assumes "chains_ok cb fat tab"
  shows "chains_ok cb (reserve_clusters fat) tab"
    "used tab i \<Longrightarrow> clusters_of (reserve_clusters fat) (tab ! i) = clusters_of fat (tab ! i)"
proof -
  have same: "clusters_of (reserve_clusters fat) (tab ! i) = clusters_of fat (tab ! i) \<and> good_entry cb (reserve_clusters fat) (tab ! i)"
    if "used tab i" for i
  proof -
    have good: "good_entry cb fat (tab ! i)" using assms that by (simp add: chains_ok_def)
    have "reserve_clusters fat ! unat x = fat ! unat x" if x: "x \<in> set (clusters_of fat (tab ! i))" for x
    proof (cases "start_cluster (tab ! i) = 0")
      case True
      then show ?thesis using x by (simp add: clusters_of_def)
    next
      case False
      then have "chain fat (start_cluster (tab ! i)) (clusters_of fat (tab ! i))" using good by (simp add: good_entry_def)
      from chain_range [OF this x] show ?thesis by (simp add: reserve_clusters_keeps FS_FIRST_DATA_CLUSTER_def)
    qed
    from good_entry_cong [OF good reserve_clusters_keeps(1) this] show ?thesis by simp
  qed
  then show "chains_ok cb (reserve_clusters fat) tab" using assms by (simp add: chains_ok_def)
  show "used tab i \<Longrightarrow> clusters_of (reserve_clusters fat) (tab ! i) = clusters_of fat (tab ! i)" using same by simp
qed

subsection \<open>The tables are what was saved\<close>

lemma sector_in_run:
  assumes "unat (a :: u32) + n \<le> unat (m :: u32)" "i < n"
  shows "a + of_nat i < m"
  using run_unat [OF assms] assms by (simp add: word_less_nat_alt)

lemma table_ranges:
  assumes g: "geom_ok s"
  shows "j < dir_sectors_needed (dir_table s) \<Longrightarrow> dir_start (fs_super s) + of_nat j < fs_max_sectors s"
    "j < fat_sectors_needed s \<Longrightarrow> fat_start (fs_super s) + of_nat j < fs_max_sectors s"
proof -
  have "unat (dir_start (fs_super s)) + dir_sectors_needed (dir_table s) \<le> unat (fs_max_sectors s)"
    "unat (fat_start (fs_super s)) + fat_sectors_needed s \<le> unat (fs_max_sectors s)"
    using g unfolding geom_ok_def by linarith+
  then show "j < dir_sectors_needed (dir_table s) \<Longrightarrow> dir_start (fs_super s) + of_nat j < fs_max_sectors s"
    "j < fat_sectors_needed s \<Longrightarrow> fat_start (fs_super s) + of_nat j < fs_max_sectors s"
    by (blast intro: sector_in_run)+
qed

text \<open>
  Both tables come back as they were written, the reserved clusters are marked, and the bytes behind the
  allocation table are those that lay there when it was written.
\<close>

lemma load_tables_reads:
  assumes inv: "disk_inv E plat s" and sb: "entry_size (fs_super s) = 96" "unat (max_entries (fs_super s)) = length (dir_table s)"
    and old: "list_all wf_entry (dir_table s)"
    and tab: "length tab = length (dir_table s)" "list_all wf_entry tab"
      "\<And>i. i < dir_sectors_needed tab \<Longrightarrow> fview E plat s (dir_start (fs_super s) + of_nat i) = dir_sector tab i"
      "fs_validate_directory_table tab (fs_total_clusters s)"
    and fat: "length fat = length (file_allocation_table s)"
      "\<And>i. i < fat_sectors_needed s \<Longrightarrow> fview E plat s (fat_start (fs_super s) + of_nat i) = fat_image fat hp i"
  shows "\<exists>d behind. load_tables E s = (save_fat_to_disk (E\<lparr>heap_after_fat := behind\<rparr>)
        (s\<lparr>dir_table := tab, disk := d, file_allocation_table := reserve_clusters fat, fs_mounted := True\<rparr>), behind) \<and>
      same_view E plat s (s\<lparr>disk := d\<rparr>) \<and> length behind = length (heap_after_fat E) \<and>
      (\<forall>j < 512 * fat_sectors_needed s - 4 * length fat. behind ! j = hp ! j)"
proof -
  note d = inv [unfolded disk_inv_def]
  have g: "geom_ok s" and ok: "fs_ok E plat s" using d by simp_all
  have tot: "unat (ucast (entry_size (fs_super s)) * max_entries (fs_super s) :: u32) = ENTRY_SIZE * length tab"
    using sb g tab(1) by (simp add: ENTRY_SIZE_def geom_ok_def unat_word_ariths)
  have nd: "(ENTRY_SIZE * length tab + 511) div 512 = dir_sectors_needed tab" "dir_sectors_needed tab = dir_sectors_needed (dir_table s)"
    using tab(1) by (simp_all add: dir_sectors_needed_def)
  have "\<exists>s1. load_dir E (ENTRY_SIZE * length tab) [0..<0 + dir_sectors_needed tab] (encode_table (dir_table s)) s = (True, encode_table tab, s1) \<and> same_view E plat s s1"
    by (rule load_dir_reads [OF ok tab(2) refl tab(3)])
      (use table_ranges(1) [OF g] nd tab(1) length_encode_table [OF old] in simp_all)
  then obtain d1 where d1: "load_dir E (ENTRY_SIZE * length tab) [0..<dir_sectors_needed tab] (encode_table (dir_table s)) s = (True, encode_table tab, s\<lparr>disk := d1\<rparr>)"
    "same_view E plat s (s\<lparr>disk := d1\<rparr>)" by (auto simp: same_view_def)
  have dt: "decode_table (length (dir_table s)) (encode_table tab) = tab" using decode_encode_table [OF tab(2), of "[]"] tab(1) by simp
  define s2 where "s2 = s\<lparr>disk := d1, dir_table := tab\<rparr>"
  have v2: "fview E plat s2 = fview E plat s" "fs_ok E plat s2" "fs_super s2 = fs_super s" "fs_max_sectors s2 = fs_max_sectors s"
    "file_allocation_table s2 = file_allocation_table s" "fs_total_clusters s2 = fs_total_clusters s"
    using d1(2) by (simp_all add: same_view_def s2_def fview_def fs_ok_def)
  let ?m = "fat_sectors_needed s" and ?im = "concat (map le32 fat) @ hp" and ?mem = "concat (map le32 (file_allocation_table s)) @ heap_after_fat E"
  have n: "length fat = unat (fs_total_clusters s)" using fat(1) g by (simp add: geom_ok_def)
  have m: "4 * length fat \<le> ?m * 512" "?m * 512 \<le> 4 * length fat + 511" unfolding fat_sectors_needed_def n by linarith+
  have im: "?m * 512 \<le> length ?im"
  proof (cases ?m)
    case (Suc k)
    have "fview E plat s (fat_start (fs_super s) + of_nat k) = take 512 (drop (k * 512) ?im)" using fat(2) [of k] Suc by (simp add: fat_image_def)
    moreover have "length (fview E plat s (fat_start (fs_super s) + of_nat k)) = 512"
      using d table_ranges(2) [OF g, of k] Suc by (simp add: sectors_full_def)
    ultimately show ?thesis using Suc by simp
  qed simp
  have mem: "?m * 512 \<le> length ?mem" using m(2) d fat(1) by simp
  have "\<exists>s3. load_fat E [0..<0 + ?m] ?mem s2 = (True, take (?m * 512) ?im @ drop (?m * 512) ?mem, s3) \<and> same_view E plat s2 s3"
    by (rule load_fat_reads [OF v2(2) _ _ im mem])
      (use v2 fat(2) table_ranges(2) [OF g] in \<open>simp_all add: fat_image_def\<close>)
  then obtain d3 where d3: "load_fat E [0..<?m] ?mem s2 = (True, take (?m * 512) ?im @ drop (?m * 512) ?mem, s2\<lparr>disk := d3\<rparr>)"
    "same_view E plat s2 (s2\<lparr>disk := d3\<rparr>)" by (auto simp: same_view_def)
  define behind where "behind = take (?m * 512 - 4 * length fat) hp @ drop (?m * 512) ?mem"
  have fm: "take (?m * 512) ?im @ drop (?m * 512) ?mem = concat (map le32 fat) @ behind" using m(1) by (simp add: behind_def)
  have dec: "decode_fat (length (file_allocation_table s)) (concat (map le32 fat) @ behind) = fat"
    "drop (4 * length (file_allocation_table s)) (concat (map le32 fat) @ behind) = behind"
    using decode_fat_image [of fat behind] fat(1) by simp_all
  have "load_tables E s = (save_fat_to_disk (E\<lparr>heap_after_fat := behind\<rparr>)
        (s\<lparr>dir_table := tab, disk := d3, file_allocation_table := reserve_clusters fat, fs_mounted := True\<rparr>), behind)"
    unfolding load_tables_def Let_def tot nd(1) d1(1) prod.case dt
    using tab(4) v2(5,6) d3(1) [unfolded fm] dec unfolding s2_def [symmetric] by (simp add: fat_sectors_unat [OF g]) (simp add: s2_def)
  moreover have "same_view E plat s (s\<lparr>disk := d3\<rparr>)"
  proof -
    have "fview E plat (s\<lparr>disk := d3\<rparr>) = fview E plat (s2\<lparr>disk := d3\<rparr>)" "fs_ok E plat (s\<lparr>disk := d3\<rparr>) = fs_ok E plat (s2\<lparr>disk := d3\<rparr>)"
      by (simp_all add: fun_eq_iff fview_def fs_ok_def s2_def)
    then show ?thesis using d3(2) v2(1) unfolding same_view_def by auto
  qed
  moreover have "length behind = length (heap_after_fat E)" using im mem m fat(1) by (simp add: behind_def)
  moreover have "\<forall>j < 512 * ?m - 4 * length fat. behind ! j = hp ! j" using im m by (auto simp: behind_def nth_append)
  ultimately show ?thesis by blast
qed

subsection \<open>The whole device\<close>

definition disk_ok :: "'w fs_env \<Rightarrow> ('w \<Rightarrow> dev_ptr \<Rightarrow> u32 \<Rightarrow> u8 list) \<Rightarrow> 'w bcache \<Rightarrow> bool" where
  "disk_ok E plat d \<longleftrightarrow> driver_ok (devs E) plat \<and> healthy (devs E) \<and> bcache_inv plat d \<and> dirty_ok (devs E) d \<and>
     root E \<noteq> 0 \<and> sector_size (devs E (root E)) = 512 \<and> dev_read (devs E (root E)) \<noteq> None \<and> dev_write (devs E (root E)) \<noteq> None"

abbreviation disk_count :: "'w fs_env \<Rightarrow> u32" where
  "disk_count E \<equiv> sector_count (devs E (root E))"

lemma fs_ok_disk_ok:
  "fs_ok E plat s \<longleftrightarrow> disk_ok E plat (disk s) \<and> unat (fs_part_start s) + unat (fs_max_sectors s) \<le> unat (disk_count E)"
  by (auto simp: fs_ok_def disk_ok_def)

abbreviation whole :: "'w fs_env \<Rightarrow> 'w fs_state \<Rightarrow> 'w fs_state" where
  "whole E s \<equiv> s\<lparr>fs_part_start := 0, fs_max_sectors := disk_count E\<rparr>"

lemma whole_ok: "disk_ok E plat (disk s) \<Longrightarrow> fs_ok E plat (whole E s)"
  by (simp add: fs_ok_disk_ok)

lemma fview_whole: "fview E plat (whole E s) r = view plat (disk s) (root E) r"
  by (simp add: fview_def)

lemma root_read_ok:
  assumes ok: "disk_ok E plat (disk s)" and l: "l < disk_count E"
  obtains d where "root_read E s l = (None, view plat (disk s) (root E) l, s\<lparr>disk := d\<rparr>)" "disk_ok E plat d"
    "view plat d (root E) = view plat (disk s) (root E)"
proof -
  obtain d where d: "fs_read_sector E (whole E s) l (stack_junk E) = (None, fview E plat (whole E s) l, (whole E s)\<lparr>disk := d\<rparr>)"
      "fs_ok E plat ((whole E s)\<lparr>disk := d\<rparr>)" "fview E plat ((whole E s)\<lparr>disk := d\<rparr>) = fview E plat (whole E s)"
    by (rule fs_read_ok [OF whole_ok [OF ok], of l]) (use l in simp_all)
  obtain st b d' where r: "bcache_read_sector (devs E) (disk s) (root E) l (Some (stack_junk E)) = (st, b, d')" by (metis prod_cases3)
  have "st = None" "the b = fview E plat (whole E s) l" "d' = d"
    using d(1) r by (auto simp: fs_read_sector_def fs_state.ext_inject dest!: arg_cong [of _ _ disk])
  then have "root_read E s l = (None, view plat (disk s) (root E) l, s\<lparr>disk := d\<rparr>)"
    using r by (simp add: root_read_def fview_whole)
  moreover have "view plat d (root E) = view plat (disk s) (root E)"
    using d(3) by (simp add: fun_eq_iff fview_def)
  ultimately show ?thesis using that d(2) by (simp add: fs_ok_disk_ok)
qed

lemma root_write_ok:
  assumes ok: "disk_ok E plat (disk s)" and l: "l < disk_count E"
  obtains d where "root_write E s l b = (None, s\<lparr>disk := d\<rparr>)" "disk_ok E plat d"
    "view plat d (root E) = (view plat (disk s) (root E))(l := b)"
proof -
  obtain d where d: "fs_write_sector E (whole E s) l b = (None, (whole E s)\<lparr>disk := d\<rparr>)"
      "fs_ok E plat ((whole E s)\<lparr>disk := d\<rparr>)" "fview E plat ((whole E s)\<lparr>disk := d\<rparr>) = (fview E plat (whole E s))(l := b)"
    by (rule fs_write_ok [OF whole_ok [OF ok], of l]) (use l in simp_all)
  obtain st d' where r: "bcache_write_sector (devs E) (ticks E) (disk s) (root E) l (Some b) = (st, d')" by fastforce
  have "st = None" "d' = d"
    using d(1) r by (auto simp: fs_write_sector_def dest!: arg_cong [of _ _ disk])
  then have "root_write E s l b = (None, s\<lparr>disk := d\<rparr>)" using r by (simp add: root_write_def)
  moreover have "view plat d (root E) = (view plat (disk s) (root E))(l := b)"
    using d(3) by (simp add: fun_eq_iff fview_def)
  ultimately show ?thesis using that d(2) by (simp add: fs_ok_disk_ok)
qed

lemma fresh_cache_ok:
  assumes "disk_ok E plat d"
  shows "disk_ok E plat (bcache_init c)" "view plat (bcache_init c) = plat (world c)"
proof -
  have "dirty_ok (devs E) (bcache_init c)" by (auto simp: dirty_ok_def bcache_init_def)
  then show "disk_ok E plat (bcache_init c)" using assms bcache_init_spec [of plat c] by (simp add: disk_ok_def)
  show "view plat (bcache_init c) = plat (world c)" using bcache_init_spec by blast
qed

subsection \<open>Mounting again\<close>

text \<open>The disk says where the partition is and how it is laid out.\<close>

definition boot_synced :: "'w fs_env \<Rightarrow> ('w \<Rightarrow> dev_ptr \<Rightarrow> u32 \<Rightarrow> u8 list) \<Rightarrow> 'w fs_state \<Rightarrow> bool" where
  "boot_synced E plat s \<longleftrightarrow>
     (let mbr = decode_mbr (view plat (disk s) (root E) 0) in
      signature mbr = MBR_SIGNATURE \<and>
      (\<exists>p. find (partition_fits (disk_count E)) (partitions mbr) = Some p \<and> lba_first p = fs_part_start s \<and> part_sectors p = fs_max_sectors s)) \<and>
     FS_PART_START_LBA + FS_DATA_START_SECTOR < disk_count E \<and>
     decode_superblock (fview E plat s 0) = fs_super s \<and> superblock_ok (fs_super s) \<and>
     total_clusters (fs_super s) = fs_total_clusters s \<and> unat (max_entries (fs_super s)) = length (dir_table s) \<and> dir_table s \<noteq> []"

lemma load_partition_finds:
  assumes ok: "disk_ok E plat (disk s)" and b: "signature (decode_mbr (view plat (disk s) (root E) 0)) = MBR_SIGNATURE"
    "find (partition_fits (disk_count E)) (partitions (decode_mbr (view plat (disk s) (root E) 0))) = Some p" and l: "0 < disk_count E"
  obtains d where "load_partition E s (disk_count E) = (Part_found, s\<lparr>disk := d, fs_part_start := lba_first p, fs_max_sectors := part_sectors p\<rparr>)"
    "disk_ok E plat d" "view plat d (root E) = view plat (disk s) (root E)"
proof -
  obtain d where d: "root_read E s 0 = (None, view plat (disk s) (root E) 0, s\<lparr>disk := d\<rparr>)" "disk_ok E plat d"
    "view plat d (root E) = view plat (disk s) (root E)" by (rule root_read_ok [OF ok l])
  then show ?thesis using that [of d] b by (simp add: load_partition_def)
qed

lemma partition_fits_range:
  assumes "partition_fits n p"
  shows "unat (lba_first p) + unat (part_sectors p) \<le> unat n" "200 < unat (part_sectors p)" "0 < unat (lba_first p)"
proof -
  have p: "lba_first p < n" "part_sectors p \<le> n - lba_first p" "200 < part_sectors p" "lba_first p \<noteq> 0"
    using assms by (auto simp: partition_fits_def FS_DATA_START_SECTOR_def)
  have "unat (n - lba_first p) = unat n - unat (lba_first p)" using p(1) by (simp add: unat_sub)
  then show "unat (lba_first p) + unat (part_sectors p) \<le> unat n" using p(1,2) by (simp add: word_less_nat_alt word_le_nat_alt)
  show "200 < unat (part_sectors p)" using p(3) by (simp add: word_less_nat_alt)
  show "0 < unat (lba_first p)" using p(4) by (simp add: unat_gt_0)
qed

lemma wf_table: "dir_ok tab tot \<Longrightarrow> list_all wf_entry tab"
  by (simp add: dir_ok_def list_all_iff)

lemma cdata_super: "fs_super s = fs_super t \<Longrightarrow> cdata s = cdata t"
  by (intro ext) (simp add: cdata_def dsec_def fs_cluster_to_sector_def)

lemma inv_parts:
  assumes "disk_inv E plat s" "dir_synced E plat s" "fat_synced E plat s" "dir_ok (dir_table s) (fs_total_clusters s)"
    and "chains_ok (512 * csecs s) (file_allocation_table s) (dir_table s)"
  shows "fs_inv E plat s"
  using assms by (simp add: fs_inv_def)

lemma tables_loaded:
  assumes inv: "disk_inv E plat s" and sb: "entry_size (fs_super s) = 96" "unat (max_entries (fs_super s)) = length (dir_table s)"
    and wf: "list_all wf_entry (dir_table s)"
    and same: "fs_super o' = fs_super s" "fs_total_clusters o' = fs_total_clusters s" "fview E plat o' = fview E plat s"
      "length (dir_table o') = length (dir_table s)" "length (file_allocation_table o') = length (file_allocation_table s)"
    and o: "dir_ok (dir_table o') (fs_total_clusters o')" "chains_ok (512 * csecs o') (file_allocation_table o') (dir_table o')"
      "dir_synced E plat o'" "fat_synced E plat o'"
  obtains u behind where "load_tables E s = (u, behind)" "fs_mounted u" "fs_inv E plat u" "fs_abs E plat u = fs_abs E plat o'"
    "dir_table u = dir_table o'" "fs_super u = fs_super s" "fs_total_clusters u = fs_total_clusters s" "fs_part_start u = fs_part_start s"
    "fs_max_sectors u = fs_max_sectors s" "length behind = length (heap_after_fat E)" "fs_was_formatted u = fs_was_formatted s"
    "\<And>r. \<not> in_fat s r \<Longrightarrow> fview E plat u r = fview E plat s r"
proof -
  let ?tab = "dir_table o'" and ?fat = "file_allocation_table o'"
  have fsn: "fat_sectors_needed o' = fat_sectors_needed s" using same(2) by (simp add: fat_sectors_needed_def)
  obtain hp where hp: "\<And>i. i < fat_sectors_needed s \<Longrightarrow> fview E plat s (fat_start (fs_super s) + of_nat i) = fat_image ?fat hp i"
    using o(4) same fsn by (auto simp: fat_synced_def)
  have img: "\<And>i. i < dir_sectors_needed ?tab \<Longrightarrow> fview E plat s (dir_start (fs_super s) + of_nat i) = dir_sector ?tab i"
    using o(3) same by (simp add: dir_synced_def)
  have val: "fs_validate_directory_table ?tab (fs_total_clusters s)" using o(1) same(2) by (simp add: validate_iff dir_ok_def)
  obtain d behind where l: "load_tables E s = (save_fat_to_disk (E\<lparr>heap_after_fat := behind\<rparr>)
        (s\<lparr>dir_table := ?tab, disk := d, file_allocation_table := reserve_clusters ?fat, fs_mounted := True\<rparr>), behind)"
      "same_view E plat s (s\<lparr>disk := d\<rparr>)" "length behind = length (heap_after_fat E)"
    using load_tables_reads [OF inv sb wf same(4) wf_table [OF o(1)] img val same(5) hp] by blast
  define v where "v = s\<lparr>dir_table := ?tab, disk := d, file_allocation_table := reserve_clusters ?fat, fs_mounted := True\<rparr>"
  define E' where "E' = E\<lparr>heap_after_fat := behind\<rparr>"
  define u where "u = save_fat_to_disk E' v"
  have sd: "same_devices E' E" using inv l(3) by (simp add: same_devices_def E'_def disk_inv_def)
  note dE = same_devices_inv [OF sd]
  have v: "fs_super v = fs_super s" "fs_total_clusters v = fs_total_clusters s" "fs_part_start v = fs_part_start s" "fs_max_sectors v = fs_max_sectors s"
    "dir_table v = ?tab" "file_allocation_table v = reserve_clusters ?fat" "disk v = d" "fs_mounted v" "fs_was_formatted v = fs_was_formatted s"
    by (simp_all add: v_def)
  have fv: "fview E plat v = fview E plat s" "fview E' plat v = fview E plat s" "fs_ok E' plat v"
    using same_view_fields [OF l(2)] v by (simp_all add: fun_eq_iff fview_def fs_ok_def E'_def)
  have g: "geom_ok v" using inv same(4,5) v reserve_clusters_keeps(1) [of ?fat]
    by (simp add: disk_inv_def geom_ok_def fat_sectors_needed_def dir_sectors_needed_def)
  have di: "disk_inv E' plat v" using inv fv g v l(3) by (simp add: disk_inv_def sectors_full_def E'_def)
  note k = save_fat_keeps [OF di, folded u_def]
  have ds: "dir_synced E' plat v" using o(3) fv(2) v same by (simp add: dir_synced_def)
  have uf: "dir_table u = ?tab" "fs_total_clusters u = fs_total_clusters s" "fs_super u = fs_super s" "file_allocation_table u = reserve_clusters ?fat"
    "fs_mounted u" "fs_max_sectors u = fs_max_sectors s"
    using v by (simp_all add: u_def)
  obtain du where du: "u = v\<lparr>disk := du\<rparr>" using do_writes_frame [of E' "fat_writes E' v" v] by (auto simp: u_def save_fat_writes)
  have uf2: "fs_part_start u = fs_part_start s" "fs_was_formatted u = fs_was_formatted s" using du v by simp_all
  note rc = reserve_chains [OF o(2)]
  have "fs_inv E' plat u" by (rule inv_parts [OF k(1) k(3) [OF ds] k(2)]) (use uf o(1) rc(1) same in simp_all)
  then have fi: "fs_inv E plat u" using dE by simp
  have node: "abs_node u (fview E' plat u) (?tab ! j) = abs_node o' (fview E plat o') (?tab ! j)" if j: "used ?tab j" for j
  proof -
    have good: "good_entry (512 * csecs v) (file_allocation_table v) (?tab ! j)" using rc(1) j v same by (simp add: chains_ok_def)
    have "abs_node u (fview E' plat u) (?tab ! j) = abs_node v (fview E' plat v) (?tab ! j)"
      by (rule abs_node_same [OF k(4) good]) (use uf v g in \<open>simp_all add: geom_ok_def\<close>)
    also have "\<dots> = abs_node o' (fview E plat o') (?tab ! j)"
      using rc(2) [OF j] cdata_super [of v o'] v(1,6) same(1,3) fv(2) by (simp add: abs_node_def entry_bytes_def)
    finally show ?thesis .
  qed
  have "fs_abs E' plat u = fs_abs E plat o'"
  proof (intro ext)
    fix p nm
    show "fs_abs E' plat u p nm = fs_abs E plat o' p nm"
      using uf(1) node find_used1_SomeD [of ?tab nm p] by (cases "find_used1 ?tab nm p") (auto simp: fs_abs_def)
  qed
  then have fa: "fs_abs E plat u = fs_abs E plat o'" using dE by simp
  have "fview E plat u r = fview E plat s r" if "\<not> in_fat s r" for r
  proof -
    have "\<not> in_fat v r" using that v by (simp add: in_fat_def fat_sectors_needed_def)
    from save_fat_spec(3) [OF fv(3) g this] have "fview E' plat u r = fview E plat s r" using fv(2) by (simp add: u_def)
    then show ?thesis by (simp add: fview_def E'_def)
  qed
  moreover have "load_tables E s = (u, behind)" using l(1) by (simp add: u_def v_def E'_def)
  ultimately show ?thesis using that [of u behind] uf uf2 fi fa l(3) by blast
qed

lemma zero_table_wf: "list_all wf_entry (decode_table n (replicate (ENTRY_SIZE * n) 0))"
  by (rule wf_decode_table) simp

lemma tables_alloc_ok:
  assumes "entries \<noteq> 0" "clusters \<noteq> 0" "unat entries \<le> FS_MAX_ENTRIES_CAP" "unat clusters \<le> FS_MAX_CLUSTERS_CAP" "\<forall>n. kmalloc_ok K n"
  shows "fs_tables_alloc K s entries clusters = (None, s\<lparr>dir_table := decode_table (unat entries) (replicate (ENTRY_SIZE * unat entries) 0),
     file_allocation_table := replicate (unat clusters) 0\<rparr>)"
  using assms by (simp add: fs_tables_alloc_def fs_tables_free_def Let_def not_less)

lemma geom_clusters_fit:
  assumes "geom_ok s"
  shows "fs_cluster_to_sector s (fs_total_clusters s) \<le> fs_max_sectors s"
proof -
  let ?d = "unat (data_start (fs_super s))" and ?t = "unat (fs_total_clusters s)"
  have le: "?d + ?t * csecs s \<le> unat (fs_max_sectors s)" using assms by (simp add: geom_ok_def)
  then have "?d + ?t * csecs s < 4294967296" using unat_u32_less [of "fs_max_sectors s"] by linarith
  then have "unat (fs_cluster_to_sector s (fs_total_clusters s)) = ?d + ?t * csecs s"
    by (simp add: fs_cluster_to_sector_def unat_word_ariths)
  then show ?thesis using le by (simp add: word_le_nat_alt)
qed

lemma load_superblock_reads:
  assumes ok: "fs_ok E plat s" and max: "0 < fs_max_sectors s" and sb: "decode_superblock (fview E plat s 0) = b" "superblock_ok b"
    and fit: "\<And>d. fs_cluster_to_sector (s\<lparr>disk := d, fs_super := b\<rparr>) (total_clusters b) \<le> fs_max_sectors s"
  obtains d where "load_superblock E s = (True, s\<lparr>disk := d, fs_super := b, fs_total_clusters := total_clusters b\<rparr>)"
    "same_view E plat s (s\<lparr>disk := d\<rparr>)"
proof -
  obtain s1 where r: "fs_read_sector E s 0 (stack_junk E) = (None, fview E plat s 0, s1)" "same_view E plat s s1"
    by (rule fs_read_same [OF ok max])
  then obtain d where d: "s1 = s\<lparr>disk := d\<rparr>" by (auto simp: same_view_def)
  have "load_superblock E s = (True, s\<lparr>disk := d, fs_super := b, fs_total_clusters := total_clusters b\<rparr>)"
    unfolding load_superblock_def using r(1) sb fit [of d] by (simp add: d not_less Let_def)
  then show ?thesis using that r(2) d by blast
qed

lemma remount:
  assumes inv: "fs_inv E plat s" and boot: "boot_synced E plat s" and mem: "\<forall>n. kmalloc_ok K n"
    and med: "plat (world (disk t)) (root E) = view plat (disk s) (root E)"
  shows "\<exists>u behind. init_fs E K t = Some (u, behind) \<and> fs_mounted u \<and> fs_inv E plat u \<and> fs_abs E plat u = fs_abs E plat s \<and>
    dir_table u = dir_table s \<and> length behind = length (heap_after_fat E) \<and> fs_super u = fs_super s \<and>
    fs_part_start u = fs_part_start s \<and> fs_max_sectors u = fs_max_sectors s \<and> fs_total_clusters u = fs_total_clusters s \<and>
    (\<forall>r. \<not> in_fat s r \<longrightarrow> fview E plat u r = fview E plat s r)"
proof -
  note b = boot [unfolded boot_synced_def Let_def]
  have dk: "disk_ok E plat (disk s)" and part: "unat (fs_part_start s) + unat (fs_max_sectors s) \<le> unat (disk_count E)"
    and g: "geom_ok s" and full: "sectors_full s (fview E plat s)" and hp: "512 \<le> length (heap_after_fat E)"
    using fs_invD(1,2) [OF inv] by (simp_all add: disk_inv_def fs_ok_disk_ok)
  define t0 where "t0 = fs_tables_free (t\<lparr>disk := bcache_init (disk t), fs_mounted := False, fs_part_start := 0, fs_total_clusters := 0\<rparr>)"
  have t0: "disk_ok E plat (disk t0)" "view plat (disk t0) (root E) = view plat (disk s) (root E)"
    using fresh_cache_ok [OF dk] med by (simp_all add: t0_def fs_tables_free_def)
  obtain p where p: "find (partition_fits (disk_count E)) (partitions (decode_mbr (view plat (disk s) (root E) 0))) = Some p"
    "lba_first p = fs_part_start s" "part_sectors p = fs_max_sectors s" "signature (decode_mbr (view plat (disk s) (root E) 0)) = MBR_SIGNATURE"
    using b by blast
  have big: "\<not> disk_count E \<le> FS_PART_START_LBA + FS_DATA_START_SECTOR" using b by (simp add: not_le)
  have pos: "0 < disk_count E" using big by (auto simp: FS_PART_START_LBA_def FS_DATA_START_SECTOR_def word_le_nat_alt word_less_nat_alt)
  obtain d1 where d1: "load_partition E t0 (disk_count E) = (Part_found, t0\<lparr>disk := d1, fs_part_start := fs_part_start s, fs_max_sectors := fs_max_sectors s\<rparr>)"
    "disk_ok E plat d1" "view plat d1 (root E) = view plat (disk s) (root E)"
    by (rule load_partition_finds [OF t0(1), unfolded t0(2), OF p(4) p(1) pos]) (simp add: p(2,3))
  define s1 where "s1 = t0\<lparr>disk := d1, fs_part_start := fs_part_start s, fs_max_sectors := fs_max_sectors s, fs_total_clusters := clusters_that_fit (fs_max_sectors s)\<rparr>"
  have s1: "fs_ok E plat s1" "fview E plat s1 = fview E plat s"
    using d1(2,3) part by (simp_all add: fs_ok_disk_ok s1_def fun_eq_iff fview_def)
  have "partition_fits (disk_count E) p" using p(1) by (auto simp: find_Some_iff)
  then have max: "0 < fs_max_sectors s" using partition_fits_range(2) p(3) by (fastforce simp: word_less_nat_alt)
  have sbk: "superblock_ok (fs_super s)" "total_clusters (fs_super s) = fs_total_clusters s" using b by simp_all
  have fit: "fs_cluster_to_sector (s1\<lparr>disk := d, fs_super := fs_super s\<rparr>) (total_clusters (fs_super s)) \<le> fs_max_sectors s1" for d
    using geom_clusters_fit [OF g] sbk(2) by (simp add: fs_cluster_to_sector_def s1_def)
  obtain d2 where d2: "load_superblock E s1 = (True, s1\<lparr>disk := d2, fs_super := fs_super s, fs_total_clusters := fs_total_clusters s\<rparr>)"
    "same_view E plat s1 (s1\<lparr>disk := d2\<rparr>)"
  proof (rule load_superblock_reads [OF s1(1) _ _ sbk(1) fit])
    show "0 < fs_max_sectors s1" using max by (simp add: s1_def)
    show "decode_superblock (fview E plat s1 0) = fs_super s" using b s1(2) by simp
  qed (simp add: sbk(2))
  let ?n = "length (dir_table s)" and ?c = "unat (fs_total_clusters s)"
  define s3 where "s3 = s1\<lparr>disk := d2, fs_super := fs_super s, fs_total_clusters := fs_total_clusters s,
      dir_table := decode_table ?n (replicate (ENTRY_SIZE * ?n) 0), file_allocation_table := replicate ?c 0\<rparr>"
  have me: "unat (max_entries (fs_super s)) = ?n" "max_entries (fs_super s) \<noteq> 0" using b by (auto simp: word_unat_eq_iff)
  have caps: "unat (max_entries (fs_super s)) \<le> FS_MAX_ENTRIES_CAP" "total_clusters (fs_super s) \<noteq> 0" "?c \<le> FS_MAX_CLUSTERS_CAP" "entry_size (fs_super s) = 96"
    using sbk by (simp_all add: superblock_ok_def)
  have al: "fs_tables_alloc K (s1\<lparr>disk := d2, fs_super := fs_super s, fs_total_clusters := fs_total_clusters s\<rparr>) (max_entries (fs_super s)) (fs_total_clusters s) = (None, s3)"
    by (subst tables_alloc_ok) (use me caps sbk(2) mem in \<open>simp_all add: s3_def\<close>)
  have s3: "fs_super s3 = fs_super s" "fs_total_clusters s3 = fs_total_clusters s" "length (dir_table s3) = ?n" "length (file_allocation_table s3) = ?c"
    "fs_part_start s3 = fs_part_start s" "fs_max_sectors s3 = fs_max_sectors s"
    by (simp_all add: s3_def s1_def)
  have v3: "fview E plat s3 = fview E plat s" "fs_ok E plat s3"
    using same_view_fields [OF d2(2)] s1(2) by (simp_all add: s3_def fun_eq_iff fview_def fs_ok_def)
  have lf: "length (file_allocation_table s) = ?c" using g by (simp add: geom_ok_def)
  have g3: "geom_ok s3" using g s3 lf by (simp add: geom_ok_def fat_sectors_needed_def dir_sectors_needed_def)
  have di: "disk_inv E plat s3" using v3 g3 full hp s3(6) by (simp add: disk_inv_def sectors_full_def)
  obtain u behind where u: "load_tables E s3 = (u, behind)" "fs_mounted u" "fs_inv E plat u" "fs_abs E plat u = fs_abs E plat s"
    "dir_table u = dir_table s" "length behind = length (heap_after_fat E)" "fs_super u = fs_super s3" "fs_part_start u = fs_part_start s3"
    "fs_max_sectors u = fs_max_sectors s3" "fs_total_clusters u = fs_total_clusters s3" "\<And>r. \<not> in_fat s3 r \<Longrightarrow> fview E plat u r = fview E plat s3 r"
    by (rule tables_loaded [OF di, of s])
      (use inv caps me s3 v3 lf zero_table_wf in \<open>simp_all add: fs_inv_def s3_def\<close>)
  have "init_fs E K t = Some (load_tables E s3)"
    using big d1(1) d2(1) al dk unfolding init_fs_def Let_def t0_def [symmetric]
    by (simp add: disk_ok_def s1_def sbk(2))
  moreover have "in_fat s3 r = in_fat s r" for r using s3 by (simp add: in_fat_def fat_sectors_needed_def)
  ultimately show ?thesis using u s3 v3(1) by simp
qed

end
