(* ===== verification/Reboot.thy ===== *)
theory Reboot
  imports Mount
begin

text \<open>
  What survives a reboot.  No operation on files touches the partition table or the superblock, so after
  the cache has been flushed the next \<^verbatim>\<open>init_fs\<close> finds the same files; a blank disk is formatted into an
  empty file system; and a disk that is not recognised is not written to.
\<close>

subsection \<open>Operations stay inside the partition\<close>

definition boot_same :: "'w fs_env \<Rightarrow> ('w \<Rightarrow> dev_ptr \<Rightarrow> u32 \<Rightarrow> u8 list) \<Rightarrow> 'w fs_state \<Rightarrow> 'w fs_state \<Rightarrow> bool" where
  "boot_same E plat s s' \<longleftrightarrow> fs_ok E plat s' \<and> geom_ok s' \<and> fs_super s' = fs_super s \<and> fs_part_start s' = fs_part_start s \<and>
     fs_max_sectors s' = fs_max_sectors s \<and> fs_total_clusters s' = fs_total_clusters s \<and>
     length (dir_table s') = length (dir_table s) \<and>
     (\<forall>r. r < dir_start (fs_super s) \<or> fs_max_sectors s \<le> r \<longrightarrow> fview E plat s' r = fview E plat s r)"

lemma boot_same_refl: "fs_ok E plat s \<Longrightarrow> geom_ok s \<Longrightarrow> boot_same E plat s s"
  by (simp add: boot_same_def)

lemma boot_same_trans: "boot_same E plat s t \<Longrightarrow> boot_same E plat t u \<Longrightarrow> boot_same E plat s u"
  by (simp add: boot_same_def)

lemma boot_same_ok: "boot_same E plat s t \<Longrightarrow> fs_ok E plat t \<and> geom_ok t"
  by (simp add: boot_same_def)

lemma boot_same_view:
  assumes v: "same_view E plat s t" and g: "geom_ok s"
  shows "boot_same E plat s t"
proof -
  obtain d where "t = s\<lparr>disk := d\<rparr>" using v unfolding same_view_def by blast
  then have "fs_part_start t = fs_part_start s" by simp
  then show ?thesis using same_view_fields [OF v] g by (simp add: boot_same_def)
qed

lemma part_start_save [simp]:
  "fs_part_start (save_fat_to_disk E s) = fs_part_start s" "fs_part_start (save_directory_to_disk E s) = fs_part_start s"
  by (simp_all add: save_fat_writes save_dir_writes)

lemma boot_same_save_fat:
  assumes "fs_ok E plat s" "geom_ok s"
  shows "boot_same E plat s (save_fat_to_disk E s)"
proof -
  have "\<not> in_fat s r" if "r < dir_start (fs_super s) \<or> fs_max_sectors s \<le> r" for r
    using that assms(2) by (auto simp: in_fat_def geom_ok_def word_less_nat_alt word_le_nat_alt)
  then show ?thesis using save_fat_spec(1,3) [OF assms] assms by (simp add: boot_same_def)
qed

lemma boot_same_save_dir:
  assumes "fs_ok E plat s" "geom_ok s"
  shows "boot_same E plat s (save_directory_to_disk E s)"
proof -
  have "\<not> in_dir s r" if "r < dir_start (fs_super s) \<or> fs_max_sectors s \<le> r" for r
    using that assms(2) by (auto simp: in_dir_def geom_ok_def word_less_nat_alt word_le_nat_alt)
  then show ?thesis using save_dir_spec(1,3) [OF assms] assms by (simp add: boot_same_def)
qed

lemma boot_same_dir:
  assumes "fs_ok E plat s" "geom_ok s"
  shows "boot_same E plat s (save_directory_to_disk E (s\<lparr>dir_table := (dir_table s)[i := e]\<rparr>))"
proof -
  let ?t = "s\<lparr>dir_table := (dir_table s)[i := e]\<rparr>"
  have t: "fs_ok E plat ?t" "geom_ok ?t" using assms by (simp_all add: geom_ok_tables)
  then have "boot_same E plat s ?t" by (simp add: boot_same_def)
  then show ?thesis using boot_same_save_dir [OF t] by (rule boot_same_trans)
qed

lemma boot_same_fat:
  assumes "fs_ok E plat s" "geom_ok s" "length fat = length (file_allocation_table s)"
  shows "boot_same E plat s (s\<lparr>file_allocation_table := fat\<rparr>)"
    "boot_same E plat s (save_fat_to_disk E (s\<lparr>file_allocation_table := fat\<rparr>))"
proof -
  let ?t = "s\<lparr>file_allocation_table := fat\<rparr>"
  have t: "fs_ok E plat ?t" "geom_ok ?t" using assms by (simp_all add: geom_ok_tables)
  then show st: "boot_same E plat s ?t" by (simp add: boot_same_def)
  show "boot_same E plat s (save_fat_to_disk E ?t)" using st boot_same_save_fat [OF t] by (rule boot_same_trans)
qed

lemma boot_same_sector:
  assumes ok: "fs_ok E plat s" "geom_ok s" and r: "r < fs_max_sectors s" "dir_start (fs_super s) \<le> r"
  shows "boot_same E plat s (snd (fs_write_sector E s r b))"
proof -
  obtain d where d: "fs_write_sector E s r b = (None, s\<lparr>disk := d\<rparr>)" "fs_ok E plat (s\<lparr>disk := d\<rparr>)"
    "fview E plat (s\<lparr>disk := d\<rparr>) = (fview E plat s)(r := b)" by (rule fs_write_ok [OF ok(1) r(1)])
  then show ?thesis using ok(2) r by (auto simp: boot_same_def)
qed

lemma data_after_dir:
  assumes "geom_ok s" "c < fs_total_clusters s" "k < csecs s"
  shows "dir_start (fs_super s) \<le> fs_cluster_to_sector s c + of_nat k" "fs_cluster_to_sector s c + of_nat k < fs_max_sectors s"
  using dsec_unat [OF assms] dsec_less [OF assms] assms(1)
  by (simp_all add: dsec_def geom_ok_def word_le_nat_alt)

lemma boot_same_cluster:
  assumes "geom_ok s" "c < fs_total_clusters s" "boot_same E plat s t" "\<forall>k \<in> set ks. k < csecs s"
  shows "boot_same E plat s (snd (write_cluster E (fs_cluster_to_sector s c) content ks bw t))"
  using assms(3,4)
proof (induction ks arbitrary: bw t)
  case (Cons k ks)
  have "boot_same E plat t (snd (fs_write_sector E t (fs_cluster_to_sector s c + of_nat k) (sector_chunk content bw)))"
    using Cons.prems data_after_dir [OF assms(1,2), of k] by (intro boot_same_sector) (auto simp: boot_same_def)
  with Cons.prems(1) have "boot_same E plat s (snd (fs_write_sector E t (fs_cluster_to_sector s c + of_nat k) (sector_chunk content bw)))"
    by (rule boot_same_trans)
  then show ?case using Cons by simp
qed simp

lemma boot_same_clusters:
  assumes "fs_ok E plat s" "geom_ok s"
  shows "boot_same E plat s (write_clusters E content n c bw s)"
  using assms
proof (induction n arbitrary: c bw s)
  case 0
  then show ?case by (simp add: boot_same_refl)
next
  case (Suc n)
  show ?case
  proof (cases "c = FAT_EOF \<or> fs_total_clusters s \<le> c")
    case True
    then show ?thesis using Suc.prems by (auto intro: boot_same_refl)
  next
    case False
    obtain bw' t where w: "write_cluster E (fs_cluster_to_sector s c) content [0..<csecs s] bw s = (bw', t)" by fastforce
    have "boot_same E plat s t"
      using boot_same_cluster [OF Suc.prems(2) _ boot_same_refl [OF Suc.prems], of c "[0..<csecs s]" content bw] False w by (simp add: not_le)
    moreover have "boot_same E plat t (write_clusters E content n (file_allocation_table t ! unat c) bw' t)"
      using Suc.IH boot_same_ok [OF calculation] by blast
    ultimately show ?thesis using False w by (simp add: boot_same_trans)
  qed
qed

lemma allocate_length:
  assumes "geom_ok s" "allocate_fat_chain (file_allocation_table s) (fs_total_clusters s) want = Some (c, fat)"
  shows "length fat = length (file_allocation_table s)"
proof -
  have len: "length (file_allocation_table s) = unat (fs_total_clusters s)" "unat (fs_total_clusters s) \<le> FS_MAX_CLUSTERS_CAP"
    using assms(1) by (simp_all add: geom_ok_def)
  show ?thesis
    using assms(2) allocate_fat_chain_spec [OF len, of want] by (cases "want = 0") (auto simp: allocate_fat_chain_def split: if_splits)
qed

lemma boot_same_create:
  assumes ok: "fs_ok E plat s" "geom_ok s" and op: "fs_create_file_raw E s nm content sz p = Some (st, s')"
  shows "boot_same E plat s s'"
proof (cases "s' = s")
  case True
  then show ?thesis using boot_same_refl [OF ok] by simp
next
  case False
  define need where "need = (if sz = 0 then 1 else (sz + cluster_bytes s - 1) div cluster_bytes s)"
  obtain i c s1 where a: "fs_allocate E s need = Some (c, s1)"
    "s' = s1 \<or> (\<exists>e. s' = (let s2 = write_clusters E (take (unat sz) content) (unat need) c 0 s1
        in save_directory_to_disk E (s2\<lparr>dir_table := (dir_table s2)[i := e]\<rparr>)))"
    using op False unfolding fs_create_file_raw_def Let_def need_def [symmetric]
    by (auto split: if_splits option.splits prod.splits)
  obtain fat where f: "allocate_fat_chain (file_allocation_table s) (fs_total_clusters s) need = Some (c, fat)"
    "s1 = s\<lparr>file_allocation_table := fat\<rparr> \<or> s1 = save_fat_to_disk E (s\<lparr>file_allocation_table := fat\<rparr>)"
    using a(1) by (auto simp: fs_allocate_def Let_def split: option.splits if_splits)
  have s1: "boot_same E plat s s1"
    using f(2) boot_same_fat [OF ok allocate_length [OF ok(2) f(1)]] by auto
  let ?s2 = "write_clusters E (take (unat sz) content) (unat need) c 0 s1"
  have s2: "boot_same E plat s ?s2" using s1 boot_same_clusters boot_same_ok [OF s1] boot_same_trans by blast
  have "boot_same E plat s (save_directory_to_disk E (?s2\<lparr>dir_table := (dir_table ?s2)[i := e]\<rparr>))" for e
    using s2 boot_same_dir boot_same_ok [OF s2] boot_same_trans by blast
  then show ?thesis using a(2) s1 by (auto simp: Let_def)
qed
lemma length_free_chain: "length (free_chain fat tot c) = length fat"
proof (induction fat tot c rule: free_chain.induct)
  case (1 fat tot c)
  then show ?case by (subst free_chain.simps) auto
qed

lemma boot_same_delete:
  assumes ok: "fs_ok E plat s" "geom_ok s" and op: "fs_delete E s nm p = (st, s')"
  shows "boot_same E plat s s'"
proof (cases "s' = s")
  case True
  then show ?thesis using boot_same_refl [OF ok] by simp
next
  case False
  let ?s1 = "\<lambda>i. save_fat_to_disk E (s\<lparr>file_allocation_table := free_chain (file_allocation_table s) (fs_total_clusters s) (start_cluster (dir_table s ! i))\<rparr>)"
  obtain i e where "s' = save_directory_to_disk E ((?s1 i)\<lparr>dir_table := (dir_table (?s1 i))[i := e]\<rparr>)"
    using op False by (auto simp: fs_delete_def Let_def split: if_splits option.splits)
  moreover have s1: "boot_same E plat s (?s1 i)" by (rule boot_same_fat(2) [OF ok length_free_chain])
  ultimately show ?thesis using boot_same_dir boot_same_ok [OF s1] boot_same_trans by blast
qed

lemma boot_same_tables:
  assumes ok: "fs_ok E plat s" "geom_ok s"
  shows "fs_mkdir E s nm p = (st, s') \<Longrightarrow> boot_same E plat s s'" "fs_rename E s a b p = (st, s') \<Longrightarrow> boot_same E plat s s'"
    "fs_chmod E s x m = (st, s') \<Longrightarrow> boot_same E plat s s'" "fs_chown E s x u g = (st, s') \<Longrightarrow> boot_same E plat s s'"
  using boot_same_refl [OF ok] boot_same_dir [OF ok]
  by (auto simp: fs_mkdir_def fs_rename_def fs_chmod_def fs_chown_def simp del: save_fields split: if_splits option.splits)

lemma boot_same_read:
  assumes inv: "fs_inv E plat s" and op: "fs_step E s (Op_read nm sz p) = Some (r, s')"
  shows "boot_same E plat s s'"
proof -
  note d = fs_invD [OF inv]
  have ok: "fs_ok E plat s" using d(1) by (simp add: disk_inv_def)
  show ?thesis
  proof (cases "fs_mounted s \<and> find_used1 (dir_table s) nm p \<noteq> None")
    case False
    then have "\<exists>x. fs_open s nm p = Inl x" by (auto simp: fs_open_def)
    then have "s' = s" using op by auto
    then show ?thesis using boot_same_refl [OF ok d(2)] by simp
  next
    case True
    then obtain i where i: "find_used1 (dir_table s) nm p = Some i" by blast
    obtain f where f: "fs_open s nm p = Inr f" "handle_on s i f" "current_offset f = 0"
      using True open_spec [of s nm p] i find_used1_SomeD [OF i] by (auto simp: handle_on_def)
    have "unat (current_offset f) + unat sz < 4294967296" using f(3) unat_u32_less [of sz] by simp
    from read_handle [OF inv f(2) this] op f(1) have "same_view E plat s s'" by auto
    then show ?thesis using boot_same_view d(2) by blast
  qed
qed

lemma boot_same_step:
  assumes inv: "fs_inv E plat s" and op: "fs_step E s op = Some (r, s')"
  shows "boot_same E plat s s'"
proof -
  have ok: "fs_ok E plat s" "geom_ok s" using fs_invD(1,2) [OF inv] by (simp_all add: disk_inv_def)
  show ?thesis
  proof (cases op)
    case (Op_create nm content sz p)
    then show ?thesis using op boot_same_create [OF ok] by auto
  next
    case (Op_read nm sz p)
    then show ?thesis using op boot_same_read [OF inv] by blast
  qed (use op boot_same_delete [OF ok] boot_same_tables [OF ok] in \<open>auto split: prod.splits\<close>)
qed

lemma boot_synced_same:
  assumes boot: "boot_synced E plat s" and same: "boot_same E plat s s'" and part: "unat (fs_part_start s) + unat (fs_max_sectors s) \<le> unat (disk_count E)"
  shows "boot_synced E plat s'"
proof -
  note b = boot [unfolded boot_synced_def Let_def] and f = same [unfolded boot_same_def]
  obtain p where "partition_fits (disk_count E) p" "lba_first p = fs_part_start s"
    using b by (auto simp: find_Some_iff)
  then have pos: "0 < unat (fs_part_start s)" using partition_fits_range(3) by fastforce
  have "unat (- fs_part_start s) = 4294967296 - unat (fs_part_start s)" using pos unat_sub_if' [of 0 "fs_part_start s"] by simp
  then have "fs_max_sectors s \<le> - fs_part_start s" using part unat_u32_less [of "disk_count E"] by (simp add: word_le_nat_alt)
  then have "fview E plat s' (- fs_part_start s) = fview E plat s (- fs_part_start s)" using f by blast
  then have "view plat (disk s') (root E) 0 = view plat (disk s) (root E) 0" using f by (simp add: fview_def)
  moreover have "dir_start (fs_super s) \<noteq> 0" using b by (simp add: superblock_ok_def)
  then have "fview E plat s' 0 = fview E plat s 0" using f by (simp add: word_neq_0_conv)
  moreover have "dir_table s' \<noteq> []" using b f by auto
  ultimately show ?thesis using b f by (simp add: boot_synced_def Let_def)
qed

lemma run_boot_synced:
  assumes "fs_inv E plat s" "boot_synced E plat s" "\<forall>(e, op) \<in> set ops. same_devices E e \<and> op_ok op" "run_ops fs_step ops s = Some (rs, s')"
  shows "boot_synced E plat s'"
  using assms
proof (induction ops arbitrary: s rs)
  case (Cons x ops)
  obtain e op where x: "x = (e, op)" by fastforce
  have sd: "same_devices E e" "op_ok op" using Cons.prems(3) x by auto
  note dE = same_devices_inv [OF sd(1)]
  obtain r s1 where s1: "fs_step e s op = Some (r, s1)" "fs_inv E plat s1"
    using fs_step_refines [of e plat s op] Cons.prems(1) sd(2) dE by auto
  obtain rs' where rest: "run_ops fs_step ops s1 = Some (rs', s')" using Cons.prems(4) s1(1) x by auto
  have bs: "boot_same E plat s s1 = boot_same e plat s s1" "fs_ok E plat s"
    using sd(1) fs_invD(1) [OF Cons.prems(1)] by (simp_all add: boot_same_def fs_ok_def fview_def same_devices_def disk_inv_def)
  have "boot_same E plat s s1" using boot_same_step [OF _ s1(1), of plat] Cons.prems(1) dE bs(1) by simp
  from boot_synced_same [OF Cons.prems(2) this] bs(2) have "boot_synced E plat s1" by (simp add: fs_ok_disk_ok)
  then show ?case using Cons.IH [OF s1(2)] Cons.prems(3) rest by auto
qed simp

subsection \<open>The layout of a new file system\<close>

lemma dir_sectors_for_nat: "unat e \<le> 8192 \<Longrightarrow> unat (dir_sectors_for e) = (unat e * 96 + 511) div 512"
  by (simp add: dir_sectors_for_def unat_word_ariths unat_div)

lemma more_entries_ends:
  assumes "512 \<le> unat e" "unat e \<le> 8192" "unat e = 512 \<or> unat (dir_sectors_for e) * 20 \<le> unat m"
  shows "\<exists>e'. more_entries m e = Some e' \<and> 512 \<le> unat e' \<and> unat e' \<le> 8192 \<and>
    (unat e' = 512 \<or> unat (dir_sectors_for e') * 20 \<le> unat m)"
  using assms
proof (induction "8192 - unat e" arbitrary: e rule: less_induct)
  case less
  show ?case
  proof (cases "e * 2 \<le> 8192 \<and> dir_sectors_for (e * 2) * 20 \<le> m")
    case True
    have e2: "unat (e * 2) = unat e * 2" using less.prems(2) by (simp add: unat_word_ariths)
    have le: "unat (e * 2) \<le> 8192" using True by (simp add: word_le_nat_alt)
    then have "(unat (e * 2) * 96 + 511) div 512 \<le> 1537" by linarith
    then have "unat (dir_sectors_for (e * 2) * 20) = unat (dir_sectors_for (e * 2)) * 20"
      using dir_sectors_for_nat [OF le] by (simp add: unat_word_ariths)
    then have d: "unat (dir_sectors_for (e * 2)) * 20 \<le> unat m" using True by (simp add: word_le_nat_alt)
    have "more_entries m e = more_entries m (e * 2)" using True by (subst more_entries.simps) simp
    then show ?thesis using less.hyps [of "e * 2"] e2 le d less.prems(1) by auto
  next
    case False
    then have "more_entries m e = Some e" by (subst more_entries.simps) auto
    then show ?thesis using less.prems by blast
  qed
qed

lemma fit_pass_nat:
  assumes c: "unat c \<le> 262144" and F: "unat F \<le> 3000" and f: "fit_pass m F c = (c', ds)"
  shows "unat ds = unat F + (4 * unat c + 511) div 512" "unat c' \<le> unat c"
    "unat ds + 24 \<le> unat m \<Longrightarrow> 3 \<le> unat c \<Longrightarrow> 3 \<le> unat c' \<and> unat ds + unat c' * 8 \<le> unat m"
proof -
  have "(4 * unat c + 511) div 512 \<le> 2049" using c by linarith
  moreover have fs: "unat ((c * 4 + 511) div 512) = (4 * unat c + 511) div 512"
    using c by (simp add: unat_div unat_word_ariths mult.commute)
  ultimately have "unat (F + (c * 4 + 511) div 512) = unat F + (4 * unat c + 511) div 512" using F by (simp add: unat_word_ariths)
  moreover have ds: "ds = F + (c * 4 + 511) div 512" using f by (auto simp: fit_pass_def Let_def)
  ultimately show u: "unat ds = unat F + (4 * unat c + 511) div 512" by simp
  show "unat c' \<le> unat c" using f by (auto simp: fit_pass_def Let_def word_less_nat_alt split: if_splits)
  assume room: "unat ds + 24 \<le> unat m" and c3: "3 \<le> unat c"
  have lt: "ds < m" using room by (simp add: word_less_nat_alt)
  then have fit: "unat ((m - ds) div 8) = (unat m - unat ds) div 8" by (simp add: unat_div unat_sub)
  have "c' = (if (m - ds) div 8 < c then (m - ds) div 8 else c)" using f lt by (auto simp: fit_pass_def Let_def ds FS_CLUSTER_SECTORS_def)
  then have "unat c' = min (unat c) ((unat m - unat ds) div 8)" using fit by (auto simp: word_less_nat_alt)
  then show "3 \<le> unat c' \<and> unat ds + unat c' * 8 \<le> unat m" using room c3 by auto
qed

lemma clusters_that_fit_nat:
  assumes "224 \<le> unat m"
  shows "3 \<le> unat (clusters_that_fit m)" "8 * unat (clusters_that_fit m) + 200 \<le> unat m" "unat (clusters_that_fit m) \<le> 262144"
proof -
  have lt: "200 < m" using assms by (simp add: word_less_nat_alt)
  then have n: "unat ((m - 200) div 8) = (unat m - 200) div 8" by (simp add: unat_div unat_sub word_less_nat_alt word_le_nat_alt)
  have "unat (clusters_that_fit m) = min 262144 ((unat m - 200) div 8)"
    using lt n by (auto simp: clusters_that_fit_def Let_def FS_DATA_START_SECTOR_def FS_CLUSTER_SECTORS_def FS_MAX_CLUSTERS_CAP_def)
  then show "3 \<le> unat (clusters_that_fit m)" "8 * unat (clusters_that_fit m) + 200 \<le> unat m" "unat (clusters_that_fit m) \<le> 262144"
    using assms by auto
qed

lemma format_geometry:
  assumes m: "224 \<le> unat m"
  obtains e c1 c2 ds where "entries_for_partition m = Some e" "512 \<le> unat e" "unat e \<le> 8192"
    "fst (fit_pass m (1 + dir_sectors_for e) (clusters_that_fit m)) = c1" "fit_pass m (1 + dir_sectors_for e) c1 = (c2, ds)"
    "3 \<le> unat c2" "unat c2 \<le> 262144" "unat (1 + dir_sectors_for e) + (4 * unat c2 + 511) div 512 \<le> unat ds"
    "unat (1 + dir_sectors_for e) = 1 + (unat e * 96 + 511) div 512" "unat ds + unat c2 * 8 \<le> unat m"
proof -
  let ?c = "clusters_that_fit m"
  note c = clusters_that_fit_nat [OF m]
  obtain e where e: "entries_for_partition m = Some e" "512 \<le> unat e" "unat e \<le> 8192" "unat e = 512 \<or> unat (dir_sectors_for e) * 20 \<le> unat m"
    using more_entries_ends [of 512 m] by (auto simp: entries_for_partition_def)
  have dn: "unat (dir_sectors_for e) = (unat e * 96 + 511) div 512" by (rule dir_sectors_for_nat [OF e(3)])
  then have small: "unat (dir_sectors_for e) \<le> 1537" using e(3) by linarith
  then have F: "unat (1 + dir_sectors_for e) = 1 + (unat e * 96 + 511) div 512" "unat (1 + dir_sectors_for e) \<le> 3000"
    using dn by (simp_all add: unat_word_ariths)
  have share: "unat (1 + dir_sectors_for e) \<le> 97 \<or> 20 * (unat (1 + dir_sectors_for e) - 1) \<le> unat m"
    using e(4) dn F(1) by auto
  have room: "unat (1 + dir_sectors_for e) + (4 * k + 511) div 512 + 24 \<le> unat m" if "k \<le> unat ?c" for k
  proof -
    have "(4 * k + 511) div 512 \<le> unat ?c + 1" using that by linarith
    then show ?thesis using share c(2) m by linarith
  qed
  obtain c1 d1 where p1: "fit_pass m (1 + dir_sectors_for e) ?c = (c1, d1)" by fastforce
  note f1 = fit_pass_nat [OF c(3) F(2) p1]
  have c1: "3 \<le> unat c1" "unat c1 \<le> unat ?c" using f1 room [of "unat ?c"] c(1) by auto
  obtain c2 ds where p2: "fit_pass m (1 + dir_sectors_for e) c1 = (c2, ds)" by fastforce
  have c1': "unat c1 \<le> 262144" using c1(2) c(3) by simp
  note f2 = fit_pass_nat [OF c1' F(2) p2]
  have c2: "3 \<le> unat c2" "unat ds + unat c2 * 8 \<le> unat m" using f2 room [OF c1(2)] c1(1) by auto
  have "(4 * unat c2 + 511) div 512 \<le> (4 * unat c1 + 511) div 512" using f2(2) by (intro div_le_mono) simp
  then have "unat (1 + dir_sectors_for e) + (4 * unat c2 + 511) div 512 \<le> unat ds" using f2(1) by simp
  then show ?thesis using that [of e c1 c2 ds] e p1 p2 c2 F(1) f2(2) c1' by simp
qed

subsection \<open>Flushing a disk that obeys\<close>

lemma flush_slot_healthy:
  assumes "healthy dv" "dirty_ok dv s" "i < BCACHE_SIZE" "flush_slot dv i (False, s) = (f, t)"
  shows "\<not> f"
proof -
  let ?n = "cache s ! i"
  have "fst (write_slot dv i s) = None" if "is_dirty ?n"
    using healthy_write [OF assms(1), of "dev ?n" "sector ?n" "Some (data ?n)" "world s"] assms(2,3) that
    by (simp add: write_slot_def dirty_ok_def case_prod_beta)
  then show ?thesis using assms(4) by (auto simp: flush_slot_def split: if_splits prod.splits)
qed

lemma flush_slot_fewer:
  assumes "length (cache s) = BCACHE_SIZE" "flush_slot dv i (f, s) = (f', t)"
  shows "fewer_dirty s t" "length (cache t) = BCACHE_SIZE"
proof -
  show "fewer_dirty s t" using fold_flush_fewer [OF assms(1), of dv "[i]" f f' t] assms(2) by simp
  show "length (cache t) = BCACHE_SIZE"
    using assms by (auto simp: flush_slot_def dest: write_slot_cache split: if_splits prod.splits)
qed

lemma fold_flush_healthy:
  assumes "healthy dv" "dirty_ok dv s" "length (cache s) = BCACHE_SIZE" "\<forall>i \<in> set xs. i < BCACHE_SIZE"
  shows "\<not> fst (fold (flush_slot dv) xs (False, s))"
  using assms
proof (induction xs arbitrary: s)
  case (Cons i xs)
  obtain f t where st: "flush_slot dv i (False, s) = (f, t)" by fastforce
  have "\<not> f" using flush_slot_healthy [OF Cons.prems(1,2) _ st] Cons.prems(4) by simp
  then show ?case
    using Cons.IH [of t] Cons.prems flush_slot_fewer [OF Cons.prems(3) st] fewer_dirty_ok [OF Cons.prems(2)] st by simp
qed simp

lemma cache_flush_ok:
  assumes ok: "disk_ok E plat (disk s)"
  obtains d where "cache_flush E s = s\<lparr>disk := d\<rparr>" "disk_ok E plat d" "view plat d = view plat (disk s)" "plat (world d) = view plat (disk s)"
proof -
  let ?d = "snd (bcache_flush_reporting (devs E) (disk s))"
  have inv: "bcache_inv plat (disk s)" "driver_ok (devs E) plat" using ok by (simp_all add: disk_ok_def)
  have len: "length (cache (disk s)) = BCACHE_SIZE" using bcache_invD(1) [OF inv(1)] .
  obtain st where r: "bcache_flush_reporting (devs E) (disk s) = (st, ?d)" by (metis prod.collapse)
  note f = bcache_flush_spec [OF inv r]
  have "\<not> fst (fold (flush_slot (devs E)) [0..<BCACHE_SIZE] (False, disk s))"
    by (rule fold_flush_healthy) (use ok len in \<open>simp_all add: disk_ok_def\<close>)
  then have "st = None" using r by (auto simp: bcache_flush_reporting_def split: prod.splits if_splits)
  then have "plat (world ?d) = view plat (disk s)" using f no_dirty_platter by metis
  moreover have "disk_ok E plat ?d" using ok f fewer_dirty_ok flush_fewer [OF len] by (fastforce simp: disk_ok_def)
  ultimately show ?thesis using that [of ?d] f by (simp add: cache_flush_def bcache_flush_def)
qed

subsection \<open>Formatting a blank disk\<close>

lemma blank_scan_blank:
  assumes "disk_ok E plat (disk s)" "\<forall>l \<in> set ls. l < disk_count E \<and> view plat (disk s) (root E) l = zero_sector"
  shows "\<exists>d. blank_scan E ls s = (Inr True, s\<lparr>disk := d\<rparr>) \<and> disk_ok E plat d \<and> view plat d (root E) = view plat (disk s) (root E)"
  using assms
proof (induction ls arbitrary: s)
  case Nil
  then show ?case by (intro exI [of _ "disk s"]) simp
next
  case (Cons l ls)
  obtain d where d: "root_read E s l = (None, view plat (disk s) (root E) l, s\<lparr>disk := d\<rparr>)" "disk_ok E plat d"
    "view plat d (root E) = view plat (disk s) (root E)"
    by (rule root_read_ok [OF Cons.prems(1), of l]) (use Cons.prems(2) in simp_all)
  have "blank_scan E (l # ls) s = blank_scan E ls (s\<lparr>disk := d\<rparr>)"
    using d(1) Cons.prems(2) by (auto simp: zero_sector_def)
  then show ?case using Cons.IH [of "s\<lparr>disk := d\<rparr>"] Cons.prems(2) d(2,3) by fastforce
qed

lemma unused_table:
  "i < n \<Longrightarrow> is_used (decode_table n (replicate (ENTRY_SIZE * n) 0) ! i) = 0" "\<not> used (decode_table n (replicate (ENTRY_SIZE * n) 0)) i"
proof -
  have *: "is_used (decode_table n (replicate (ENTRY_SIZE * n) 0) ! i) = 0" if "i < n" for i
    using that
  proof (induction n arbitrary: i)
    case (Suc n)
    then show ?case by (cases i) (simp_all add: decode_entry_def ENTRY_SIZE_def min_def)
  qed simp
  then show "i < n \<Longrightarrow> is_used (decode_table n (replicate (ENTRY_SIZE * n) 0) ! i) = 0" .
  show "\<not> used (decode_table n (replicate (ENTRY_SIZE * n) 0)) i" using * by (auto simp: used_def)
qed

lemma empty_table_ok:
  assumes "n \<le> 8192"
  shows "dir_ok (decode_table n (replicate (ENTRY_SIZE * n) 0)) tot" "chains_ok cb fat (decode_table n (replicate (ENTRY_SIZE * n) 0))"
    "find_used1 (decode_table n (replicate (ENTRY_SIZE * n) 0)) nm p = None"
proof -
  let ?t = "decode_table n (replicate (ENTRY_SIZE * n) 0)"
  show "dir_ok ?t tot"
    using assms zero_table_wf [of n] unused_table(1) [of _ n] unused_table(2) [of n] by (auto simp: dir_ok_def names_unique_def tree_ok_def list_all_iff in_set_conv_nth)
  show "chains_ok cb fat ?t" using unused_table(2) [of n] by (simp add: chains_ok_def)
  show "find_used1 ?t nm p = None" using unused_table(2) [of n] by (simp add: find_used1_None)
qed

text \<open>The writes of \<^verbatim>\<open>format_disk\<close> leave both tables on the disk, and the superblock in front of them.\<close>

lemma disk_inv_writes:
  assumes inv: "disk_inv E plat s" and ws: "\<forall>(r, b) \<in> set ws. r < fs_max_sectors s \<and> length b = 512"
  shows "disk_inv E plat (do_writes E ws s)" "fview E plat (do_writes E ws s) = apply_writes ws (fview E plat s)"
proof -
  have ok: "fs_ok E plat s" "sectors_full s (fview E plat s)" using inv by (simp_all add: disk_inv_def)
  have w: "\<forall>(r, b) \<in> set ws. r < fs_max_sectors s" "\<forall>(r, b) \<in> set ws. length b = 512" using ws by auto
  note d = do_writes_view [OF ok(1) w(1)]
  show "fview E plat (do_writes E ws s) = apply_writes ws (fview E plat s)" by (rule d(2))
  obtain dd where dd: "do_writes E ws s = s\<lparr>disk := dd\<rparr>" using do_writes_frame by blast
  have "sectors_full s (apply_writes ws (fview E plat s))" by (rule sectors_full_apply [OF ok(2) w(2)])
  then show "disk_inv E plat (do_writes E ws s)" using inv d by (simp add: disk_inv_def dd sectors_full_def)
qed

lemma zero_directory_keeps:
  assumes inv: "disk_inv E plat s" and n: "unat (dir_sectors (fs_super s)) = dir_sectors_needed (dir_table s)"
  shows "disk_inv E plat (zero_directory E s)" "boot_same E plat s (zero_directory E s)" "\<exists>d. zero_directory E s = s\<lparr>disk := d\<rparr>"
proof -
  let ?ws = "run_writes (dir_start (fs_super s)) (\<lambda>_. zero_sector) (dir_sectors_needed (dir_table s))"
  have z: "zero_directory E s = do_writes E ?ws s"
    by (simp add: zero_directory_def do_writes_def run_writes_def n fold_map comp_def)
  have g: "geom_ok s" "fs_ok E plat s" using inv by (simp_all add: disk_inv_def)
  have le: "unat (dir_start (fs_super s)) + dir_sectors_needed (dir_table s) \<le> unat (fs_max_sectors s)"
    using g(1) unfolding geom_ok_def by linarith
  have ws: "\<forall>(r, b) \<in> set ?ws. r < fs_max_sectors s \<and> length b = 512"
    using run_writes_range [OF le, of "\<lambda>_. zero_sector"] by (auto simp: run_writes_def zero_sector_def)
  note d = disk_inv_writes [OF inv ws]
  show "disk_inv E plat (zero_directory E s)" using d(1) z by simp
  show "\<exists>d. zero_directory E s = s\<lparr>disk := d\<rparr>" using z do_writes_frame by metis
  have "fview E plat (zero_directory E s) r = fview E plat s r" if "r < dir_start (fs_super s) \<or> fs_max_sectors s \<le> r" for r
    unfolding z d(2) by (rule run_writes_view(2) [OF le]) (use that le in \<open>auto simp: word_less_nat_alt word_le_nat_alt\<close>)
  then show "boot_same E plat s (zero_directory E s)" using d(1) by (simp add: boot_same_def z disk_inv_def)
qed

lemma save_superblock_keeps:
  assumes inv: "disk_inv E plat s" and k: "length (keyslot (fs_super s)) = KEYSLOT_DISK_SIZE" and pos: "0 < fs_max_sectors s"
  obtains d where "save_superblock E s = s\<lparr>disk := d\<rparr>" "disk_inv E plat (s\<lparr>disk := d\<rparr>)"
    "decode_superblock (fview E plat (s\<lparr>disk := d\<rparr>) 0) = fs_super s" "\<And>r. r \<noteq> 0 \<Longrightarrow> fview E plat (s\<lparr>disk := d\<rparr>) r = fview E plat s r"
proof -
  let ?b = "encode_superblock (fs_super s) @ replicate (512 - length (encode_superblock (fs_super s))) 0"
  have len: "length ?b = 512" using length_encode_superblock [OF k] by simp
  have ok: "fs_ok E plat s" using inv by (simp add: disk_inv_def)
  obtain d where d: "fs_write_sector E s 0 ?b = (None, s\<lparr>disk := d\<rparr>)" "fs_ok E plat (s\<lparr>disk := d\<rparr>)"
    "fview E plat (s\<lparr>disk := d\<rparr>) = (fview E plat s)(0 := ?b)" by (rule fs_write_ok [OF ok pos])
  have "sectors_full (s\<lparr>disk := d\<rparr>) (fview E plat (s\<lparr>disk := d\<rparr>))" using inv len unfolding d(3) by (simp add: disk_inv_def sectors_full_def)
  then have "disk_inv E plat (s\<lparr>disk := d\<rparr>)" using inv d(2) by (simp add: disk_inv_def)
  moreover have "save_superblock E s = s\<lparr>disk := d\<rparr>" using d(1) by (simp add: save_superblock_def)
  moreover have "decode_superblock (fview E plat (s\<lparr>disk := d\<rparr>) 0) = fs_super s"
    unfolding d(3) fun_upd_same by (rule decode_encode_superblock [OF k])
  ultimately show ?thesis using that d(3) by simp
qed

lemma fview_disk_cong: "view plat d (root E) = view plat (disk s) (root E) \<Longrightarrow> fview E plat (s\<lparr>disk := d\<rparr>) = fview E plat s"
  by (simp add: fun_eq_iff fview_def)

lemma save_frames: "\<exists>d. save_fat_to_disk E s = s\<lparr>disk := d\<rparr>" "\<exists>d. save_directory_to_disk E s = s\<lparr>disk := d\<rparr>"
  unfolding save_fat_writes save_dir_writes by (rule do_writes_frame)+

lemma format_commits:
  assumes inv: "disk_inv E plat s" and n: "unat (dir_sectors (fs_super s)) = dir_sectors_needed (dir_table s)"
    and k: "length (keyslot (fs_super s)) = KEYSLOT_DISK_SIZE" and pos: "0 < fs_max_sectors s" "0 < dir_start (fs_super s)"
  obtains d where "cache_flush E (save_directory_to_disk E (save_fat_to_disk E (save_superblock E (zero_directory E s)))) = s\<lparr>disk := d\<rparr>"
    "disk_inv E plat (s\<lparr>disk := d\<rparr>)" "dir_synced E plat (s\<lparr>disk := d\<rparr>)" "fat_synced E plat (s\<lparr>disk := d\<rparr>)"
    "decode_superblock (fview E plat (s\<lparr>disk := d\<rparr>) 0) = fs_super s"
    "\<And>r. fs_max_sectors s \<le> r \<Longrightarrow> fview E plat (s\<lparr>disk := d\<rparr>) r = fview E plat s r"
proof -
  obtain d1 where z: "zero_directory E s = s\<lparr>disk := d1\<rparr>" using zero_directory_keeps(3) [OF inv n] by blast
  have i1: "disk_inv E plat (s\<lparr>disk := d1\<rparr>)" "boot_same E plat s (s\<lparr>disk := d1\<rparr>)" using zero_directory_keeps(1,2) [OF inv n] z by simp_all
  obtain d2 where sb: "save_superblock E (s\<lparr>disk := d1\<rparr>) = s\<lparr>disk := d2\<rparr>" "disk_inv E plat (s\<lparr>disk := d2\<rparr>)"
    "decode_superblock (fview E plat (s\<lparr>disk := d2\<rparr>) 0) = fs_super s" "\<And>r. r \<noteq> 0 \<Longrightarrow> fview E plat (s\<lparr>disk := d2\<rparr>) r = fview E plat (s\<lparr>disk := d1\<rparr>) r"
    using save_superblock_keeps [OF i1(1)] k pos(1) by auto
  note f = save_fat_keeps [OF sb(2)]
  note g = save_dir_keeps [OF f(1)]
  let ?u = "save_directory_to_disk E (save_fat_to_disk E (s\<lparr>disk := d2\<rparr>))"
  obtain a where a: "save_fat_to_disk E (s\<lparr>disk := d2\<rparr>) = s\<lparr>disk := a\<rparr>" using save_frames(1) [of E "s\<lparr>disk := d2\<rparr>"] by auto
  obtain d3 where u: "?u = s\<lparr>disk := d3\<rparr>" using save_frames(2) [of E "s\<lparr>disk := a\<rparr>"] a by auto
  have "fs_ok E plat (s\<lparr>disk := d2\<rparr>)" "geom_ok (s\<lparr>disk := d2\<rparr>)" using sb(2) by (simp_all add: disk_inv_def)
  from boot_same_save_fat [OF this] have b1: "boot_same E plat (s\<lparr>disk := d2\<rparr>) (save_fat_to_disk E (s\<lparr>disk := d2\<rparr>))" .
  from boot_same_trans [OF this boot_same_save_dir] boot_same_ok [OF b1] have b: "boot_same E plat (s\<lparr>disk := d2\<rparr>) (s\<lparr>disk := d3\<rparr>)"
    using u by simp
  have dk: "disk_ok E plat d3" using b by (simp add: boot_same_def fs_ok_disk_ok)
  obtain d where d: "cache_flush E (s\<lparr>disk := d3\<rparr>) = s\<lparr>disk := d\<rparr>" "disk_ok E plat d" "view plat d = view plat d3"
    using cache_flush_ok [of E plat "s\<lparr>disk := d3\<rparr>"] dk by auto
  have fv: "fview E plat (s\<lparr>disk := d\<rparr>) = fview E plat (s\<lparr>disk := d3\<rparr>)" using d(3) by (simp add: fun_eq_iff fview_def)
  show ?thesis
  proof (rule that)
    show "cache_flush E (save_directory_to_disk E (save_fat_to_disk E (save_superblock E (zero_directory E s)))) = s\<lparr>disk := d\<rparr>"
      using z sb(1) u d(1) by simp
    show "disk_inv E plat (s\<lparr>disk := d\<rparr>)" using g(1) fv d(2) unfolding u by (simp add: disk_inv_def fs_ok_disk_ok sectors_full_def)
    show "dir_synced E plat (s\<lparr>disk := d\<rparr>)" using g(2) fv unfolding u by (simp add: dir_synced_def)
    show "fat_synced E plat (s\<lparr>disk := d\<rparr>)" using g(3) [OF f(2)] fv unfolding u by (simp add: fat_synced_def fat_sectors_needed_def)
    show "decode_superblock (fview E plat (s\<lparr>disk := d\<rparr>) 0) = fs_super s" using sb(3) b pos(2) fv by (simp add: boot_same_def)
    fix r assume r: "fs_max_sectors s \<le> r"
    then have "r \<noteq> 0" using pos(1) by auto
    then show "fview E plat (s\<lparr>disk := d\<rparr>) r = fview E plat s r" using r fv sb(4) b i1(2) by (simp add: boot_same_def)
  qed
qed

definition good_device :: "'w fs_env \<Rightarrow> ('w \<Rightarrow> dev_ptr \<Rightarrow> u32 \<Rightarrow> u8 list) \<Rightarrow> bool" where
  "good_device E plat \<longleftrightarrow> driver_ok (devs E) plat \<and> healthy (devs E) \<and> root E \<noteq> 0 \<and> sector_size (devs E (root E)) = 512 \<and>
     dev_read (devs E (root E)) \<noteq> None \<and> dev_write (devs E (root E)) \<noteq> None"

lemma good_device_fresh:
  assumes "good_device E plat"
  shows "disk_ok E plat (bcache_init c)" "view plat (bcache_init c) = plat (world c)"
proof -
  have "dirty_ok (devs E) (bcache_init c)" by (auto simp: dirty_ok_def bcache_init_def)
  then show "disk_ok E plat (bcache_init c)" using assms bcache_init_spec [of plat c] by (simp add: disk_ok_def good_device_def)
  show "view plat (bcache_init c) = plat (world c)" using bcache_init_spec by blast
qed

lemma zero_sector_codes: "signature (decode_mbr zero_sector) \<noteq> MBR_SIGNATURE" "of_le32 zero_sector \<noteq> FS_SUPER_MAGIC"
  by (simp_all add: decode_mbr_def of_le16_def of_le32_def zero_sector_def MBR_SIGNATURE_def FS_SUPER_MAGIC_def)

lemma new_partition:
  assumes "288 \<le> unat n"
  shows "find (partition_fits n) (partitions (new_mbr n)) =
    Some (empty_partition\<lparr>part_type := FS_PART_TYPE, lba_first := FS_PART_START_LBA, part_sectors := n - FS_PART_START_LBA\<rparr>)"
proof -
  have "unat (n - 64) = unat n - 64" using assms by (simp add: unat_sub word_le_nat_alt)
  then have "200 < n - 64" "64 < n" using assms by (simp_all add: word_less_nat_alt)
  moreover from this have "n - 64 \<noteq> 0" by auto
  ultimately show ?thesis
    by (simp add: new_mbr_def partition_fits_def empty_partition_def FS_PART_START_LBA_def FS_DATA_START_SECTOR_def not_le)
qed

lemma format_disk_ok:
  assumes ok: "fs_ok E plat s" and m: "224 \<le> unat (fs_max_sectors s)" and cl: "fs_total_clusters s = clusters_that_fit (fs_max_sectors s)"
    and full: "sectors_full s (fview E plat s)" and hp: "512 \<le> length (heap_after_fat E)" and mem: "\<forall>n. kmalloc_ok K n"
  obtains s' where "format_disk E K s = Some (None, s')" "disk_inv E plat s'" "dir_synced E plat s'" "fat_synced E plat s'"
    "decode_superblock (fview E plat s' 0) = fs_super s'" "superblock_ok (fs_super s')" "total_clusters (fs_super s') = fs_total_clusters s'"
    "\<And>r. fs_max_sectors s \<le> r \<Longrightarrow> fview E plat s' r = fview E plat s r"
    "fs_part_start s' = fs_part_start s" "fs_max_sectors s' = fs_max_sectors s" "fs_was_formatted s'"
    "unat (max_entries (fs_super s')) = length (dir_table s')" "length (dir_table s') \<le> 8192" "dir_table s' \<noteq> []"
    "dir_table s' = decode_table (length (dir_table s')) (replicate (ENTRY_SIZE * length (dir_table s')) 0)"
proof -
  let ?m = "fs_max_sectors s"
  obtain e c1 c2 ds where geo: "entries_for_partition ?m = Some e" "512 \<le> unat e" "unat e \<le> 8192"
    "fst (fit_pass ?m (1 + dir_sectors_for e) (clusters_that_fit ?m)) = c1" "fit_pass ?m (1 + dir_sectors_for e) c1 = (c2, ds)"
    "3 \<le> unat c2" "unat c2 \<le> 262144" "unat (1 + dir_sectors_for e) + (4 * unat c2 + 511) div 512 \<le> unat ds"
    "unat (1 + dir_sectors_for e) = 1 + (unat e * 96 + 511) div 512" "unat ds + unat c2 * 8 \<le> unat ?m"
    by (rule format_geometry [OF m])
  have cap: "\<not> FS_MAX_CLUSTERS_CAP < unat (fs_total_clusters s)"
    using clusters_that_fit_nat(3) [OF m] cl by (simp add: FS_MAX_CLUSTERS_CAP_def)
  define tab where "tab = decode_table (unat e) (replicate (ENTRY_SIZE * unat e) 0)"
  define sb where "sb = blank_super\<lparr>magic := FS_SUPER_MAGIC, format_version := FS_FORMAT_VERSION, sb_sector_size := 512,
      total_sectors := ?m, dir_start := 1, dir_sectors := dir_sectors_for e, max_entries := e, entry_size := 96,
      cluster_sectors := of_nat FS_CLUSTER_SECTORS, fat_start := 1 + dir_sectors_for e, data_start := ds, total_clusters := c2, sb_flags := 0\<rparr>"
  define s3 where "s3 = s\<lparr>fs_total_clusters := c2, dir_table := tab, fs_super := sb, file_allocation_table := reserve_clusters (replicate (unat c2) 0)\<rparr>"
  have nz: "e \<noteq> 0" "c2 \<noteq> 0" using geo(2,6) by auto
  have "fs_tables_alloc K (s\<lparr>fs_total_clusters := c2\<rparr>) e c2 =
      (None, s\<lparr>fs_total_clusters := c2, dir_table := tab, file_allocation_table := replicate (unat c2) 0\<rparr>)"
    using tables_alloc_ok [OF nz _ _ mem] geo(3,7) by (simp add: FS_MAX_ENTRIES_CAP_def FS_MAX_CLUSTERS_CAP_def tab_def)
  then have fd: "format_disk E K s = Some (None, (cache_flush E (save_directory_to_disk E (save_fat_to_disk E
      (save_superblock E (zero_directory E s3)))))\<lparr>fs_was_formatted := True\<rparr>)"
    unfolding format_disk_def geo(1) Let_def option.case cl [symmetric]
    using cap geo(4,5) cl by (simp add: s3_def sb_def Let_def)
  have f3: "fs_super s3 = sb" "fs_total_clusters s3 = c2" "dir_table s3 = tab" "fs_max_sectors s3 = ?m" "fs_part_start s3 = fs_part_start s"
    "length (file_allocation_table s3) = unat c2" by (simp_all add: s3_def reserve_clusters_keeps)
  have sbf: "dir_start sb = 1" "fat_start sb = 1 + dir_sectors_for e" "data_start sb = ds" "total_clusters sb = c2" "max_entries sb = e"
    "cluster_sectors sb = 8" "dir_sectors sb = dir_sectors_for e" "length (keyslot sb) = KEYSLOT_DISK_SIZE"
    by (simp_all add: sb_def FS_CLUSTER_SECTORS_def blank_super_def decode_superblock_def KEYSLOT_DISK_SIZE_def)
  have lt: "length tab = unat e" "dir_sectors_needed tab = (unat e * 96 + 511) div 512"
    by (simp_all add: tab_def dir_sectors_needed_def ENTRY_SIZE_def mult.commute)
  have g: "geom_ok s3" unfolding geom_ok_def fat_sectors_needed_def f3 sbf lt
    using geo by (simp add: FS_MAX_CLUSTERS_CAP_def mult.commute)
  have fv: "fview E plat s3 = fview E plat s" by (simp add: fun_eq_iff fview_def s3_def)
  have di: "disk_inv E plat s3" using ok g full hp fv by (simp add: disk_inv_def fs_ok_disk_ok sectors_full_def s3_def)
  have "unat (dir_sectors (fs_super s3)) = dir_sectors_needed (dir_table s3)"
    using dir_sectors_for_nat [OF geo(3)] f3 sbf lt by simp
  then obtain d where d: "cache_flush E (save_directory_to_disk E (save_fat_to_disk E (save_superblock E (zero_directory E s3)))) = s3\<lparr>disk := d\<rparr>"
    "disk_inv E plat (s3\<lparr>disk := d\<rparr>)" "dir_synced E plat (s3\<lparr>disk := d\<rparr>)" "fat_synced E plat (s3\<lparr>disk := d\<rparr>)"
    "decode_superblock (fview E plat (s3\<lparr>disk := d\<rparr>) 0) = fs_super s3"
    "\<And>r. fs_max_sectors s3 \<le> r \<Longrightarrow> fview E plat (s3\<lparr>disk := d\<rparr>) r = fview E plat s3 r"
    using format_commits [OF di] f3 sbf m by (auto simp: word_less_nat_alt)
  let ?s = "s3\<lparr>disk := d, fs_was_formatted := True\<rparr>"
  have fvs: "fview E plat ?s = fview E plat (s3\<lparr>disk := d\<rparr>)" by (simp add: fun_eq_iff fview_def)
  have sbo: "superblock_ok sb"
    using geo nz sbf by (auto simp: superblock_ok_def sb_def FS_MAX_ENTRIES_CAP_def FS_MAX_CLUSTERS_CAP_def word_le_nat_alt)
  show ?thesis
  proof (rule that [of ?s])
    show "format_disk E K s = Some (None, ?s)" using fd d(1) by simp
    show "disk_inv E plat ?s" using d(2) fvs by (simp add: disk_inv_def fs_ok_disk_ok sectors_full_def geom_ok_def fat_sectors_needed_def)
    show "dir_synced E plat ?s" using d(3) fvs by (simp add: dir_synced_def)
    show "fat_synced E plat ?s" using d(4) fvs by (simp add: fat_synced_def fat_sectors_needed_def)
    show "decode_superblock (fview E plat ?s 0) = fs_super ?s" using d(5) fvs by simp
    show "\<And>r. ?m \<le> r \<Longrightarrow> fview E plat ?s r = fview E plat s r" using d(6) fvs fv f3 by simp
  qed (use f3 sbf lt geo sbo in \<open>auto simp: tab_def [symmetric] s3_def\<close>)
qed

lemma boot_same_mounted:
  assumes inv: "fs_inv E plat u" and g: "geom_ok s" and same: "fs_super u = fs_super s" "fs_total_clusters u = fs_total_clusters s" "fs_part_start u = fs_part_start s"
    "fs_max_sectors u = fs_max_sectors s" "dir_table u = dir_table s" "\<And>r. \<not> in_fat s r \<Longrightarrow> fview E plat u r = fview E plat s r"
  shows "boot_same E plat s u"
proof -
  have "\<not> in_fat s r" if "r < dir_start (fs_super s) \<or> fs_max_sectors s \<le> r" for r
    using that g by (auto simp: in_fat_def geom_ok_def word_less_nat_alt word_le_nat_alt)
  then show ?thesis using same fs_invD(1,2) [OF inv] by (simp add: boot_same_def disk_inv_def)
qed

lemma blank_mounts:
  assumes dev: "good_device E plat" and n: "288 \<le> unat (disk_count E)" and full: "\<forall>l. length (plat (world (disk t)) (root E) l) = 512"
    and blank: "\<forall>l < 200. plat (world (disk t)) (root E) l = zero_sector" and hp: "512 \<le> length (heap_after_fat E)" and mem: "\<forall>n. kmalloc_ok K n"
  shows "\<exists>u behind. init_fs E K t = Some (u, behind) \<and> fs_mounted u \<and> fs_was_formatted u \<and> fs_inv E plat u \<and> boot_synced E plat u \<and>
    fs_abs E plat u = (\<lambda>_ _. None)"
proof -
  let ?n = "disk_count E" and ?w = "plat (world (disk t)) (root E)"
  have root: "root E \<noteq> 0" using dev by (simp add: good_device_def)
  have big: "\<not> ?n \<le> FS_PART_START_LBA + FS_DATA_START_SECTOR" "0 < ?n"
    using n by (auto simp: FS_PART_START_LBA_def FS_DATA_START_SECTOR_def word_le_nat_alt word_less_nat_alt)
  define t0 where "t0 = fs_tables_free (t\<lparr>disk := bcache_init (disk t), fs_mounted := False, fs_part_start := 0, fs_total_clusters := 0\<rparr>)"
  have t0: "disk_ok E plat (disk t0)" "view plat (disk t0) (root E) = ?w"
    using good_device_fresh [OF dev] by (simp_all add: t0_def fs_tables_free_def)
  have z0: "?w 0 = zero_sector" using blank by simp
  obtain d1 where d1: "root_read E t0 0 = (None, zero_sector, t0\<lparr>disk := d1\<rparr>)" "disk_ok E plat d1" "view plat d1 (root E) = ?w"
    using root_read_ok [OF t0(1) big(2)] t0(2) z0 by metis
  have lp: "load_partition E t0 ?n = (Part_none, t0\<lparr>disk := d1\<rparr>)" using d1(1) zero_sector_codes(1) by (simp add: load_partition_def)
  obtain d2 where d2: "root_read E (t0\<lparr>disk := d1\<rparr>) 0 = (None, zero_sector, t0\<lparr>disk := d2\<rparr>)" "disk_ok E plat d2" "view plat d2 (root E) = ?w"
    using root_read_ok [of E plat "t0\<lparr>disk := d1\<rparr>", OF _ big(2)] d1(2,3) z0 by (auto elim: meta_mp)
  let ?ls = "map (\<lambda>i. 0 + of_nat i) [0..<unat (FS_PART_START_LBA + FS_LEGACY_DIR_SECTORS)] :: u32 list"
  have ls: "\<forall>l \<in> set ?ls. l < ?n \<and> view plat (disk (t0\<lparr>disk := d2\<rparr>)) (root E) l = zero_sector"
    using n blank d2(3) by (auto simp: FS_PART_START_LBA_def FS_LEGACY_DIR_SECTORS_def word_less_nat_alt unat_of_nat)
  obtain d3 where d3: "disk_region_is_blank E (t0\<lparr>disk := d2\<rparr>) 0 (FS_PART_START_LBA + FS_LEGACY_DIR_SECTORS) = (Inr True, t0\<lparr>disk := d3\<rparr>)"
      "disk_ok E plat d3" "view plat d3 (root E) = ?w"
    using blank_scan_blank [OF _ ls] d2(2,3) by (auto simp: disk_region_is_blank_def)
  let ?m = "?n - FS_PART_START_LBA"
  define s5 where "s5 = t0\<lparr>disk := d3, fs_part_start := FS_PART_START_LBA, fs_max_sectors := ?m, fs_total_clusters := clusters_that_fit ?m\<rparr>"
  have m: "unat ?m = unat ?n - 64" "224 \<le> unat ?m" using n by (simp_all add: FS_PART_START_LBA_def unat_sub word_le_nat_alt)
  have cl: "\<not> unat (clusters_that_fit ?m) < FS_FIRST_DATA_CLUSTER + 1" using clusters_that_fit_nat(1) [OF m(2)] by (simp add: FS_FIRST_DATA_CLUSTER_def)
  obtain d6 where d6: "write_mbr E s5 ?n = (None, s5\<lparr>disk := d6\<rparr>)" "disk_ok E plat d6" "view plat d6 (root E) = ?w(0 := encode_mbr (new_mbr ?n))"
    using root_write_ok [of E plat s5 0 "encode_mbr (new_mbr ?n)"] d3(2,3) big(2) by (auto simp: write_mbr_def s5_def)
  let ?s6 = "s5\<lparr>disk := d6\<rparr>"
  have f6: "fs_part_start ?s6 = 64" "fs_max_sectors ?s6 = ?m" "fs_total_clusters ?s6 = clusters_that_fit ?m" by (simp_all add: s5_def FS_PART_START_LBA_def)
  have ok6: "fs_ok E plat ?s6" using d6(2) m n by (simp add: fs_ok_disk_ok s5_def FS_PART_START_LBA_def)
  have full6: "sectors_full ?s6 (fview E plat ?s6)"
    using full d6(3) new_mbr_reads(2) by (simp add: sectors_full_def fview_def)
  obtain s7 where s7: "format_disk E K ?s6 = Some (None, s7)" "disk_inv E plat s7" "dir_synced E plat s7" "fat_synced E plat s7"
    "decode_superblock (fview E plat s7 0) = fs_super s7" "superblock_ok (fs_super s7)" "total_clusters (fs_super s7) = fs_total_clusters s7"
    "\<And>r. fs_max_sectors ?s6 \<le> r \<Longrightarrow> fview E plat s7 r = fview E plat ?s6 r" "fs_part_start s7 = fs_part_start ?s6" "fs_max_sectors s7 = fs_max_sectors ?s6"
    "fs_was_formatted s7" "unat (max_entries (fs_super s7)) = length (dir_table s7)" "length (dir_table s7) \<le> 8192" "dir_table s7 \<noteq> []"
    "dir_table s7 = decode_table (length (dir_table s7)) (replicate (ENTRY_SIZE * length (dir_table s7)) 0)"
    by (rule format_disk_ok [OF ok6 _ _ full6 hp mem]) (use f6 m(2) in simp_all)
  note et = empty_table_ok [OF s7(13), folded s7(15)]
  have "entry_size (fs_super s7) = 96" using s7(6) by (simp add: superblock_ok_def)
  then obtain u behind where u: "load_tables E s7 = (u, behind)" "fs_mounted u" "fs_inv E plat u" "fs_abs E plat u = fs_abs E plat s7"
    "dir_table u = dir_table s7" "fs_super u = fs_super s7" "fs_total_clusters u = fs_total_clusters s7" "fs_part_start u = fs_part_start s7"
    "fs_max_sectors u = fs_max_sectors s7" "fs_was_formatted u = fs_was_formatted s7" "\<And>r. \<not> in_fat s7 r \<Longrightarrow> fview E plat u r = fview E plat s7 r"
    using tables_loaded [OF s7(2) _ s7(12) _ refl refl refl refl refl et(1,2) s7(3,4)] wf_table [OF et(1)] by metis
  have part: "unat (fs_part_start s7) + unat (fs_max_sectors s7) \<le> unat ?n" using s7(2) by (simp add: disk_inv_def fs_ok_disk_ok)
  have "fs_max_sectors ?s6 \<le> - 64" using m(1) unat_u32_less [of ?n] f6(2) by (simp add: word_le_nat_alt)
  from s7(8) [OF this] have v0: "view plat (disk s7) (root E) 0 = encode_mbr (new_mbr ?n)" using s7(9) f6(1) d6(3) by (simp add: fview_def)
  have "boot_synced E plat s7"
    unfolding boot_synced_def Let_def v0 new_mbr_reads(1) new_partition [OF n]
    using s7 f6 big by (simp add: new_mbr_def FS_PART_START_LBA_def not_le)
  moreover have "boot_same E plat s7 u" by (rule boot_same_mounted [OF u(3)]) (use s7(2) u in \<open>simp_all add: disk_inv_def\<close>)
  ultimately have bs: "boot_synced E plat u" using boot_synced_same part by blast
  have "init_fs E K t = Some (load_tables E s7)"
    unfolding init_fs_def Let_def t0_def [symmetric]
    using root big(1) lp d2(1) zero_sector_codes(2) d3(1) cl d6(1) s7(1) by (simp add: s5_def)
  moreover have "fs_abs E plat s7 = (\<lambda>_ _. None)" using et(3) by (intro ext) (simp add: fs_abs_def)
  ultimately show ?thesis using u(1-4,10) s7(11) bs by simp
qed

subsection \<open>Sessions\<close>

text \<open>
  A session is a list of operations on a mounted file system, then a flush of the cache and a reboot:
  \<^verbatim>\<open>init_fs\<close> with whatever the other globals and the heap hold by then.
\<close>

type_synonym 'w session = "('w fs_env \<times> fs_op) list \<times> 'w fs_env \<times> krt"

fun run_sessions :: "'w session list \<Rightarrow> 'w fs_state \<Rightarrow> (fs_result list \<times> 'w fs_state) option" where
  "run_sessions [] s = Some ([], s)"
| "run_sessions ((ops, E, K) # rest) s =
     (case run_ops fs_step ops s of
        None \<Rightarrow> None
      | Some (rs, s1) \<Rightarrow>
          (case init_fs E K (cache_flush E s1) of
             None \<Rightarrow> None
           | Some (s2, _) \<Rightarrow> map_option (\<lambda>(rs', s'). (rs @ rs', s')) (run_sessions rest s2)))"

fun session_ok :: "'w fs_env \<Rightarrow> 'w session \<Rightarrow> bool" where
  "session_ok E (ops, E', K) \<longleftrightarrow> (\<forall>(e, op) \<in> set ops. same_devices E e \<and> op_ok op) \<and> same_devices E E' \<and> (\<forall>n. kmalloc_ok K n)"

lemma map_run_append:
  "map_run m es = Some m' \<Longrightarrow> map_run m (es @ fs) = map_run m' fs"
  by (induction m es rule: map_run.induct) (auto split: if_splits)

lemma same_devices_boot: "same_devices E E' \<Longrightarrow> boot_synced E' plat s = boot_synced E plat s"
  by (simp add: boot_synced_def same_devices_def fview_def)

lemma reboot:
  assumes inv: "fs_inv E plat s" "boot_synced E plat s" and sd: "same_devices E E'" and mem: "\<forall>n. kmalloc_ok K n"
  shows "\<exists>u behind. init_fs E' K (cache_flush E' s) = Some (u, behind) \<and> fs_mounted u \<and> fs_inv E plat u \<and> boot_synced E plat u \<and>
    fs_abs E plat u = fs_abs E plat s"
proof -
  note dE = same_devices_inv [OF sd] same_devices_boot [OF sd]
  have inv': "fs_inv E' plat s" "boot_synced E' plat s" using inv dE by simp_all
  have ok: "fs_ok E' plat s" "geom_ok s" using fs_invD(1,2) [OF inv'(1)] by (simp_all add: disk_inv_def)
  obtain d where d: "cache_flush E' s = s\<lparr>disk := d\<rparr>" "plat (world d) = view plat (disk s)"
    using cache_flush_ok [of E' plat s] ok(1) by (auto simp: fs_ok_disk_ok)
  obtain u behind where u: "init_fs E' K (cache_flush E' s) = Some (u, behind)" "fs_mounted u" "fs_inv E' plat u" "fs_abs E' plat u = fs_abs E' plat s"
    "dir_table u = dir_table s" "fs_super u = fs_super s" "fs_part_start u = fs_part_start s" "fs_max_sectors u = fs_max_sectors s"
    "fs_total_clusters u = fs_total_clusters s" "\<And>r. \<not> in_fat s r \<Longrightarrow> fview E' plat u r = fview E' plat s r"
    using remount [OF inv' mem, of "cache_flush E' s"] d by auto
  have "boot_same E' plat s u" by (rule boot_same_mounted [OF u(3) ok(2)]) (use u in simp_all)
  then have "boot_synced E' plat u" using boot_synced_same [OF inv'(2)] ok(1) by (simp add: fs_ok_disk_ok)
  then show ?thesis using u(1-4) dE by simp
qed

lemma sessions_refine:
  assumes "fs_inv E plat s" "boot_synced E plat s" "\<forall>x \<in> set xs. session_ok E x"
  shows "\<exists>rs u. run_sessions xs s = Some (rs, u) \<and> fs_inv E plat u \<and> boot_synced E plat u \<and> (fs_mounted s \<longrightarrow> fs_mounted u) \<and>
    length rs = length (concat (map fst xs)) \<and>
    map_run (fs_abs E plat s) (zip (map snd (concat (map fst xs))) rs) = Some (fs_abs E plat u)"
  using assms
proof (induction xs arbitrary: s)
  case (Cons x xs)
  obtain ops E' K where x: "x = (ops, E', K)" by (metis prod_cases3)
  have so: "\<forall>(e, op) \<in> set ops. same_devices E e \<and> op_ok op" "same_devices E E'" "\<forall>n. kmalloc_ok K n"
    using Cons.prems(3) x by auto
  obtain rs s1 where s1: "run_ops fs_step ops s = Some (rs, s1)" "length rs = length ops" "fs_inv E plat s1"
    "map_run (fs_abs E plat s) (zip (map snd ops) rs) = Some (fs_abs E plat s1)"
    using fsr.run_refines [OF Cons.prems(1), of ops] so(1) by auto
  have b1: "boot_synced E plat s1" by (rule run_boot_synced [OF Cons.prems(1,2) so(1) s1(1)])
  obtain u behind where u: "init_fs E' K (cache_flush E' s1) = Some (u, behind)" "fs_mounted u" "fs_inv E plat u" "boot_synced E plat u"
    "fs_abs E plat u = fs_abs E plat s1" using reboot [OF s1(3) b1 so(2,3)] by blast
  obtain rs' v where v: "run_sessions xs u = Some (rs', v)" "fs_inv E plat v" "boot_synced E plat v" "fs_mounted v"
    "length rs' = length (concat (map fst xs))"
    "map_run (fs_abs E plat u) (zip (map snd (concat (map fst xs))) rs') = Some (fs_abs E plat v)"
    using Cons.IH [OF u(3,4)] Cons.prems(3) u(2) by auto
  have "zip (map snd (concat (map fst (x # xs)))) (rs @ rs') =
      zip (map snd ops) rs @ zip (map snd (concat (map fst xs))) rs'" using s1(2) x by simp
  then have "map_run (fs_abs E plat s) (zip (map snd (concat (map fst (x # xs)))) (rs @ rs')) = Some (fs_abs E plat v)"
    using map_run_append [OF s1(4)] u(5) v(6) by simp
  then show ?case using s1(1,2) u(1) v x by simp
qed simp

lemma mem_blank_device:
  "good_device mem_env (\<lambda>w. w)" "288 \<le> unat (disk_count mem_env)" "world (disk mem_blank) = (\<lambda>_ _. zero_sector)"
  "512 \<le> length (heap_after_fat mem_env)" "\<forall>n. kmalloc_ok mem_rt n"
proof -
  have "fs_ok mem_env (\<lambda>w. w) mem_blank" using mem_blank_disk by (simp add: disk_inv_def)
  then show "good_device mem_env (\<lambda>w. w)" by (simp add: fs_ok_disk_ok disk_ok_def good_device_def)
  show "288 \<le> unat (disk_count mem_env)" "world (disk mem_blank) = (\<lambda>_ _. zero_sector)" "512 \<le> length (heap_after_fat mem_env)"
    by (simp_all add: mem_env_def mem_devs_def mem_blank_def bcache_init_def)
  show "\<forall>n. kmalloc_ok mem_rt n" by (simp add: mem_rt_def)
qed

subsection \<open>Properties\<close>

text \<open>
  Refinement (C1): a disk whose first 200 sectors are zero is formatted at the first mount, and from then
  on any number of sessions, each a sequence of file operations followed by a flush and a reboot, behaves like
  one map from directory and name to contents that starts empty: no reboot loses or changes a file.
  The devices obey and the heap has room; what the heap holds is not constrained.
\<close>

theorem files_survive_reboots:
  assumes "good_device E plat" "288 \<le> unat (disk_count E)" "\<forall>l. length (plat (world (disk t)) (root E) l) = 512"
    and "\<forall>l < 200. plat (world (disk t)) (root E) l = zero_sector" "512 \<le> length (heap_after_fat E)" "\<forall>n. kmalloc_ok K n"
    and "\<forall>x \<in> set xs. session_ok E x"
  shows "\<exists>s behind rs u. init_fs E K t = Some (s, behind) \<and> run_sessions xs s = Some (rs, u) \<and> fs_mounted u \<and> fs_inv E plat u \<and>
    map_run (\<lambda>_ _. None) (zip (map snd (concat (map fst xs))) rs) = Some (fs_abs E plat u)"
proof -
  obtain s behind where s: "init_fs E K t = Some (s, behind)" "fs_mounted s" "fs_inv E plat s" "boot_synced E plat s" "fs_abs E plat s = (\<lambda>_ _. None)"
    using blank_mounts [OF assms(1-6)] by blast
  then show ?thesis using sessions_refine [OF s(3,4) assms(7)] by metis
qed

theorem files_survive_reboots_witness:
  "\<exists>s behind rs u. init_fs mem_env mem_rt mem_blank = Some (s, behind) \<and>
    run_sessions [([(mem_env, Op_create [97] [1, 2, 3] 3 0)], mem_env, mem_rt), ([(mem_env, Op_read [97] 9 0)], mem_env, mem_rt)] s = Some (rs, u) \<and>
    fs_mounted u"
proof -
  let ?xs = "[([(mem_env, Op_create [97] [1, 2, 3] 3 0)], mem_env, mem_rt), ([(mem_env, Op_read [97] 9 0)], mem_env, mem_rt)]"
  have "\<forall>x \<in> set ?xs. session_ok mem_env x" using mem_blank_device(5) by (simp add: same_devices_def mem_env_def)
  then show ?thesis
    using files_survive_reboots [of mem_env "\<lambda>w. w" mem_blank mem_rt ?xs] mem_blank_device by (auto simp: zero_sector_def)
qed

end
