(* ===== verification/Diskkey.thy ===== *)
theory Diskkey
  imports Reboot
begin

text \<open>
  The key slot of a mounted disk: installing a passphrase, opening the disk again after a reboot, and
  changing the passphrase, which keeps the data key and every file.
\<close>

lemma geom_ok_super:
  assumes "fs_super t = (fs_super s)\<lparr>keyslot := k\<rparr>" "dir_table t = dir_table s" "file_allocation_table t = file_allocation_table s"
    and "fs_total_clusters t = fs_total_clusters s" "fs_max_sectors t = fs_max_sectors s"
  shows "geom_ok t = geom_ok s" "fat_sectors_needed t = fat_sectors_needed s" "dsec t = dsec s" "csecs t = csecs s" "cdata t = cdata s"
proof -
  show d: "dsec t = dsec s" and c: "csecs t = csecs s" using assms by (simp_all add: fun_eq_iff dsec_def fs_cluster_to_sector_def)
  show "fat_sectors_needed t = fat_sectors_needed s" using assms by (simp add: fat_sectors_needed_def)
  then show "geom_ok t = geom_ok s" using assms by (simp add: geom_ok_def)
  show "cdata t = cdata s" using d c by (simp add: fun_eq_iff cdata_def)
qed

lemma sector_after_super:
  assumes g: "geom_ok s" "0 < dir_start (fs_super s)"
  shows "i < dir_sectors_needed (dir_table s) \<Longrightarrow> dir_start (fs_super s) + of_nat i \<noteq> 0"
    "i < fat_sectors_needed s \<Longrightarrow> fat_start (fs_super s) + of_nat i \<noteq> 0"
    "c < fs_total_clusters s \<Longrightarrow> k < csecs s \<Longrightarrow> dsec s c k \<noteq> 0"
proof -
  have le: "unat (dir_start (fs_super s)) + dir_sectors_needed (dir_table s) \<le> unat (fs_max_sectors s)"
    "unat (fat_start (fs_super s)) + fat_sectors_needed s \<le> unat (fs_max_sectors s)"
    "0 < unat (dir_start (fs_super s))" "unat (dir_start (fs_super s)) \<le> unat (fat_start (fs_super s))"
    "unat (fat_start (fs_super s)) \<le> unat (data_start (fs_super s))"
    using g unfolding geom_ok_def word_less_nat_alt by simp_all
  show "i < dir_sectors_needed (dir_table s) \<Longrightarrow> dir_start (fs_super s) + of_nat i \<noteq> 0"
    using run_unat [OF le(1)] le(3) by (metis add_is_0 not_less_zero unat_0)
  show "i < fat_sectors_needed s \<Longrightarrow> fat_start (fs_super s) + of_nat i \<noteq> 0"
    using run_unat [OF le(2)] le(3,4) by (metis add_is_0 le_zero_eq not_less_zero unat_0)
  show "c < fs_total_clusters s \<Longrightarrow> k < csecs s \<Longrightarrow> dsec s c k \<noteq> 0"
    using dsec_unat [OF g(1), of c k] le(3-5) by auto
qed

lemma super_only:
  assumes inv: "fs_inv E plat s" and pos: "0 < dir_start (fs_super s)" and ok: "disk_inv E plat t"
    and same: "fs_super t = (fs_super s)\<lparr>keyslot := k\<rparr>" "dir_table t = dir_table s" "file_allocation_table t = file_allocation_table s"
      "fs_total_clusters t = fs_total_clusters s" "fs_max_sectors t = fs_max_sectors s"
    and v: "\<And>r. r \<noteq> 0 \<Longrightarrow> fview E plat t r = fview E plat s r"
  shows "fs_inv E plat t" "fs_abs E plat t = fs_abs E plat s"
proof -
  note d = fs_invD [OF inv] and gs = geom_ok_super [OF same] and z = sector_after_super [OF fs_invD(2) [OF inv] pos]
  have cd: "cdata t (fview E plat t) c = cdata s (fview E plat s) c" if "c < fs_total_clusters s" for c
    unfolding gs(5) using that z(3) v by (intro cdata_cong) simp
  have "dir_synced E plat t" using inv same v z(1) by (simp add: fs_inv_def dir_synced_def)
  moreover have "fat_synced E plat t" using inv same v z(2) gs(2) by (simp add: fs_inv_def fat_synced_def)
  ultimately show "fs_inv E plat t" using inv ok same gs(4) by (simp add: fs_inv_def)
  have "abs_node t (fview E plat t) (dir_table s ! j) = abs_node s (fview E plat s) (dir_table s ! j)" if "used (dir_table s) j" for j
  proof -
    have "good_entry (512 * csecs s) (file_allocation_table s) (dir_table s ! j)" using d(8) that by (simp add: chains_ok_def)
    from good_entry_range [OF this] have "\<forall>x \<in> set (clusters_of (file_allocation_table s) (dir_table s ! j)). x < fs_total_clusters s"
      using d(3) by (simp add: word_less_nat_alt)
    then show ?thesis using cd same(3) by (simp add: abs_node_def entry_bytes_def cong: map_cong)
  qed
  then show "fs_abs E plat t = fs_abs E plat s" using fs_abs_same [of t s] same(2) by blast
qed

lemma super_slot_set: "slot_wf k \<Longrightarrow> super_slot (set_super_slot k s) = k"
  using decode_encode_keyslot [of k "[]"] by (simp add: super_slot_def set_super_slot_def)

lemma slot_saved:
  assumes inv: "fs_inv E plat s" "boot_synced E plat s" and k: "slot_wf k"
  defines "s' \<equiv> cache_flush E (save_superblock E (set_super_slot k s))"
  shows "fs_inv E plat s'" "boot_synced E plat s'" "fs_abs E plat s' = fs_abs E plat s" "super_slot s' = k"
    "fs_mounted s' = fs_mounted s" "plat (world (disk s')) = view plat (disk s')"
proof -
  let ?t = "set_super_slot k s" and ?b = "encode_keyslot k"
  note b = inv(2) [unfolded boot_synced_def Let_def]
  have pos: "0 < dir_start (fs_super s)" using b by (auto simp: superblock_ok_def word_neq_0_conv)
  have t: "fs_super ?t = (fs_super s)\<lparr>keyslot := ?b\<rparr>" "dir_table ?t = dir_table s" "file_allocation_table ?t = file_allocation_table s"
    "fs_total_clusters ?t = fs_total_clusters s" "fs_max_sectors ?t = fs_max_sectors s" "fs_part_start ?t = fs_part_start s" "disk ?t = disk s"
    "fs_mounted ?t = fs_mounted s"
    by (simp_all add: set_super_slot_def)
  have fv: "fview E plat ?t = fview E plat s" using t by (simp add: fun_eq_iff fview_def)
  have dt: "disk_inv E plat ?t"
    using fs_invD(1) [OF inv(1)] geom_ok_super(1) [OF t(1-5)] t fv by (simp add: disk_inv_def fs_ok_disk_ok sectors_full_def)
  obtain p where p: "partition_fits (disk_count E) p" "part_sectors p = fs_max_sectors s" "lba_first p = fs_part_start s"
    using b by (auto simp: find_Some_iff)
  have max: "0 < fs_max_sectors ?t" using partition_fits_range(2) [OF p(1)] p(2) t by (simp add: word_less_nat_alt)
  have len: "length (keyslot (fs_super ?t)) = KEYSLOT_DISK_SIZE" using length_encode_keyslot [OF k] t by simp
  obtain d where d: "save_superblock E ?t = ?t\<lparr>disk := d\<rparr>" "disk_inv E plat (?t\<lparr>disk := d\<rparr>)"
    "decode_superblock (fview E plat (?t\<lparr>disk := d\<rparr>) 0) = fs_super ?t" "\<And>r. r \<noteq> 0 \<Longrightarrow> fview E plat (?t\<lparr>disk := d\<rparr>) r = fview E plat ?t r"
    by (rule save_superblock_keeps [OF dt len max]) blast
  obtain c where c: "cache_flush E (?t\<lparr>disk := d\<rparr>) = ?t\<lparr>disk := c\<rparr>" "disk_ok E plat c" "view plat c = view plat d" "plat (world c) = view plat d"
    using cache_flush_ok [of E plat "?t\<lparr>disk := d\<rparr>"] d(2) by (auto simp: disk_inv_def fs_ok_disk_ok)
  have s': "s' = ?t\<lparr>disk := c\<rparr>" using d(1) c(1) by (simp add: s'_def)
  have fc: "fview E plat s' = fview E plat (?t\<lparr>disk := d\<rparr>)" using c(3) s' by (simp add: fun_eq_iff fview_def)
  have di: "disk_inv E plat s'" using d(2) c(2) fc s' by (simp add: disk_inv_def fs_ok_disk_ok sectors_full_def)
  have f': "fs_super s' = (fs_super s)\<lparr>keyslot := ?b\<rparr>" "dir_table s' = dir_table s" "file_allocation_table s' = file_allocation_table s"
    "fs_total_clusters s' = fs_total_clusters s" "fs_max_sectors s' = fs_max_sectors s" "fs_part_start s' = fs_part_start s"
    using s' t by simp_all
  have v: "fview E plat s' r = fview E plat s r" if "r \<noteq> 0" for r using d(4) that fc fv by simp
  show "fs_inv E plat s'" "fs_abs E plat s' = fs_abs E plat s" using super_only [OF inv(1) pos di f'(1-5) v] by simp_all
  have "- fs_part_start s \<noteq> 0" using partition_fits_range(3) [OF p(1)] p(3) by auto
  from v [OF this] have "view plat (disk s') (root E) 0 = view plat (disk s) (root E) 0" using f'(6) by (simp add: fview_def)
  moreover have "superblock_ok (fs_super s)" using b by blast
  then have "superblock_ok (fs_super s')" using f'(1) unfolding superblock_ok_def by simp
  ultimately show "boot_synced E plat s'"
    using b f' d(3) fc t(1) by (simp add: boot_synced_def Let_def)
  show "super_slot s' = k" using super_slot_set [OF k, of s] s' by (simp add: super_slot_def)
  show "fs_mounted s' = fs_mounted s" using s' t by simp
  show "plat (world (disk s')) = view plat (disk s')" using s' c(3,4) by simp
qed
lemma install_succeeds:
  assumes m: "fs_mounted (kfs_fs s)" and pool: "seeded (kfs_pool s)" and pw: "passphrase_is_usable pw"
  obtains dek k p where "fs_keyslot_install E rd s pw = Some (None, s\<lparr>kfs_fs := cache_flush E (save_superblock E (set_super_slot k (kfs_fs s))),
      kfs_sec := install_master_key dek (kfs_sec s), kfs_pool := p\<rparr>)"
    "length dek = 32" "slot_wf k" "keyslot_is_present k" "keyslot_unwrap k pw = Some (Inr dek)" "seeded p"
proof -
  obtain rd0 rd1 rd2 where rd: "rd = (rd0, rd1, rd2)" by (metis prod_cases3)
  obtain q dek p1 where r: "random_fill rd0 (kfs_pool s) (stack_junk E) KEYSLOT_KEY_LEN = (q, dek, p1)" by (metis prod_cases3)
  note sd = random_fill_seeded [OF r pool]
  have len: "length dek = KEYSLOT_KEY_LEN" by (rule random_fill_length [OF r sd(1)]) (simp add: KEYSLOT_KEY_LEN_def)
  obtain k p2 where k: "keyslot_create rd1 rd2 p1 (super_slot (kfs_fs s)) pw dek = Some (None, k, p2)" "seeded p2"
    by (rule keyslot_create_succeeds [OF sd(2) pw len])
  note c = keyslot_create_spec [OF k(1) len] and u = keyslot_unwrap_created [OF k(1) len]
  show ?thesis
    by (rule that [where dek = dek and k = k and p = p2]) (use m rd r sd(1) k len c(2) u in \<open>simp_all add: fs_keyslot_install_def Let_def KEYSLOT_KEY_LEN_def\<close>)
qed

lemma reopen:
  assumes inv: "fs_inv E plat s" "boot_synced E plat s" and k: "keyslot_is_present (super_slot s)" "keyslot_unwrap (super_slot s) pw = Some (Inr dek)"
    and med: "plat (world (disk s)) = view plat (disk s)" and mem: "\<forall>n. kmalloc_ok K n"
  shows "\<exists>u behind. init_fs E K s = Some (u, behind) \<and> fs_inv E plat u \<and> fs_abs E plat u = fs_abs E plat s \<and>
    (\<forall>sec pool. fs_keyslot_unlock \<lparr>kfs_fs = u, kfs_sec = sec, kfs_pool = pool\<rparr> pw =
       Some (None, \<lparr>kfs_fs = u, kfs_sec = install_master_key dek sec, kfs_pool = pool\<rparr>))"
proof -
  obtain u behind where u: "init_fs E K s = Some (u, behind)" "fs_mounted u" "fs_inv E plat u" "fs_abs E plat u = fs_abs E plat s" "fs_super u = fs_super s"
    using remount [OF inv mem, of s] med by auto
  have "super_slot u = super_slot s" using u(5) by (simp add: super_slot_def)
  then show ?thesis using u k by (simp add: fs_keyslot_unlock_def)
qed

subsection \<open>Properties\<close>

text \<open>
  Round trip (C3): once a passphrase has been installed on a mounted disk, the files are as before and the data
  key is in use; after a reboot the disk mounts with the same files and the passphrase, and every passphrase
  that replaced it by \<^verbatim>\<open>fs_keyslot_rewrap\<close>, brings back the same data key.
\<close>

theorem passphrase_life_cycle:
  assumes "fs_inv E plat (kfs_fs s)" "boot_synced E plat (kfs_fs s)" "fs_mounted (kfs_fs s)" "seeded (kfs_pool s)"
    and "passphrase_is_usable pw" "passphrase_is_usable new" "sec_level (kfs_sec s) < SEC_LEVEL_IMMUTABLE" "\<forall>n. kmalloc_ok K n"
  shows "\<exists>s1 s2 dek. fs_keyslot_install E rd s pw = Some (None, s1) \<and> kernel_master_key (kfs_sec s1) = dek \<and>
    fs_keyslot_rewrap E rd1 rd2 junk s1 pw new = Some (None, s2) \<and>
    (\<forall>(v, phrase) \<in> {(s1, pw), (s2, new)}.
      \<exists>u behind. init_fs E K (kfs_fs v) = Some (u, behind) \<and> fs_inv E plat u \<and> fs_abs E plat u = fs_abs E plat (kfs_fs s) \<and>
        (\<forall>sec pool. fs_keyslot_unlock \<lparr>kfs_fs = u, kfs_sec = sec, kfs_pool = pool\<rparr> phrase =
           Some (None, \<lparr>kfs_fs = u, kfs_sec = install_master_key dek sec, kfs_pool = pool\<rparr>)))"
proof -
  let ?f = "\<lambda>k t. cache_flush E (save_superblock E (set_super_slot k t))"
  obtain dek k p where i: "fs_keyslot_install E rd s pw = Some (None, s\<lparr>kfs_fs := ?f k (kfs_fs s), kfs_sec := install_master_key dek (kfs_sec s), kfs_pool := p\<rparr>)"
    "length dek = 32" "slot_wf k" "keyslot_is_present k" "keyslot_unwrap k pw = Some (Inr dek)" "seeded p"
    by (rule install_succeeds [OF assms(3-5)])
  define s1 where "s1 = s\<lparr>kfs_fs := ?f k (kfs_fs s), kfs_sec := install_master_key dek (kfs_sec s), kfs_pool := p\<rparr>"
  note a = slot_saved [OF assms(1,2) i(3)]
  have len: "length dek = KEYSLOT_KEY_LEN" using i(2) by (simp add: KEYSLOT_KEY_LEN_def)
  obtain k2 p2 where k2: "keyslot_create rd1 rd2 p junk new dek = Some (None, k2, p2)" by (rule keyslot_create_succeeds [OF i(6) assms(6) len])
  note c = keyslot_create_spec [OF k2 len] and w = keyslot_unwrap_created [OF k2 len]
  define s2 where "s2 = s1\<lparr>kfs_fs := ?f k2 (kfs_fs s1), kfs_pool := p2\<rparr>"
  have rw: "fs_keyslot_rewrap E rd1 rd2 junk s1 pw new = Some (None, s2)"
    using a(4,5) assms(3,7) i(4,5) k2 by (simp add: fs_keyslot_rewrap_def s1_def s2_def install_master_key_def Let_def)
  note b = slot_saved [OF a(1,2) c(2)]
  have key: "kernel_master_key (kfs_sec s1) = dek" using i(2) by (simp add: s1_def install_master_key_def)
  have r1: "\<exists>u behind. init_fs E K (kfs_fs s1) = Some (u, behind) \<and> fs_inv E plat u \<and> fs_abs E plat u = fs_abs E plat (kfs_fs s) \<and>
      (\<forall>sec pool. fs_keyslot_unlock \<lparr>kfs_fs = u, kfs_sec = sec, kfs_pool = pool\<rparr> pw = Some (None, \<lparr>kfs_fs = u, kfs_sec = install_master_key dek sec, kfs_pool = pool\<rparr>))"
    using reopen [OF a(1,2) _ _ a(6) assms(8), of pw dek] a(3,4) i(4,5) by (simp add: s1_def)
  have r2: "\<exists>u behind. init_fs E K (kfs_fs s2) = Some (u, behind) \<and> fs_inv E plat u \<and> fs_abs E plat u = fs_abs E plat (kfs_fs s) \<and>
      (\<forall>sec pool. fs_keyslot_unlock \<lparr>kfs_fs = u, kfs_sec = sec, kfs_pool = pool\<rparr> new = Some (None, \<lparr>kfs_fs = u, kfs_sec = install_master_key dek sec, kfs_pool = pool\<rparr>))"
    using reopen [OF b(1,2) _ _ b(6) assms(8), of new dek] b(3,4) a(3) w by (simp add: s1_def s2_def)
  show ?thesis using i(1) [folded s1_def] key rw r1 r2 by blast
qed

theorem passphrase_life_cycle_witness:
  "\<exists>(s :: mem_disk kfs) s1 s2. fs_keyslot_install mem_env ((False, []), (False, []), (False, [])) s (Some [97]) = Some (None, s1) \<and>
    fs_keyslot_rewrap mem_env (False, []) (False, []) (decode_keyslot (replicate 116 0)) s1 (Some [97]) (Some [98]) = Some (None, s2)"
proof -
  obtain f where f: "fs_mounted f" "fs_inv mem_env (\<lambda>w. w) f" "boot_synced mem_env (\<lambda>w. w) f"
    using blank_mounts [OF mem_blank_device(1,2) _ _ mem_blank_device(4,5), of mem_blank] mem_blank_device(3) by (auto simp: zero_sector_def)
  let ?s = "mem_kfs\<lparr>kfs_fs := f\<rparr>"
  have "fs_inv mem_env (\<lambda>w. w) (kfs_fs ?s)" "boot_synced mem_env (\<lambda>w. w) (kfs_fs ?s)" "fs_mounted (kfs_fs ?s)" "seeded (kfs_pool ?s)"
    "sec_level (kfs_sec ?s) < SEC_LEVEL_IMMUTABLE"
    using f by (simp_all add: mem_kfs_def install_master_key_def sec_boot_def)
  moreover have "passphrase_is_usable (Some [97])" "passphrase_is_usable (Some [98])"
    by (simp_all add: passphrase_is_usable_def cstr_def KEYSLOT_MAX_PASSPHRASE_def)
  ultimately show ?thesis
    using passphrase_life_cycle [of mem_env "\<lambda>w. w" ?s "Some [97]" "Some [98]" mem_rt "((False, []), (False, []), (False, []))"
        "(False, [])" "(False, [])" "decode_keyslot (replicate 116 0)"] mem_blank_device(5) by blast
qed

end
