(* ===== verification/Refuse.thy ===== *)
theory Refuse
  imports Mount
begin

text \<open>
  \<^verbatim>\<open>init_fs\<close> on a disk that may fail at any request: as long as nothing is mounted and the head of the disk
  is not blank, the medium is not written to.  Only reads happen, and a read through a cache without dirty
  slots changes nothing on the medium.
\<close>

definition unwritten :: "'w fs_env \<Rightarrow> ('w \<Rightarrow> dev_ptr \<Rightarrow> u32 \<Rightarrow> u8 list) \<Rightarrow> (dev_ptr \<Rightarrow> u32 \<Rightarrow> u8 list) \<Rightarrow> 'w bcache \<Rightarrow> bool" where
  "unwritten E plat m d \<longleftrightarrow> driver_ok (devs E) plat \<and> bcache_inv plat d \<and> dirty_slots d = {} \<and> plat (world d) = m"

lemma fewer_none: "fewer_dirty s t \<Longrightarrow> dirty_slots s = {} \<Longrightarrow> dirty_slots t = {}"
  by (auto simp: fewer_dirty_def dirty_slots_def)

lemma read_no_dirty:
  assumes inv: "bcache_inv plat s" and drv: "driver_ok dv plat" and cl: "dirty_slots s = {}"
    and r: "bcache_read_sector dv s d l buf = (st, buf', t)"
  shows "dirty_slots t = {}"
proof (cases "blockdev_check_read dv d l buf \<noteq> None \<or> sector_size (dv d) \<noteq> 512")
  case True
  then have "t = s" using r by (auto simp: bcache_read_sector_def split: option.splits)
  then show ?thesis using cl by simp
next
  case chk: False
  define s1 where "s1 = s\<lparr>bcache_ticks := bcache_ticks s + 1\<rparr>"
  have inv1: "bcache_inv plat s1" "dirty_slots s1 = {}" using inv cl by (simp_all add: s1_def)
  note len1 = bcache_invD(1) [OF inv1(1)]
  show ?thesis
  proof (cases "lookup_slot s1 d l")
    case (Some i)
    then have "t = upd_slot i (last_access_update (\<lambda>_. bcache_ticks s1)) s1"
      using r chk by (auto simp: bcache_read_sector_def s1_def [symmetric] Let_def)
    then show ?thesis using inv1(2) len1 lookup_SomeD [OF Some] by (auto simp: dirty_slots_def upd_slot_def nth_list_update)
  next
    case miss: None
    obtain g s2 where lru: "bcache_get_lru_slot dv s1 = (g, s2)" by fastforce
    have d2: "dirty_slots s2 = {}" using fewer_none [OF get_lru_fewer [OF len1 lru]] inv1(2) .
    have len2: "length (cache s2) = BCACHE_SIZE" using get_lru_spec [OF inv1(1) drv lru] bcache_invD(1) by blast
    have r': "(case g of None \<Rightarrow> (Some E_IO, buf, s2)
        | Some i \<Rightarrow> (case blockdev_read dv (world s2) d l (Some (data (cache s2 ! i))) of (st, b, w) \<Rightarrow>
            let s3 = upd_slot i (data_update (\<lambda>_. the b)) (s2\<lparr>world := w\<rparr>) in
            if st \<noteq> None then (st, Some zero_sector, upd_slot i (is_valid_update (\<lambda>_. False)) s3)
            else let s4 = mark_clean i (upd_slot i (\<lambda>n. n\<lparr>dev := d, sector := l, is_valid := True, last_access := bcache_ticks s3\<rparr>) s3)
                 in (None, Some (data (cache s4 ! i)), s4))) = (st, buf', t)"
      using r chk miss lru by (simp add: bcache_read_sector_def s1_def [symmetric] Let_def)
    show ?thesis
    proof (cases g)
      case None
      then show ?thesis using r' d2 by simp
    next
      case (Some i)
      obtain st' b' w where rd: "blockdev_read dv (world s2) d l (Some (data (cache s2 ! i))) = (st', b', w)" by (metis prod_cases3)
      have "i < BCACHE_SIZE" using get_lru_spec [OF inv1(1) drv lru] Some by simp
      then show ?thesis using r' Some rd d2 len2
        by (auto simp: Let_def dirty_slots_def mark_clean_def upd_slot_def nth_list_update split: if_splits)
    qed
  qed
qed

lemma unwritten_read:
  assumes u: "unwritten E plat m d" and r: "bcache_read_sector (devs E) d dp l buf = (st, b, d')"
  shows "unwritten E plat m d'" "st = None \<Longrightarrow> b = Some (m dp l)"
proof -
  have i: "bcache_inv plat d" "driver_ok (devs E) plat" "dirty_slots d = {}" "plat (world d) = m" using u by (simp_all add: unwritten_def)
  have v: "view plat d = m" using no_dirty_platter [OF i(1,3)] i(4) by simp
  note sp = bcache_read_spec [OF i(1,2) r]
  have "dirty_slots d' = {}" by (rule read_no_dirty [OF i(1-3) r])
  moreover from this have "plat (world d') = m" using no_dirty_platter [of plat d'] sp v by simp
  ultimately show "unwritten E plat m d'" using sp i by (simp add: unwritten_def)
  show "st = None \<Longrightarrow> b = Some (m dp l)" using sp v by simp
qed

lemma unwritten_root_read:
  assumes "unwritten E plat m (disk s)" "root_read E s l = (st, b, s')"
  shows "unwritten E plat m (disk s')" "st = None \<Longrightarrow> b = m (root E) l" "fs_mounted s' = fs_mounted s"
proof -
  obtain st1 b1 d where r: "bcache_read_sector (devs E) (disk s) (root E) l (Some (stack_junk E)) = (st1, b1, d)" by (metis prod_cases3)
  then show "unwritten E plat m (disk s')" "st = None \<Longrightarrow> b = m (root E) l" "fs_mounted s' = fs_mounted s"
    using assms(2) unwritten_read [OF assms(1) r] by (auto simp: root_read_def)
qed

lemma unwritten_fs_read:
  assumes "unwritten E plat m (disk s)" "fs_read_sector E s l buf = (st, b, s')"
  shows "unwritten E plat m (disk s')" "fs_mounted s' = fs_mounted s"
proof -
  obtain st1 b1 d where r: "bcache_read_sector (devs E) (disk s) (root E) (fs_part_start s + l) (Some buf) = (st1, b1, d)" by (metis prod_cases3)
  then show "unwritten E plat m (disk s')" "fs_mounted s' = fs_mounted s"
    using assms(2) unwritten_read [OF assms(1) r] by (auto simp: fs_read_sector_def)
qed

lemma unwritten_blank_scan:
  assumes "unwritten E plat m (disk s)" "blank_scan E ls s = (r, s')"
  shows "unwritten E plat m (disk s') \<and> fs_mounted s' = fs_mounted s \<and> (r = Inr True \<longrightarrow> (\<forall>l \<in> set ls. \<forall>i < 512. m (root E) l ! i = 0))"
  using assms
proof (induction ls arbitrary: s)
  case (Cons l ls)
  obtain st b s1 where rd: "root_read E s l = (st, b, s1)" by (metis prod_cases3)
  note u = unwritten_root_read [OF Cons.prems(1) rd]
  show ?case
  proof (cases "st = None \<and> \<not> (\<exists>i < 512. b ! i \<noteq> 0)")
    case True
    then have "blank_scan E (l # ls) s = blank_scan E ls s1" using rd by auto
    then have "blank_scan E ls s1 = (r, s')" using Cons.prems(2) by simp
    from Cons.IH [OF u(1) this] show ?thesis using True u(2,3) by auto
  next
    case False
    then show ?thesis using Cons.prems(2) rd u by (auto split: option.splits if_splits)
  qed
qed auto

lemma unwritten_load_dir:
  assumes "unwritten E plat m (disk s)" "load_dir E tot is mem s = (ok, mem', s')"
  shows "unwritten E plat m (disk s') \<and> fs_mounted s' = fs_mounted s"
  using assms
proof (induction "is" arbitrary: mem s)
  case (Cons i "is")
  obtain st b s1 where rd: "fs_read_sector E s (dir_start (fs_super s) + of_nat i) (stack_junk E) = (st, b, s1)" by (metis prod_cases3)
  note u = unwritten_fs_read [OF Cons.prems(1) rd]
  show ?case
  proof (cases "st = None")
    case True
    then show ?thesis using Cons.IH [OF u(1)] Cons.prems(2) rd u(2) by (simp add: Let_def)
  next
    case False
    then show ?thesis using Cons.prems(2) rd u by auto
  qed
qed auto

lemma unwritten_load_fat:
  assumes "unwritten E plat m (disk s)" "load_fat E is mem s = (ok, mem', s')"
  shows "unwritten E plat m (disk s') \<and> fs_mounted s' = fs_mounted s"
  using assms
proof (induction "is" arbitrary: mem s)
  case (Cons i "is")
  obtain st b s1 where rd: "fs_read_sector E s (fat_start (fs_super s) + of_nat i) (take 512 (drop (i * 512) mem)) = (st, b, s1)" by (metis prod_cases3)
  note u = unwritten_fs_read [OF Cons.prems(1) rd]
  show ?case
  proof (cases "st = None")
    case True
    then show ?thesis using Cons.IH [OF u(1)] Cons.prems(2) rd u(2) by (simp add: Let_def)
  next
    case False
    then show ?thesis using Cons.prems(2) rd u by (auto simp: Let_def)
  qed
qed auto

lemma save_fat_mounted: "fs_mounted (save_fat_to_disk E s) = fs_mounted s"
  by simp

lemma unwritten_load_tables:
  assumes u: "unwritten E plat m (disk s)" and l: "load_tables E s = (t, behind)" and nm: "\<not> fs_mounted t" "\<not> fs_mounted s"
  shows "unwritten E plat m (disk t)"
proof -
  let ?tot = "unat (ucast (entry_size (fs_super s)) * max_entries (fs_super s) :: u32)"
  obtain ok1 m1 s1 where d: "load_dir E ?tot [0..<(?tot + 511) div 512] (encode_table (dir_table s)) s = (ok1, m1, s1)" by (metis prod_cases3)
  define s2 where "s2 = s1\<lparr>dir_table := decode_table (length (dir_table s)) m1\<rparr>"
  have u2: "unwritten E plat m (disk s2)" using unwritten_load_dir [OF u d] by (simp add: s2_def)
  obtain ok2 m2 s3 where f: "load_fat E [0..<unat ((fs_total_clusters s2 * 4 + 511) div 512)]
      (concat (map le32 (file_allocation_table s2)) @ heap_after_fat E) s2 = (ok2, m2, s3)" by (metis prod_cases3)
  have u3: "unwritten E plat m (disk s3)" using unwritten_load_fat [OF u2 f] by simp
  show ?thesis using l nm(1) u2 u3 unfolding load_tables_def Let_def d prod.case s2_def [symmetric] f
    by (auto simp: fs_tables_free_def split: if_splits)
qed
lemma unwritten_load_superblock:
  assumes "unwritten E plat m (disk s)" "load_superblock E s = (r, s')"
  shows "unwritten E plat m (disk s')" "fs_mounted s' = fs_mounted s"
proof -
  obtain st b s1 where rd: "fs_read_sector E s 0 (stack_junk E) = (st, b, s1)" by (metis prod_cases3)
  show "unwritten E plat m (disk s')" "fs_mounted s' = fs_mounted s"
    using assms(2) unwritten_fs_read [OF assms(1) rd] by (auto simp: load_superblock_def rd Let_def split: if_splits)
qed

lemma unwritten_load_partition:
  assumes "unwritten E plat m (disk s)" "load_partition E s n = (r, s')"
  shows "unwritten E plat m (disk s')" "fs_mounted s' = fs_mounted s"
proof -
  obtain st b s1 where rd: "root_read E s 0 = (st, b, s1)" by (metis prod_cases3)
  show "unwritten E plat m (disk s')" "fs_mounted s' = fs_mounted s"
    using assms(2) unwritten_root_read [OF assms(1) rd] by (auto simp: load_partition_def rd Let_def split: if_splits option.splits)
qed

lemma tables_alloc_disk: "fs_tables_alloc K s a b = (r, s') \<Longrightarrow> disk s' = disk s \<and> fs_mounted s' = fs_mounted s"
  by (auto simp: fs_tables_alloc_def fs_tables_free_def Let_def split: if_splits)

lemma found_unwritten:
  assumes u: "unwritten E plat m (disk s)" "\<not> fs_mounted s"
    and r: "(case load_superblock E s of (False, s2) \<Rightarrow> Some (s2, h)
        | (True, s2) \<Rightarrow> (case fs_tables_alloc K s2 (max_entries (fs_super s2)) (total_clusters (fs_super s2)) of
            (Some _, s3) \<Rightarrow> Some (s3, h) | (None, s3) \<Rightarrow> Some (load_tables E s3))) = Some (t, behind)"
    and nm: "\<not> fs_mounted t"
  shows "unwritten E plat m (disk t)"
proof -
  obtain ok s2 where l: "load_superblock E s = (ok, s2)" by fastforce
  note u2 = unwritten_load_superblock [OF u(1) l]
  obtain st s3 where a: "fs_tables_alloc K s2 (max_entries (fs_super s2)) (total_clusters (fs_super s2)) = (st, s3)" by fastforce
  note d3 = tables_alloc_disk [OF a]
  show ?thesis
  proof (cases "ok \<and> st = None")
    case True
    then have "load_tables E s3 = (t, behind)" using r l a by simp
    then show ?thesis using unwritten_load_tables nm d3 u2 u(2) by metis
  next
    case False
    then have "t = s2 \<or> t = s3" using r l a by (auto split: bool.splits option.splits)
    then show ?thesis using u2 d3 by auto
  qed
qed

subsection \<open>Properties\<close>

text \<open>
  Safety (C2): whatever the devices do, refuse, or return in error, a call of \<^verbatim>\<open>init_fs\<close> that does not end
  with a mounted file system leaves the medium exactly as it was, unless the first 200 sectors of the disk hold
  nothing but zeros: no other disk is ever formatted or written to by mistake.
\<close>

theorem foreign_disk_untouched:
  assumes "driver_ok (devs E) plat" "init_fs E K t = Some (u, behind)" "\<not> fs_mounted u"
    and "l < 200" "i < 512" "plat (world (disk t)) (root E) l ! i \<noteq> 0"
  shows "plat (world (disk u)) = plat (world (disk t))"
proof -
  let ?m = "plat (world (disk t))"
  define s0 where "s0 = fs_tables_free (t\<lparr>disk := bcache_init (disk t), fs_mounted := False, fs_part_start := 0, fs_total_clusters := 0\<rparr>)"
  have u0: "unwritten E plat ?m (disk s0)" "\<not> fs_mounted s0"
    using assms(1) bcache_init_spec [of plat "disk t"] by (auto simp: s0_def unwritten_def fs_tables_free_def dirty_slots_def bcache_init_def)
  let ?n = "if root E = 0 then 0 else sector_count (devs E (root E))"
  have "unwritten E plat ?m (disk u)"
  proof (cases "?n \<le> FS_PART_START_LBA + FS_DATA_START_SECTOR")
    case True
    then show ?thesis using assms(2) u0 unfolding init_fs_def Let_def s0_def [symmetric] by simp
  next
    case big: False
    obtain pr s1 where p: "load_partition E s0 ?n = (pr, s1)" by fastforce
    note u1 = unwritten_load_partition [OF u0(1) p]
    show ?thesis
    proof (cases pr)
      case Part_unreadable
      then show ?thesis using assms(2) big p u1 unfolding init_fs_def Let_def s0_def [symmetric] by simp
    next
      case Part_found
      show ?thesis
        by (rule found_unwritten [of E plat ?m "s1\<lparr>fs_total_clusters := clusters_that_fit (fs_max_sectors s1)\<rparr>" "heap_after_fat E" K u behind])
          (use assms(2,3) big p u1 u0(2) Part_found in \<open>simp_all add: init_fs_def Let_def s0_def [symmetric]\<close>)
    next
      case Part_none
      obtain st b s2 where r2: "root_read E s1 0 = (st, b, s2)" by (metis prod_cases3)
      note u2 = unwritten_root_read [OF u1(1) r2]
      obtain br s3 where r3: "disk_region_is_blank E s2 0 (FS_PART_START_LBA + FS_LEGACY_DIR_SECTORS) = (br, s3)" by fastforce
      have u3: "unwritten E plat ?m (disk s3)" "br \<noteq> Inr True"
      proof -
        note sc = unwritten_blank_scan [OF u2(1) r3 [unfolded disk_region_is_blank_def]]
        show "unwritten E plat ?m (disk s3)" using sc by simp
        have "l \<in> set (map (\<lambda>i. 0 + of_nat i) [0..<unat (FS_PART_START_LBA + FS_LEGACY_DIR_SECTORS)])"
          using assms(4) by (auto simp: FS_PART_START_LBA_def FS_LEGACY_DIR_SECTORS_def word_less_nat_alt image_iff intro!: bexI [of _ "unat l"])
        then show "br \<noteq> Inr True" using sc assms(5,6) by blast
      qed
      obtain st4 b4 s4 where r4: "root_read E s3 0 = (st4, b4, s4)" by (metis prod_cases3)
      note u4 = unwritten_root_read [OF u3(1) r4]
      show ?thesis using assms(2) big p Part_none r2 r3 r4 u2(1) u3 u4(1) unfolding init_fs_def Let_def s0_def [symmetric]
        by (auto split: option.splits if_splits sum.splits bool.splits)
    qed
  qed
  then show ?thesis by (simp add: unwritten_def)
qed

definition mem_foreign :: "mem_disk fs_state" where
  "mem_foreign = mem_blank\<lparr>disk := (disk mem_blank)\<lparr>world := (\<lambda>_ _. replicate 512 7)\<rparr>\<rparr>"

theorem foreign_disk_untouched_witness:
  "\<exists>u behind. init_fs mem_env mem_rt mem_foreign = Some (u, behind) \<and> \<not> fs_mounted u \<and> world (disk u) = world (disk mem_foreign)"
proof -
  let ?t0 = "fs_tables_free (mem_foreign\<lparr>disk := bcache_init (disk mem_foreign), fs_mounted := False, fs_part_start := 0, fs_total_clusters := 0\<rparr>)"
  let ?b = "replicate 512 7 :: u8 list"
  have "fs_ok mem_env (\<lambda>w. w) mem_blank" using mem_blank_disk by (simp add: disk_inv_def)
  then have dk: "disk_ok mem_env (\<lambda>w. w) (disk mem_blank)" by (simp add: fs_ok_disk_ok)
  have env: "root mem_env = 1" "disk_count mem_env = 1000" "driver_ok (devs mem_env) (\<lambda>w. w)"
    using dk by (simp_all add: mem_env_def mem_devs_def disk_ok_def)
  have rd: "\<exists>d. root_read mem_env (s\<lparr>disk := c\<rparr>) 0 = (None, ?b, s\<lparr>disk := d\<rparr>) \<and> disk_ok mem_env (\<lambda>w. w) d \<and> view (\<lambda>w. w) d 1 = (\<lambda>_. ?b)"
    if c: "disk_ok mem_env (\<lambda>w. w) c" "view (\<lambda>w. w) c 1 = (\<lambda>_. ?b)" for s :: "mem_disk fs_state" and c
  proof -
    obtain d where "root_read mem_env (s\<lparr>disk := c\<rparr>) 0 = (None, view (\<lambda>w. w) (disk (s\<lparr>disk := c\<rparr>)) (root mem_env) 0, s\<lparr>disk := c, disk := d\<rparr>)"
      "disk_ok mem_env (\<lambda>w. w) d" "view (\<lambda>w. w) d (root mem_env) = view (\<lambda>w. w) (disk (s\<lparr>disk := c\<rparr>)) (root mem_env)"
      by (rule root_read_ok [of mem_env "\<lambda>w. w" "s\<lparr>disk := c\<rparr>" 0]) (use c env in simp_all)
    then show ?thesis using c env by auto
  qed
  have c0: "disk_ok mem_env (\<lambda>w. w) (bcache_init (disk mem_foreign))" "view (\<lambda>w. w) (bcache_init (disk mem_foreign)) 1 = (\<lambda>_. ?b)"
    using fresh_cache_ok [OF dk] by (simp_all add: mem_foreign_def)
  define s where "s = fs_tables_free (mem_foreign\<lparr>fs_mounted := False, fs_part_start := 0, fs_total_clusters := 0\<rparr>)"
  have t0: "?t0 = s\<lparr>disk := bcache_init (disk mem_foreign)\<rparr>" "\<not> fs_mounted s" by (simp_all add: s_def fs_tables_free_def)
  obtain d1 where d1: "root_read mem_env ?t0 0 = (None, ?b, s\<lparr>disk := d1\<rparr>)" "disk_ok mem_env (\<lambda>w. w) d1" "view (\<lambda>w. w) d1 1 = (\<lambda>_. ?b)"
    using rd [OF c0, of s] t0 by auto
  obtain d2 where d2: "root_read mem_env (s\<lparr>disk := d1\<rparr>) 0 = (None, ?b, s\<lparr>disk := d2\<rparr>)" "disk_ok mem_env (\<lambda>w. w) d2" "view (\<lambda>w. w) d2 1 = (\<lambda>_. ?b)"
    using rd [OF d1(2,3)] by blast
  obtain d3 where d3: "root_read mem_env (s\<lparr>disk := d2\<rparr>) 0 = (None, ?b, s\<lparr>disk := d3\<rparr>)" "disk_ok mem_env (\<lambda>w. w) d3" "view (\<lambda>w. w) d3 1 = (\<lambda>_. ?b)"
    using rd [OF d2(2,3)] by blast
  obtain d4 where d4: "root_read mem_env (s\<lparr>disk := d3\<rparr>) 0 = (None, ?b, s\<lparr>disk := d4\<rparr>)" using rd [OF d3(2,3)] by blast
  have sig: "signature (decode_mbr ?b) \<noteq> MBR_SIGNATURE" "of_le32 ?b \<noteq> FS_SUPER_MAGIC"
    by (simp_all add: decode_mbr_def of_le16_def of_le32_def MBR_SIGNATURE_def FS_SUPER_MAGIC_def)
  have nz: "\<exists>i < 512. ?b ! i \<noteq> 0" by (rule exI [of _ 0]) simp
  have lp: "load_partition mem_env ?t0 1000 = (Part_none, s\<lparr>disk := d1\<rparr>)" using d1(1) sig(1) by (simp add: load_partition_def)
  have "map (\<lambda>i. 0 + of_nat i :: u32) [0..<unat (FS_PART_START_LBA + FS_LEGACY_DIR_SECTORS)] =
      0 # map (\<lambda>i. 0 + of_nat i) [1..<unat (FS_PART_START_LBA + FS_LEGACY_DIR_SECTORS)]"
    by (simp add: FS_PART_START_LBA_def FS_LEGACY_DIR_SECTORS_def upt_conv_Cons)
  then have bl: "disk_region_is_blank mem_env (s\<lparr>disk := d2\<rparr>) 0 (FS_PART_START_LBA + FS_LEGACY_DIR_SECTORS) = (Inr False, s\<lparr>disk := d3\<rparr>)"
    using d3(1) nz unfolding disk_region_is_blank_def by simp
  have "init_fs mem_env mem_rt mem_foreign = Some (s\<lparr>disk := d4\<rparr>, heap_after_fat mem_env)"
    unfolding init_fs_def Let_def using lp d2(1) sig(2) bl d4 env
    by (simp add: FS_PART_START_LBA_def FS_DATA_START_SECTOR_def)
  moreover from foreign_disk_untouched [OF env(3) this, of 0 0] t0(2)
  have "world (disk (s\<lparr>disk := d4\<rparr>)) = world (disk mem_foreign)" by (simp add: mem_foreign_def)
  ultimately show ?thesis using t0(2) by auto
qed

end
