(* ===== verification/Paging.thy ===== *)
theory Paging
  imports Pmm
begin

text \<open>
  The virtual memory manager, \<^verbatim>\<open>mm/paging.c\<close>, without the copy-on-write half, which is in the
  theory Cow.  Physical memory is a function from the address of a frame to its 1024 words.
  The kernel reaches its page tables through the recursive slot of the directory in CR3, and
  the model does the same: \<open>walk\<close> is the two-level translation the processor performs, and
  \<open>pd_virt\<close> and \<open>pt_virt\<close> read through it at the addresses the code uses.  The translation
  lookaside buffer is not modelled, because every change of a live entry is followed by its
  \<^verbatim>\<open>invlpg\<close>; interrupt masking and log lines are not either.  A kernel access to a page that is
  not present would be a panic; the invariant of the theory Spaces rules it out.
\<close>

subsection \<open>The machine\<close>

record machine =
  ram :: "u32 \<Rightarrow> nat \<Rightarrow> u32"
  cr3 :: u32
  page_frames :: pmm_state
  page_directory :: u32
  device_window_next :: u32

definition RECURSIVE_PD_VADDR :: u32 where "RECURSIVE_PD_VADDR = 0xFFFFF000"
definition RECURSIVE_PT_VADDR :: u32 where "RECURSIVE_PT_VADDR = 0xFFC00000"
definition TEMP_MAP_VADDR :: u32 where "TEMP_MAP_VADDR = 0xE0000000"
definition DEVICE_WINDOW_BASE :: u32 where "DEVICE_WINDOW_BASE = 0xE5000000"
definition DEVICE_WINDOW_END :: u32 where "DEVICE_WINDOW_END = 0xF0000000"
definition PAGE_KERNEL_ONLY :: u32 where "PAGE_KERNEL_ONLY = 3"
definition PAGE_USER_ACCESS :: u32 where "PAGE_USER_ACCESS = 7"
definition PAGE_NOT_PRESENT :: u32 where "PAGE_NOT_PRESENT = 2"
definition PAGE_KERNEL_MMIO :: u32 where "PAGE_KERNEL_MMIO = 0x1B"
definition PAGE_COW :: u32 where "PAGE_COW = 0x200"

text \<open>The fields of an entry and of an address.\<close>

definition base :: "u32 \<Rightarrow> u32" where
  "base w = w AND 0xFFFFF000"

definition present :: "u32 \<Rightarrow> bool" where
  "present w \<longleftrightarrow> w AND 1 \<noteq> 0"

definition pd_index :: "u32 \<Rightarrow> nat" where
  "pd_index v = unat (drop_bit 22 v)"

definition pt_index :: "u32 \<Rightarrow> nat" where
  "pt_index v = unat (drop_bit 12 v AND 0x3FF)"

text \<open>The frame the processor finds behind a virtual page, and the words of that page.\<close>

definition walk :: "'a machine_scheme \<Rightarrow> u32 \<Rightarrow> u32" where
  "walk m v = base (ram m (base (ram m (base (cr3 m)) (pd_index v))) (pt_index v))"

definition vword :: "'a machine_scheme \<Rightarrow> u32 \<Rightarrow> nat \<Rightarrow> u32" where
  "vword m v i = ram m (walk m v) i"

definition set_word :: "u32 \<Rightarrow> nat \<Rightarrow> u32 \<Rightarrow> 'a machine_scheme \<Rightarrow> 'a machine_scheme" where
  "set_word f i w m = m\<lparr>ram := (ram m)(f := (ram m f)(i := w))\<rparr>"

definition set_vword :: "u32 \<Rightarrow> nat \<Rightarrow> u32 \<Rightarrow> 'a machine_scheme \<Rightarrow> 'a machine_scheme" where
  "set_vword v i w m = set_word (walk m v) i w m"

definition pt_vaddr :: "nat \<Rightarrow> u32" where
  "pt_vaddr d = RECURSIVE_PT_VADDR + of_nat d * 4096"

definition pd_virt :: "'a machine_scheme \<Rightarrow> nat \<Rightarrow> u32" where
  "pd_virt m d = vword m RECURSIVE_PD_VADDR d"

definition pt_virt :: "'a machine_scheme \<Rightarrow> nat \<Rightarrow> nat \<Rightarrow> u32" where
  "pt_virt m d t = vword m (pt_vaddr d) t"

definition set_pd :: "nat \<Rightarrow> u32 \<Rightarrow> 'a machine_scheme \<Rightarrow> 'a machine_scheme" where
  "set_pd d w m = set_vword RECURSIVE_PD_VADDR d w m"

definition set_pt :: "nat \<Rightarrow> nat \<Rightarrow> u32 \<Rightarrow> 'a machine_scheme \<Rightarrow> 'a machine_scheme" where
  "set_pt d t w m = set_vword (pt_vaddr d) t w m"

text \<open>The frame allocator as the callers use it, on the machine.\<close>

definition alloc_frame :: "'a machine_scheme \<Rightarrow> u32 \<times> 'a machine_scheme" where
  "alloc_frame m = (let (a, p) = pmm_alloc_frame (page_frames m) in (a, m\<lparr>page_frames := p\<rparr>))"

definition free_frame :: "u32 \<Rightarrow> 'a machine_scheme \<Rightarrow> 'a machine_scheme" where
  "free_frame a m = m\<lparr>page_frames := pmm_free_frame (page_frames m) a\<rparr>"

definition ref_frame :: "u32 \<Rightarrow> 'a machine_scheme \<Rightarrow> 'a machine_scheme" where
  "ref_frame a m = m\<lparr>page_frames := pmm_ref (page_frames m) a\<rparr>"

subsection \<open>Mapping and unmapping\<close>

text \<open>The page table for an address: built when missing, opened to Ring 3 when it must be.\<close>

definition map_page_table :: "'a machine_scheme \<Rightarrow> nat \<Rightarrow> u32 \<Rightarrow> status \<times> 'a machine_scheme" where
  "map_page_table m d flags =
     (if \<not> present (pd_virt m d) then
        (let (new_table_phys, m1) = alloc_frame m in
         if new_table_phys = NO_FRAME then (Some E_NOMEM, m1)
         else (None, fold (\<lambda>i. set_pt d i 0) [0..<1024]
                 (set_pd d (new_table_phys OR
                    (if flags AND 4 \<noteq> 0 then PAGE_USER_ACCESS else PAGE_KERNEL_ONLY)) m1)))
      else if flags AND 4 \<noteq> 0 \<and> pd_virt m d AND 4 = 0 then (None, set_pd d (pd_virt m d OR 4) m)
      else (None, m))"

definition map_page :: "'a machine_scheme \<Rightarrow> u32 \<Rightarrow> u32 \<Rightarrow> u32 \<Rightarrow> status \<times> 'a machine_scheme" where
  "map_page m virtual_addr physical_addr flags =
     (let d = pd_index virtual_addr; t = pt_index virtual_addr in
      case map_page_table m d flags of
        (Some e, m1) \<Rightarrow> (Some e, m1)
      | (None, m1) \<Rightarrow>
          if present (pt_virt m1 d t) \<and> base (pt_virt m1 d t) \<noteq> base physical_addr then (Some E_BUSY, m1)
          else (None, set_pt d t (base physical_addr OR (flags AND 0xFFF)) m1))"

definition unmap_page :: "u32 \<Rightarrow> 'a machine_scheme \<Rightarrow> 'a machine_scheme" where
  "unmap_page virtual_addr m =
     (let d = pd_index virtual_addr; t = pt_index virtual_addr in
      if present (pd_virt m d) then set_pt d t 0 m else m)"

subsection \<open>Device windows\<close>

fun map_device_pages ::
  "'a machine_scheme \<Rightarrow> u32 \<Rightarrow> u32 \<Rightarrow> nat list \<Rightarrow> bool \<times> 'a machine_scheme" where
  "map_device_pages m vaddr phys_base [] = (True, m)"
| "map_device_pages m vaddr phys_base (k # ks) =
     (case map_page m (vaddr + of_nat k * 4096) (phys_base + of_nat k * 4096) PAGE_KERNEL_MMIO of
        (None, m1) \<Rightarrow> map_device_pages m1 vaddr phys_base ks
      | (Some e, m1) \<Rightarrow> (False, fold (\<lambda>j. unmap_page (vaddr + of_nat j * 4096)) [0..<k] m1))"

definition vmm_map_device :: "'a machine_scheme \<Rightarrow> u32 \<Rightarrow> u32 \<Rightarrow> u32 \<times> 'a machine_scheme" where
  "vmm_map_device m phys sz =
     (if sz = 0 then (0, m)
      else
        let page_offset = phys AND 0xFFF;
            phys_base = phys AND 0xFFFFF000;
            bytes = (page_offset + sz + 0xFFF) AND 0xFFFFF000;
            vaddr = device_window_next m in
        if bytes < sz then (0, m)
        else if DEVICE_WINDOW_END < vaddr + bytes \<or> vaddr + bytes < vaddr then (0, m)
        else case map_device_pages m vaddr phys_base [0..<unat bytes div 4096] of
               (False, m1) \<Rightarrow> (0, m1)
             | (True, m1) \<Rightarrow> (vaddr + page_offset, m1\<lparr>device_window_next := vaddr + bytes\<rparr>))"

subsection \<open>A directory for a new process\<close>

definition clone_entry :: "'a machine_scheme \<Rightarrow> u32 \<Rightarrow> nat \<Rightarrow> u32" where
  "clone_entry m new_pd_phys i =
     (if 768 \<le> i \<and> i < 1023 then (pd_virt m i AND NOT 4) OR PAGE_KERNEL_ONLY
      else if i = 1023 then new_pd_phys OR PAGE_KERNEL_ONLY
      else PAGE_NOT_PRESENT)"

definition clone_page_directory :: "'a machine_scheme \<Rightarrow> u32 \<times> 'a machine_scheme" where
  "clone_page_directory m =
     (let (new_pd_phys, m1) = alloc_frame m in
      if new_pd_phys = NO_FRAME then (0, m1)
      else case map_page m1 TEMP_MAP_VADDR new_pd_phys PAGE_KERNEL_ONLY of
             (Some e, m2) \<Rightarrow> (0, free_frame new_pd_phys m2)
           | (None, m2) \<Rightarrow>
               let m3 = fold (\<lambda>i m. set_vword TEMP_MAP_VADDR i (clone_entry m new_pd_phys i) m) [0..<1024] m2
               in (new_pd_phys, unmap_page TEMP_MAP_VADDR m3))"

subsection \<open>Bringing paging up\<close>

text \<open>
  \<open>early_fb_pde\<close> is the directory entry \<^verbatim>\<open>earlyfb.c\<close> made for the boot screen, 0 for none.  The
  boot mapping shows physical memory at \<^verbatim>\<open>0xC0000000\<close>, so the frames are written directly.
  Running out of frames is a kernel panic, \<open>None\<close>.
\<close>

definition boot_pte :: "nat \<Rightarrow> nat \<Rightarrow> u32" where
  "boot_pte i j =
     (if i < 4 then
        (let phys_addr = of_nat i * 0x400000 + of_nat j * 4096 in
         if phys_addr = 0 then PAGE_NOT_PRESENT else phys_addr OR PAGE_KERNEL_ONLY)
      else PAGE_NOT_PRESENT)"

fun init_kernel_tables ::
  "(nat \<Rightarrow> u32) \<Rightarrow> u32 \<Rightarrow> nat list \<Rightarrow> 'a machine_scheme \<Rightarrow> 'a machine_scheme option" where
  "init_kernel_tables early_fb_pde pd_phys [] m = Some m"
| "init_kernel_tables early_fb_pde pd_phys (i # is) m =
     (if early_fb_pde (768 + i) \<noteq> 0
      then init_kernel_tables early_fb_pde pd_phys is (set_word pd_phys (768 + i) (early_fb_pde (768 + i)) m)
      else
        let (pt_phys, m1) = alloc_frame m in
        if pt_phys = NO_FRAME then None
        else
          let m2 = fold (\<lambda>j. set_word pt_phys j (boot_pte i j)) [0..<1024] m1
          in init_kernel_tables early_fb_pde pd_phys is
               (set_word pd_phys (768 + i) (pt_phys OR PAGE_KERNEL_ONLY) m2))"

definition init_paging :: "(nat \<Rightarrow> u32) \<Rightarrow> 'a machine_scheme \<Rightarrow> 'a machine_scheme option" where
  "init_paging early_fb_pde m =
     (let (pd_phys, m1) = alloc_frame m in
      if pd_phys = NO_FRAME then None
      else
        let m2 = fold (\<lambda>i. set_word pd_phys i PAGE_NOT_PRESENT) [0..<1024] m1 in
        case init_kernel_tables early_fb_pde pd_phys [0..<1023 - 768] m2 of
          None \<Rightarrow> None
        | Some m3 \<Rightarrow> Some ((set_word pd_phys 1023 (pd_phys OR PAGE_KERNEL_ONLY) m3)
                           \<lparr>page_directory := pd_phys, cr3 := pd_phys\<rparr>))"

subsection \<open>Fields of words\<close>

lemma unat_drop: "unat (drop_bit n w :: u32) = unat w div 2 ^ n"
  unfolding unsigned_drop_bit_eq using unat_u32_less [of w] by (simp add: drop_bit_eq_div take_bit_eq_mod)

lemma pd_index_div: "pd_index v = unat v div 4194304"
  by (simp add: pd_index_def unat_drop)

lemma pt_index_mod: "pt_index v = unat v div 4096 mod 1024"
proof -
  have "(0x3FF :: u32) = mask 10" by (simp add: mask_eq_exp_minus_1)
  then have "drop_bit 12 v AND 0x3FF = take_bit 10 (drop_bit 12 v)" by (simp add: take_bit_eq_mask)
  then have "pt_index v = take_bit 10 (unat (drop_bit 12 v))"
    by (simp add: pt_index_def unsigned_take_bit_eq)
  then show ?thesis by (simp add: take_bit_eq_mod unat_drop)
qed

lemma pd_index_less [simp]: "pd_index v < 1024"
  using unat_u32_less [of v] by (simp add: pd_index_div)

lemma pt_index_less [simp]: "pt_index v < 1024"
  by (simp add: pt_index_mod)

lemma index_rec_pd [simp]: "pd_index RECURSIVE_PD_VADDR = 1023" "pt_index RECURSIVE_PD_VADDR = 1023"
  by (simp_all add: pd_index_div pt_index_mod RECURSIVE_PD_VADDR_def)

lemma unat_pt_vaddr: "d < 1024 \<Longrightarrow> unat (pt_vaddr d) = 0xFFC00000 + d * 4096"
  by (simp add: pt_vaddr_def RECURSIVE_PT_VADDR_def unat_word_ariths unat_of_nat)

lemma index_rec_pt [simp]:
  assumes "d < 1024"
  shows "pd_index (pt_vaddr d) = 1023" "pt_index (pt_vaddr d) = d"
proof -
  have "(1023 * 1024 + d) mod 1024 = d" unfolding mod_mult_self3 using assms by simp
  then have "(1047552 + d) mod 1024 = d" by simp
  then show "pd_index (pt_vaddr d) = 1023" "pt_index (pt_vaddr d) = d"
    using assms by (simp_all add: pd_index_div pt_index_mod unat_pt_vaddr)
qed

lemma index_temp [simp]: "pd_index TEMP_MAP_VADDR = 896" "pt_index TEMP_MAP_VADDR = 0"
  by (simp_all add: pd_index_div pt_index_mod TEMP_MAP_VADDR_def)

lemma base_mask: "(0xFFFFF000 :: u32) = NOT (mask 12)"
  by (simp add: mask_eq_exp_minus_1 not_eq_complement)

lemma base_base [simp]: "base (base w) = base w"
  by (simp add: base_def and.assoc)

lemma base_low:
  assumes "base a = a" "k AND 0xFFFFF000 = 0"
  shows "a AND k = 0"
proof -
  have "a AND k = (a AND 0xFFFFF000) AND k" using assms(1) by (simp add: base_def)
  also have "\<dots> = a AND (k AND 0xFFFFF000)" by (simp add: ac_simps)
  finally show ?thesis using assms(2) by simp
qed

lemma entry_flag:
  assumes "base a = a" "k AND 0xFFFFF000 = 0"
  shows "(a OR fl) AND k = fl AND k"
  using base_low [OF assms] by (simp add: word_ao_dist)

lemma base_entry:
  assumes "base a = a" "fl AND 0xFFFFF000 = 0"
  shows "base (a OR fl) = a"
  using assms by (simp add: base_def word_ao_dist)

lemma present_entry:
  assumes "base a = a"
  shows "present (a OR fl) \<longleftrightarrow> present fl"
  using entry_flag [OF assms, of 1] by (simp add: present_def)

lemma base_entry_page [simp]:
  assumes "base a = a"
  shows "base (a OR (fl AND 0xFFF)) = a"
  by (rule base_entry [OF assms]) (simp add: and.assoc)

lemma present_flags [simp]: "present (fl AND 0xFFF) \<longleftrightarrow> present fl"
  by (simp add: present_def and.assoc)

lemma present_consts [simp]:
  "present PAGE_KERNEL_ONLY" "present PAGE_USER_ACCESS" "present PAGE_KERNEL_MMIO"
  "\<not> present PAGE_NOT_PRESENT" "\<not> present 0"
  by (simp_all add: present_def PAGE_KERNEL_ONLY_def PAGE_USER_ACCESS_def PAGE_KERNEL_MMIO_def
      PAGE_NOT_PRESENT_def)

lemma low_consts:
  "PAGE_KERNEL_ONLY AND 0xFFFFF000 = 0" "PAGE_USER_ACCESS AND 0xFFFFF000 = 0"
  "PAGE_KERNEL_MMIO AND 0xFFFFF000 = 0"
  by (simp_all add: PAGE_KERNEL_ONLY_def PAGE_USER_ACCESS_def PAGE_KERNEL_MMIO_def)

lemma base_frame: "base (of_nat f * 4096) = (of_nat f * 4096 :: u32)"
proof -
  have "(of_nat f * 4096 :: u32) = push_bit 12 (of_nat f)" by (simp add: push_bit_eq_mult)
  then show ?thesis by (simp only: base_def base_mask) (auto intro!: bit_eqI simp: bit_simps)
qed

lemma base_unat: "unat (base w) = unat w div 4096 * 4096"
proof -
  have "base w = push_bit 12 (drop_bit 12 w)"
    by (simp only: base_def base_mask) (auto intro!: bit_eqI simp: bit_simps)
  also have "\<dots> = drop_bit 12 w * 4096" by (simp add: push_bit_eq_mult)
  finally have "unat (base w) = (unat (drop_bit 12 w) * 4096) mod 4294967296"
    by (simp add: unat_word_ariths)
  moreover have "unat w div 4096 * 4096 < 4294967296" using unat_u32_less [of w] by linarith
  ultimately show ?thesis by (simp add: unat_drop)
qed

lemma frame_of_base [simp]: "frame_of (base w) = frame_of w"
  by (simp add: frame_of_def base_unat)

lemma base_eq_frame:
  assumes "base a = a"
  shows "a = of_nat (frame_of a) * 4096"
proof -
  have "a = of_nat (unat (base a))" using assms by simp
  also have "\<dots> = of_nat (frame_of a * 4096)" by (simp only: base_unat frame_of_def)
  finally show ?thesis by simp
qed

lemma frame_of_inj: "base a = a \<Longrightarrow> base b = b \<Longrightarrow> frame_of a = frame_of b \<longleftrightarrow> a = b"
  using base_eq_frame by metis

lemma frame_of_frame: "f < 2 ^ 20 \<Longrightarrow> frame_of (of_nat f * 4096) = f"
  by (simp add: frame_of_def unat_frame_addr)

subsection \<open>Reading back what was written\<close>

lemma set_word_sel [simp]:
  "cr3 (set_word f i w m) = cr3 m" "page_frames (set_word f i w m) = page_frames m"
  "page_directory (set_word f i w m) = page_directory m"
  "device_window_next (set_word f i w m) = device_window_next m"
  "machine.more (set_word f i w m) = machine.more m"
  by (simp_all add: set_word_def)

lemma ram_set_word: "ram (set_word f i w m) g j = (if g = f \<and> j = i then w else ram m g j)"
  by (simp add: set_word_def)

lemma frame_op_sel [simp]:
  "ram (free_frame a m) = ram m" "cr3 (free_frame a m) = cr3 m"
  "page_frames (free_frame a m) = pmm_free_frame (page_frames m) a"
  "page_directory (free_frame a m) = page_directory m"
  "device_window_next (free_frame a m) = device_window_next m"
  "ram (ref_frame a m) = ram m" "cr3 (ref_frame a m) = cr3 m"
  "page_frames (ref_frame a m) = pmm_ref (page_frames m) a"
  "page_directory (ref_frame a m) = page_directory m"
  "device_window_next (ref_frame a m) = device_window_next m"
  "machine.more (free_frame a m) = machine.more m" "machine.more (ref_frame a m) = machine.more m"
  by (simp_all add: free_frame_def ref_frame_def)

lemma alloc_frame_sel:
  assumes "alloc_frame m = (a, m')"
  shows "pmm_alloc_frame (page_frames m) = (a, page_frames m')" "ram m' = ram m" "cr3 m' = cr3 m"
    "page_directory m' = page_directory m" "device_window_next m' = device_window_next m"
    "machine.more m' = machine.more m"
  using assms by (auto simp: alloc_frame_def split: prod.splits)

lemma fold_set_word:
  "ram (fold (\<lambda>i. set_word f i (g i)) is m) h j = (if h = f \<and> j \<in> set is then g j else ram m h j)"
  by (induction "is" arbitrary: m) (auto simp: ram_set_word)

lemma fold_set_word_sel [simp]:
  "cr3 (fold (\<lambda>i. set_word f i (g i)) is m) = cr3 m"
  "page_frames (fold (\<lambda>i. set_word f i (g i)) is m) = page_frames m"
  "page_directory (fold (\<lambda>i. set_word f i (g i)) is m) = page_directory m"
  "device_window_next (fold (\<lambda>i. set_word f i (g i)) is m) = device_window_next m"
  "machine.more (fold (\<lambda>i. set_word f i (g i)) is m) = machine.more m"
  by (induction "is" arbitrary: m) simp_all

text \<open>
  With a directory whose last entry names the directory itself, the recursive addresses are
  the directory and its tables.
\<close>

definition rec_dir :: "'a machine_scheme \<Rightarrow> bool" where
  "rec_dir m \<longleftrightarrow> base (ram m (base (cr3 m)) 1023) = base (cr3 m)"

definition table_of :: "'a machine_scheme \<Rightarrow> nat \<Rightarrow> u32" where
  "table_of m d = base (ram m (base (cr3 m)) d)"

lemma rec_virt:
  assumes "rec_dir m"
  shows "pd_virt m d = ram m (base (cr3 m)) d"
    and "d < 1024 \<Longrightarrow> pt_virt m d t = ram m (table_of m d) t"
    and "set_pd d w m = set_word (base (cr3 m)) d w m"
    and "d < 1024 \<Longrightarrow> set_pt d t w m = set_word (table_of m d) t w m"
  using assms
  by (simp_all add: pd_virt_def pt_virt_def vword_def walk_def rec_dir_def table_of_def set_pd_def
      set_pt_def set_vword_def)

end
