(* ===== verification/Spaces.thy ===== *)
theory Spaces
  imports Paging
begin

text \<open>
  Who holds which frame.  Every entry of a live page structure that names a frame is a \<open>slot\<close>:
  a directory, a user page table, a user page, one of the kernel's page tables, a page of the
  kernel heap.  \<open>slot_at\<close> reads the slots out of physical memory, and \<open>space_inv\<close> says that the
  reference counts of \<^verbatim>\<open>pmm.c\<close> are exactly the number of slots that name a frame, plus what
  other parts of the kernel hold (\<open>ext\<close>).  The lemmas give the effect of each kind of store to
  a page structure on the slots and on the accounts.
\<close>

subsection \<open>Slots\<close>

datatype slot = Dir u32 | Tab u32 nat | Page u32 nat nat | KTab nat | KPage nat nat

text \<open>
  The kernel's page tables: directory entries 768 to 1022 without the 64 MB of the framebuffer
  window, which \<^verbatim>\<open>earlyfb.c\<close> maps with 4 MB pages.  The heap starts at \<^verbatim>\<open>0xD0000000\<close>, entry 832,
  and the temporary page at \<^verbatim>\<open>0xE0000000\<close>, entry 896, bounds it.
\<close>

definition kernel_tables :: "nat set" where
  "kernel_tables = {768..<1023} - {900..<916}"

definition heap_tables :: "nat set" where
  "heap_tables = {832..<896}"

lemma heap_kernel: "i \<in> heap_tables \<Longrightarrow> i \<in> kernel_tables"
  by (auto simp: heap_tables_def kernel_tables_def)

lemma temp_kernel [simp]: "896 \<in> kernel_tables" "896 \<notin> heap_tables"
  by (auto simp: heap_tables_def kernel_tables_def)

fun slot_at :: "(nat \<Rightarrow> u32) \<Rightarrow> u32 set \<Rightarrow> (u32 \<Rightarrow> nat \<Rightarrow> u32) \<Rightarrow> slot \<Rightarrow> u32 option" where
  "slot_at KT P r (Dir p) = (if p \<in> P then Some p else None)"
| "slot_at KT P r (Tab p i) =
     (if p \<in> P \<and> i < 768 \<and> present (r p i) then Some (base (r p i)) else None)"
| "slot_at KT P r (Page p i j) =
     (if p \<in> P \<and> i < 768 \<and> present (r p i) \<and> j < 1024 \<and> present (r (base (r p i)) j)
      then Some (base (r (base (r p i)) j)) else None)"
| "slot_at KT P r (KTab i) = (if i \<in> kernel_tables then Some (KT i) else None)"
| "slot_at KT P r (KPage i j) =
     (if i \<in> heap_tables \<and> j < 1024 \<and> present (r (KT i) j) then Some (base (r (KT i) j)) else None)"

definition refs :: "(slot \<Rightarrow> u32 option) \<Rightarrow> u32 \<Rightarrow> nat" where
  "refs \<sigma> a = card {s. \<sigma> s = Some a}"

definition frame_ok :: "pmm_state \<Rightarrow> u32 \<Rightarrow> bool" where
  "frame_ok pm a \<longleftrightarrow> base a = a \<and> PMM_LOW_MEMORY_FRAMES \<le> frame_of a \<and> frame_of a < frames pm"

definition acct :: "(slot \<Rightarrow> u32 option) \<Rightarrow> pmm_state \<Rightarrow> (nat \<Rightarrow> nat) \<Rightarrow> bool" where
  "acct \<sigma> pm ext \<longleftrightarrow> pmm_inv pm \<and> finite (dom \<sigma>) \<and> (\<forall>s a. \<sigma> s = Some a \<longrightarrow> frame_ok pm a) \<and>
     (\<forall>a. frame_ok pm a \<longrightarrow> owners pm (frame_of a) = refs \<sigma> a + ext (frame_of a))"

text \<open>Only user pages of different processes may name the same frame.\<close>

definition uniq :: "(slot \<Rightarrow> u32 option) \<Rightarrow> bool" where
  "uniq \<sigma> \<longleftrightarrow> (\<forall>s t a. \<sigma> s = Some a \<longrightarrow> \<sigma> t = Some a \<longrightarrow> s \<noteq> t \<longrightarrow>
     (\<exists>p i j q k l. s = Page p i j \<and> t = Page q k l \<and> p \<noteq> q))"

fun is_page :: "slot \<Rightarrow> bool" where
  "is_page (Page p i j) = True"
| "is_page s = False"

lemma uniqD: "uniq \<sigma> \<Longrightarrow> \<sigma> s = Some a \<Longrightarrow> \<not> is_page s \<Longrightarrow> \<sigma> t = Some a \<Longrightarrow> t = s"
  unfolding uniq_def by (metis is_page.simps(1))

lemma uniq_page:
  "uniq \<sigma> \<Longrightarrow> \<sigma> (Page p i j) = Some a \<Longrightarrow> \<sigma> (Page p k l) = Some a \<Longrightarrow> i = k \<and> j = l"
  unfolding uniq_def by (metis slot.inject(3))

lemma uniq_fresh:
  assumes "uniq \<sigma>" "\<And>t. \<sigma> t = Some a \<Longrightarrow> t = s"
  shows "uniq (\<sigma>(s := Some a))"
  using assms unfolding uniq_def by (auto split: if_splits)

lemma uniq_none: "uniq \<sigma> \<Longrightarrow> uniq (\<sigma>(s := None))"
  unfolding uniq_def by (auto split: if_splits)

subsection \<open>Accounts\<close>

lemma frame_okD:
  assumes "frame_ok pm a"
  shows "base a = a" "PMM_LOW_MEMORY_FRAMES \<le> frame_of a" "frame_of a < frames pm"
  using assms by (simp_all add: frame_ok_def)

lemma acctD:
  assumes "acct \<sigma> pm ext"
  shows "pmm_inv pm" "finite (dom \<sigma>)" "\<And>s a. \<sigma> s = Some a \<Longrightarrow> frame_ok pm a"
    "\<And>a. frame_ok pm a \<Longrightarrow> owners pm (frame_of a) = refs \<sigma> a + ext (frame_of a)"
  using assms by (auto simp: acct_def)

lemma finite_slots: "finite (dom \<sigma>) \<Longrightarrow> finite {s. \<sigma> s = Some a}"
  by (rule finite_subset [of _ "dom \<sigma>"]) auto

lemma refs_pos: "finite (dom \<sigma>) \<Longrightarrow> \<sigma> s = Some a \<Longrightarrow> 0 < refs \<sigma> a"
  using finite_slots [of \<sigma> a] by (auto simp: refs_def card_gt_0_iff)

lemma refs_none: "(\<And>s. \<sigma> s \<noteq> Some a) \<Longrightarrow> refs \<sigma> a = 0"
  by (simp add: refs_def)

lemma refs_add:
  assumes "finite (dom \<sigma>)" "\<sigma> s = None"
  shows "refs (\<sigma>(s := Some a)) b = refs \<sigma> b + (if b = a then 1 else 0)"
proof -
  have "{t. (\<sigma>(s := Some a)) t = Some b} = (if b = a then insert s {t. \<sigma> t = Some b} else {t. \<sigma> t = Some b})"
    using assms(2) by auto
  then show ?thesis
    using finite_slots [OF assms(1), of a] assms(2) by (auto simp: refs_def)
qed

lemma refs_del:
  assumes "finite (dom \<sigma>)" "\<sigma> s = Some a"
  shows "refs \<sigma> b = refs (\<sigma>(s := None)) b + (if b = a then 1 else 0)"
proof -
  have "refs ((\<sigma>(s := None))(s := Some a)) b = refs (\<sigma>(s := None)) b + (if b = a then 1 else 0)"
    by (rule refs_add) (use assms(1) in auto)
  moreover have "(\<sigma>(s := None))(s := Some a) = \<sigma>" using assms(2) by auto
  ultimately show ?thesis by simp
qed

lemma frame_ok_eq: "frame_ok pm a \<Longrightarrow> frame_ok pm b \<Longrightarrow> frame_of a = frame_of b \<longleftrightarrow> a = b"
  using frame_of_inj by (auto simp: frame_ok_def)

text \<open>A reference moves from the hands of the kernel into a slot, and out of it again.\<close>

lemma acct_put:
  assumes "acct \<sigma> pm ext" "\<sigma> s = None" "frame_ok pm a" "ext (frame_of a) = Suc n"
  shows "acct (\<sigma>(s := Some a)) pm (ext(frame_of a := n))"
  unfolding acct_def
proof (intro conjI allI impI)
  note d = acctD [OF assms(1)]
  show "pmm_inv pm" by (rule d(1))
  show "finite (dom (\<sigma>(s := Some a)))" using d(2) by simp
  show "frame_ok pm b" if "(\<sigma>(s := Some a)) t = Some b" for t b
    using that d(3) assms(3) by (auto split: if_splits)
  show "owners pm (frame_of b) = refs (\<sigma>(s := Some a)) b + (ext(frame_of a := n)) (frame_of b)"
    if "frame_ok pm b" for b
    using d(4) [OF that] refs_add [OF d(2) assms(2), of a b] frame_ok_eq [OF that assms(3)] assms(4) by auto
qed

lemma acct_take:
  assumes "acct \<sigma> pm ext" "\<sigma> s = Some a"
  shows "acct (\<sigma>(s := None)) pm (ext(frame_of a := Suc (ext (frame_of a))))"
  unfolding acct_def
proof (intro conjI allI impI)
  note d = acctD [OF assms(1)]
  show "pmm_inv pm" by (rule d(1))
  show "finite (dom (\<sigma>(s := None)))" using d(2) by simp
  show "frame_ok pm b" if "(\<sigma>(s := None)) t = Some b" for t b
    using that d(3) by (auto split: if_splits)
  show "owners pm (frame_of b) = refs (\<sigma>(s := None)) b + (ext(frame_of a := Suc (ext (frame_of a)))) (frame_of b)"
    if "frame_ok pm b" for b
    using d(4) [OF that] refs_del [OF d(2) assms(2), of b] frame_ok_eq [OF that d(3) [OF assms(2)]] by auto
qed

lemma acct_alloc:
  assumes "acct \<sigma> pm ext" "pmm_alloc_frame pm = (a, pm')" "a \<noteq> NO_FRAME"
  shows "frame_ok pm' a" "\<And>s. \<sigma> s \<noteq> Some a" "ext (frame_of a) = 0" "frames pm' = frames pm"
    "acct \<sigma> pm' (ext(frame_of a := 1))"
proof -
  note d = acctD [OF assms(1)]
  note sp = pmm_alloc_frame_spec [OF d(1) assms(2)]
  from sp assms(3) obtain f where f: "a = of_nat f * 4096" "PMM_LOW_MEMORY_FRAMES \<le> f" "f < frames pm"
    "owners pm f = 0" "owners pm' = (owners pm)(f := 1)" and inv: "pmm_inv pm'" and fr: "frames pm' = frames pm" by auto
  have ff: "frame_of a = f" using frame_of_frame frames_bound [OF pmm_invD(1) [OF d(1)]] f(1,3) by simp
  show ok: "frame_ok pm' a" using f(1,2,3) ff fr base_frame by (simp add: frame_ok_def)
  have ok': "frame_ok pm a" using ok fr by (simp add: frame_ok_def)
  have z: "refs \<sigma> a = 0 \<and> ext f = 0" using d(4) [OF ok'] f(4) ff by simp
  then show "ext (frame_of a) = 0" "frames pm' = frames pm" using fr ff by simp_all
  show "\<sigma> s \<noteq> Some a" for s using refs_pos [OF d(2), of s a] z by auto
  show "acct \<sigma> pm' (ext(frame_of a := 1))" unfolding acct_def
  proof (intro conjI allI impI)
    show "pmm_inv pm'" by (rule inv)
    show "finite (dom \<sigma>)" by (rule d(2))
    show "frame_ok pm' b" if "\<sigma> t = Some b" for t b using d(3) [OF that] fr by (simp add: frame_ok_def)
    show "owners pm' (frame_of b) = refs \<sigma> b + (ext(frame_of a := 1)) (frame_of b)" if "frame_ok pm' b" for b
      using d(4) [of b] that fr f(5) ff z frame_ok_eq [OF that ok] by (auto simp: frame_ok_def)
  qed
qed

lemma acct_alloc_none:
  assumes "acct \<sigma> pm ext" "pmm_alloc_frame pm = (NO_FRAME, pm')"
  shows "pm' = pm"
  using pmm_alloc_frame_spec [OF acctD(1) [OF assms(1)] assms(2)] by simp

lemma acct_change:
  assumes ac: "acct \<sigma> pm ext" and inv: "pmm_inv pm'" "frames pm' = frames pm"
    and own: "\<And>b. frame_ok pm b \<Longrightarrow> owners pm' (frame_of b) = refs \<sigma> b + ext' (frame_of b)"
  shows "acct \<sigma> pm' ext'"
  using acctD [OF ac] inv own unfolding acct_def by (auto simp: frame_ok_def)

lemma acct_free:
  assumes "acct \<sigma> pm ext" "frame_ok pm a" "ext (frame_of a) = Suc n"
  shows "acct \<sigma> (pmm_free_frame pm a) (ext(frame_of a := n))" "frames (pmm_free_frame pm a) = frames pm"
proof -
  note d = acctD [OF assms(1)]
  note sp = pmm_free_frame_spec [OF d(1), of a, folded frame_of_def]
  show "frames (pmm_free_frame pm a) = frames pm" using sp by simp
  show "acct \<sigma> (pmm_free_frame pm a) (ext(frame_of a := n))"
  proof (rule acct_change [OF assms(1)])
    show "owners (pmm_free_frame pm a) (frame_of b) = refs \<sigma> b + (ext(frame_of a := n)) (frame_of b)"
      if "frame_ok pm b" for b
      using sp d(4) [OF that] frame_ok_eq [OF that assms(2)] frame_okD [OF assms(2)] assms(3) by auto
  qed (use sp in auto)
qed

lemma acct_ref:
  assumes "acct \<sigma> pm ext" "frame_ok pm a" "0 < owners pm (frame_of a)" "owners pm (frame_of a) < 255"
  shows "acct \<sigma> (pmm_ref pm a) (ext(frame_of a := Suc (ext (frame_of a))))" "frames (pmm_ref pm a) = frames pm"
proof -
  note d = acctD [OF assms(1)]
  obtain pm' ev where r: "pmm_ref_frame pm a = (pm', ev)" by fastforce
  note sp = pmm_ref_frame_spec [OF d(1) r, folded frame_of_def]
  have eq: "pmm_ref pm a = pm'" using r by (simp add: pmm_ref_def)
  show "frames (pmm_ref pm a) = frames pm" using sp eq by simp
  show "acct \<sigma> (pmm_ref pm a) (ext(frame_of a := Suc (ext (frame_of a))))"
  proof (rule acct_change [OF assms(1)])
    show "owners (pmm_ref pm a) (frame_of b) = refs \<sigma> b + (ext(frame_of a := Suc (ext (frame_of a)))) (frame_of b)"
      if "frame_ok pm b" for b
      using sp d(4) [OF that] frame_ok_eq [OF that assms(2)] frame_okD [OF assms(2)] assms(3,4) eq by auto
  qed (use sp eq in auto)
qed


subsection \<open>Stores to page structures\<close>

lemma slot_at_page_cong:
  assumes "q \<in> P \<Longrightarrow> k < 768 \<Longrightarrow> r' q k = r q k"
    and "q \<in> P \<Longrightarrow> k < 768 \<Longrightarrow> present (r q k) \<Longrightarrow> r' (base (r q k)) l = r (base (r q k)) l"
  shows "slot_at KT P r' (Page q k l) = slot_at KT P r (Page q k l)"
  unfolding slot_at.simps using assms by (cases "q \<in> P \<and> k < 768 \<and> present (r q k)") auto

lemma slot_at_cong:
  assumes "\<And>q k. q \<in> P \<Longrightarrow> k < 768 \<Longrightarrow> r' q k = r q k"
    and "\<And>q k l. q \<in> P \<Longrightarrow> k < 768 \<Longrightarrow> present (r q k) \<Longrightarrow> l < 1024 \<Longrightarrow>
           r' (base (r q k)) l = r (base (r q k)) l"
    and "\<And>i j. i \<in> heap_tables \<Longrightarrow> j < 1024 \<Longrightarrow> r' (KT i) j = r (KT i) j"
  shows "slot_at KT P r' = slot_at KT P r"
proof
  fix s show "slot_at KT P r' s = slot_at KT P r s"
  proof (cases s)
    case (Page q k l)
    show ?thesis
    proof (cases "l < 1024")
      case True
      then show ?thesis unfolding Page using assms(1,2) by (intro slot_at_page_cong) auto
    next
      case False
      then show ?thesis by (simp add: Page)
    qed
  next
    case (Tab q k)
    then show ?thesis using assms(1) [of q k] by (cases "q \<in> P \<and> k < 768") auto
  next
    case (KPage i j)
    then show ?thesis using assms(3) [of i j] by (cases "i \<in> heap_tables \<and> j < 1024") auto
  qed simp_all
qed

text \<open>A store to a frame that is no directory and no table changes no slot.\<close>

lemma slot_at_data:
  assumes "f \<notin> P" "\<And>p i. slot_at KT P r (Tab p i) \<noteq> Some f" "\<And>i. i \<in> heap_tables \<Longrightarrow> KT i \<noteq> f"
  shows "slot_at KT P (r(f := g)) = slot_at KT P r"
proof (rule slot_at_cong)
  show "(r(f := g)) q k = r q k" if "q \<in> P" for q k using assms(1) that by auto
  show "(r(f := g)) (base (r q k)) l = r (base (r q k)) l" if "q \<in> P" "k < 768" "present (r q k)" for q k l
    using assms(2) [of q k] that by simp
  show "(r(f := g)) (KT i) j = r (KT i) j" if "i \<in> heap_tables" for i j using assms(3) that by auto
qed

text \<open>No other structure lies in the frame of a structure.\<close>

lemma struct_apart:
  assumes u: "uniq (slot_at KT P r)" and s: "slot_at KT P r s = Some f" "\<not> is_page s"
  shows "q \<in> P \<Longrightarrow> s \<noteq> Dir q \<Longrightarrow> q \<noteq> f"
    and "q \<in> P \<Longrightarrow> k < 768 \<Longrightarrow> present (r q k) \<Longrightarrow> s \<noteq> Tab q k \<Longrightarrow> base (r q k) \<noteq> f"
    and "i \<in> kernel_tables \<Longrightarrow> s \<noteq> KTab i \<Longrightarrow> KT i \<noteq> f"
  using uniqD [OF u s, of "Dir q"] uniqD [OF u s, of "Tab q k"] uniqD [OF u s, of "KTab i"] by auto

lemma slot_at_pte:
  assumes u: "uniq (slot_at KT P r)" and tab: "slot_at KT P r (Tab p i) = Some f" and j: "j < 1024"
  shows "slot_at KT P (r(f := (r f)(j := w))) =
    (slot_at KT P r)(Page p i j := if present w then Some (base w) else None)"
    (is "slot_at KT P ?r' = ?\<sigma>'")
proof
  fix s
  have f: "p \<in> P" "i < 768" "present (r p i)" "base (r p i) = f" using tab by (auto split: if_splits)
  note ap = struct_apart [OF u tab, simplified]
  have d: "?r' q k = r q k" if "q \<in> P" for q k using ap(1) [OF that] by simp
  show "slot_at KT P ?r' s = ?\<sigma>' s"
  proof (cases "s = Page p i j")
    case True
    then show ?thesis using d [OF f(1)] f j by simp
  next
    case ne: False
    have "slot_at KT P ?r' s = slot_at KT P r s"
    proof (cases s)
      case (Page q k l)
      have "?r' (base (r q k)) l = r (base (r q k)) l" if "q \<in> P" "k < 768" "present (r q k)"
        using ap(2) [OF that] ne Page f(4) by auto
      then show ?thesis unfolding Page using d by (intro slot_at_page_cong) auto
    next
      case (KPage a b)
      then show ?thesis using ap(3) [of a] heap_kernel [of a] by (cases "a \<in> heap_tables") simp_all
    next
      case (Tab q k)
      then show ?thesis using d [of q k] by (cases "q \<in> P") simp_all
    qed simp_all
    then show ?thesis unfolding fun_upd_other [OF ne] .
  qed
qed

lemma slot_at_kpte:
  assumes u: "uniq (slot_at KT P r)" and i: "i \<in> heap_tables" and j: "j < 1024"
  shows "slot_at KT P (r(KT i := (r (KT i))(j := w))) =
    (slot_at KT P r)(KPage i j := if present w then Some (base w) else None)"
    (is "slot_at KT P ?r' = ?\<sigma>'")
proof
  fix s
  have ki: "slot_at KT P r (KTab i) = Some (KT i)" using heap_kernel [OF i] by simp
  note ap = struct_apart [OF u ki, simplified]
  have d: "?r' q k = r q k" if "q \<in> P" for q k using ap(1) [OF that] by simp
  show "slot_at KT P ?r' s = ?\<sigma>' s"
  proof (cases "s = KPage i j")
    case True
    then show ?thesis using i j by simp
  next
    case ne: False
    have "slot_at KT P ?r' s = slot_at KT P r s"
    proof (cases s)
      case (Page q k l)
      have "?r' (base (r q k)) l = r (base (r q k)) l" if "q \<in> P" "k < 768" "present (r q k)"
        using ap(2) [OF that] by simp
      then show ?thesis unfolding Page using d by (intro slot_at_page_cong) auto
    next
      case (KPage a b)
      have "?r' (KT a) b = r (KT a) b" if "a \<in> heap_tables"
        using ap(3) [of a] heap_kernel [OF that] ne KPage by auto
      then show ?thesis unfolding KPage slot_at.simps by (cases "a \<in> heap_tables") simp_all
    next
      case (Tab q k)
      then show ?thesis using d [of q k] by (cases "q \<in> P") simp_all
    qed simp_all
    then show ?thesis unfolding fun_upd_other [OF ne] .
  qed
qed

text \<open>
  A store to a directory entry of the user half: when the entry then names a table whose
  entries are as before, or names none, only its own slots change.
\<close>

lemma slot_at_pde:
  assumes u: "uniq (slot_at KT P r)" and p: "p \<in> P" and s: "\<And>j. s \<noteq> Page p i j" "s \<noteq> Tab p i"
  shows "slot_at KT P (r(p := (r p)(i := w))) s = slot_at KT P r s"
proof -
  let ?r' = "r(p := (r p)(i := w))"
  have dp: "slot_at KT P r (Dir p) = Some p" using p by simp
  note ap = struct_apart [OF u dp, simplified]
  show ?thesis
  proof (cases s)
    case (Page q k l)
    then have "?r' q k = r q k" using s by auto
    moreover have "?r' (base (r q k)) l = r (base (r q k)) l" if "q \<in> P" "k < 768" "present (r q k)"
      using ap(2) [OF that] by simp
    ultimately show ?thesis unfolding Page by (intro slot_at_page_cong) auto
  next
    case (KPage a b)
    then show ?thesis using ap(3) [of a] heap_kernel [of a] by (cases "a \<in> heap_tables") simp_all
  next
    case (Tab q k)
    then show ?thesis using s by auto
  qed simp_all
qed

lemma slot_at_pde_eqI:
  assumes u: "uniq (slot_at KT P r)" and p: "p \<in> P" "i < 768"
    and tab: "\<sigma>' (Tab p i) = (if present w then Some (base w) else None)"
    and pages: "\<And>j. \<sigma>' (Page p i j) =
      (if present w \<and> j < 1024 \<and> present (r (base w) j) then Some (base (r (base w) j)) else None)"
    and ap: "present w \<Longrightarrow> base w \<noteq> p"
    and other: "\<And>s. s \<noteq> Tab p i \<Longrightarrow> (\<And>j. s \<noteq> Page p i j) \<Longrightarrow> \<sigma>' s = slot_at KT P r s"
  shows "slot_at KT P (r(p := (r p)(i := w))) = \<sigma>'"
proof
  fix s
  consider "s = Tab p i" | j where "s = Page p i j" | "s \<noteq> Tab p i" "\<And>j. s \<noteq> Page p i j" by blast
  then show "slot_at KT P (r(p := (r p)(i := w))) s = \<sigma>' s"
  proof cases
    case 1
    then show ?thesis using p tab by simp
  next
    case 2
    then show ?thesis using p pages ap by auto
  next
    case 3
    then show ?thesis using slot_at_pde [OF u p(1), of s i w] other by simp
  qed
qed

text \<open>A new table, all of whose entries are clear, goes under a directory entry.\<close>

lemma slot_at_new_table:
  assumes "uniq (slot_at KT P r)" "p \<in> P" "i < 768" "\<not> present (r p i)"
    and "present w" "\<And>j. j < 1024 \<Longrightarrow> \<not> present (r (base w) j)" "base w \<noteq> p"
  shows "slot_at KT P (r(p := (r p)(i := w))) = (slot_at KT P r)(Tab p i := Some (base w))"
  by (rule slot_at_pde_eqI) (use assms in auto)

text \<open>A directory entry that keeps its table, opened to Ring 3.\<close>

lemma slot_at_same_table:
  assumes u: "uniq (slot_at KT P r)" and p: "p \<in> P" "i < 768"
    and w: "present w \<longleftrightarrow> present (r p i)" "base w = base (r p i)"
  shows "slot_at KT P (r(p := (r p)(i := w))) = slot_at KT P r"
proof (rule slot_at_pde_eqI [OF u p])
  have dp: "slot_at KT P r (Dir p) = Some p" using p by simp
  show "present w \<Longrightarrow> base w \<noteq> p" using struct_apart(2) [OF u dp _ p] w by simp
qed (use p w in auto)

text \<open>An emptied directory entry, whose table held no page any more.\<close>

lemma slot_at_drop_table:
  assumes "uniq (slot_at KT P r)" "p \<in> P" "i < 768" "\<not> present w"
    and "\<And>j. slot_at KT P r (Page p i j) = None"
  shows "slot_at KT P (r(p := (r p)(i := w))) = (slot_at KT P r)(Tab p i := None)"
  by (rule slot_at_pde_eqI) (use assms in auto)

text \<open>A directory with an empty user half joins.\<close>

lemma slot_at_new_dir:
  assumes "\<And>i. i < 768 \<Longrightarrow> \<not> present (r p i)"
  shows "slot_at KT (insert p P) r = (slot_at KT (P - {p}) r)(Dir p := Some p)"
proof
  fix s show "slot_at KT (insert p P) r s = ((slot_at KT (P - {p}) r)(Dir p := Some p)) s"
    using assms by (cases s) auto
qed


subsection \<open>The invariant of the address spaces\<close>

abbreviation slots :: "(nat \<Rightarrow> u32) \<Rightarrow> u32 set \<Rightarrow> 'a machine_scheme \<Rightarrow> slot \<Rightarrow> u32 option" where
  "slots KT P m \<equiv> slot_at KT P (ram m)"

definition dirs_ok :: "(nat \<Rightarrow> u32) \<Rightarrow> u32 set \<Rightarrow> (u32 \<Rightarrow> nat \<Rightarrow> u32) \<Rightarrow> bool" where
  "dirs_ok KT P r \<longleftrightarrow> (\<forall>p \<in> P. base (r p 1023) = p \<and>
     (\<forall>i \<in> kernel_tables. present (r p i) \<and> base (r p i) = KT i) \<and>
     (\<forall>i < 768. present (r p i) \<longrightarrow> r p i AND 2 \<noteq> 0))"

text \<open>A writable user page is the only name of its frame; the way to it is open to Ring 3.\<close>

definition pages_ok :: "(slot \<Rightarrow> u32 option) \<Rightarrow> (u32 \<Rightarrow> nat \<Rightarrow> u32) \<Rightarrow> bool" where
  "pages_ok \<sigma> r \<longleftrightarrow> (\<forall>p i j a. \<sigma> (Page p i j) = Some a \<longrightarrow>
     (r (base (r p i)) j AND 4 \<noteq> 0 \<longrightarrow> r p i AND 4 \<noteq> 0) \<and>
     (r (base (r p i)) j AND 2 \<noteq> 0 \<longrightarrow> (\<forall>s. \<sigma> s = Some a \<longrightarrow> s = Page p i j)))"

definition space_inv ::
  "(nat \<Rightarrow> u32) \<Rightarrow> (nat \<Rightarrow> nat) \<Rightarrow> u32 set \<Rightarrow> 'a machine_scheme \<Rightarrow> bool" where
  "space_inv KT ext P m \<longleftrightarrow>
     acct (slots KT P m) (page_frames m) ext \<and> uniq (slots KT P m) \<and> dirs_ok KT P (ram m) \<and>
     cr3 m \<in> P \<and> \<not> present (ram m (KT 896) 0) \<and> pages_ok (slots KT P m) (ram m)"

lemma space_invD:
  assumes "space_inv KT ext P m"
  shows "acct (slots KT P m) (page_frames m) ext" "uniq (slots KT P m)" "dirs_ok KT P (ram m)"
    "cr3 m \<in> P" "\<not> present (ram m (KT 896) 0)" "pages_ok (slots KT P m) (ram m)"
  using assms by (auto simp: space_inv_def)

lemma dirs_okD:
  assumes "dirs_ok KT P r" "p \<in> P"
  shows "base (r p 1023) = p" "\<And>i. i \<in> kernel_tables \<Longrightarrow> present (r p i) \<and> base (r p i) = KT i"
    "\<And>i. i < 768 \<Longrightarrow> present (r p i) \<Longrightarrow> r p i AND 2 \<noteq> 0"
  using assms by (auto simp: dirs_ok_def)

lemma pages_okD:
  assumes "pages_ok \<sigma> r" "\<sigma> (Page p i j) = Some a"
  shows "r (base (r p i)) j AND 4 \<noteq> 0 \<Longrightarrow> r p i AND 4 \<noteq> 0"
    "r (base (r p i)) j AND 2 \<noteq> 0 \<Longrightarrow> \<sigma> s = Some a \<Longrightarrow> s = Page p i j"
  using assms unfolding pages_ok_def by blast+

lemma space_frame_ok: "space_inv KT ext P m \<Longrightarrow> slots KT P m s = Some a \<Longrightarrow> frame_ok (page_frames m) a"
  using acctD(3) space_invD(1) by blast

lemma space_dir_base:
  assumes "space_inv KT ext P m" "p \<in> P"
  shows "base p = p"
  using space_frame_ok [OF assms(1), of "Dir p"] assms(2) by (simp add: frame_ok_def)

lemma space_ktab_base:
  assumes "space_inv KT ext P m" "i \<in> kernel_tables"
  shows "base (KT i) = KT i"
  using space_frame_ok [OF assms(1), of "KTab i"] assms(2) by (simp add: frame_ok_def)

lemma space_rec:
  assumes "space_inv KT ext P m"
  shows "rec_dir m" "base (cr3 m) = cr3 m"
  using dirs_okD(1) [OF space_invD(3,4) [OF assms]] space_dir_base [OF assms space_invD(4) [OF assms]]
  by (auto simp: rec_dir_def)

lemma space_virt:
  assumes "space_inv KT ext P m"
  shows "pd_virt m d = ram m (cr3 m) d"
    and "d < 1024 \<Longrightarrow> pt_virt m d t = ram m (base (ram m (cr3 m) d)) t"
    and "set_pd d w m = set_word (cr3 m) d w m"
    and "d < 1024 \<Longrightarrow> set_pt d t w m = set_word (base (ram m (cr3 m) d)) t w m"
  using rec_virt [OF space_rec(1) [OF assms]] space_rec(2) [OF assms] by (simp_all add: table_of_def)

text \<open>What a process sees at a page of its own: the rights it was given and the words there.\<close>

definition upte :: "'a machine_scheme \<Rightarrow> u32 \<Rightarrow> nat \<Rightarrow> nat \<Rightarrow> u32 option" where
  "upte m p i j =
     (if i < 768 \<and> j < 1024 \<and> present (ram m p i) \<and> present (ram m (base (ram m p i)) j)
      then Some (ram m (base (ram m p i)) j) else None)"

type_synonym uview = "(bool \<times> bool \<times> u32 list) option"

definition page_words :: "'a machine_scheme \<Rightarrow> u32 \<Rightarrow> u32 list" where
  "page_words m a = map (ram m a) [0..<1024]"

definition rights :: "u32 \<Rightarrow> bool \<times> bool" where
  "rights e = (e AND 4 \<noteq> 0, e AND 2 \<noteq> 0 \<or> e AND PAGE_COW \<noteq> 0)"

definition uview :: "'a machine_scheme \<Rightarrow> u32 \<Rightarrow> nat \<times> nat \<Rightarrow> uview" where
  "uview m p = (\<lambda>(i, j). case upte m p i j of None \<Rightarrow> None
     | Some e \<Rightarrow> Some (fst (rights e), snd (rights e), page_words m (base e)))"

text \<open>The same pages with the same rights and words.\<close>

definition same_pages :: "u32 set \<Rightarrow> 'a machine_scheme \<Rightarrow> 'a machine_scheme \<Rightarrow> bool" where
  "same_pages P m m' \<longleftrightarrow> (\<forall>p \<in> P. \<forall>i j. upte m' p i j = upte m p i j \<and>
     (\<forall>e k. upte m p i j = Some e \<longrightarrow> k < 1024 \<longrightarrow> ram m' (base e) k = ram m (base e) k))"

text \<open>What the paging code leaves alone.\<close>

definition same_rest :: "'a machine_scheme \<Rightarrow> 'a machine_scheme \<Rightarrow> bool" where
  "same_rest m m' \<longleftrightarrow> cr3 m' = cr3 m \<and> page_directory m' = page_directory m \<and>
     device_window_next m' = device_window_next m \<and> machine.more m' = machine.more m \<and>
     frames (page_frames m') = frames (page_frames m)"

lemma slot_page: "p \<in> P \<Longrightarrow> slots KT P m (Page p i j) = map_option base (upte m p i j)"
  by (simp add: upte_def)

lemma same_pages_refl [simp]: "same_pages P m m"
  by (simp add: same_pages_def)

lemma same_pages_trans: "same_pages P m1 m2 \<Longrightarrow> same_pages P m2 m3 \<Longrightarrow> same_pages P m1 m3"
  by (simp add: same_pages_def)

lemma same_rest_refl [simp]: "same_rest m m"
  by (simp add: same_rest_def)

lemma same_rest_trans: "same_rest m1 m2 \<Longrightarrow> same_rest m2 m3 \<Longrightarrow> same_rest m1 m3"
  by (simp add: same_rest_def)

lemma same_rest_set_word [simp]: "same_rest m (set_word f i w m)"
  by (simp add: same_rest_def)

text \<open>Views depend on the tables and on the frames the pages name.\<close>

lemma uview_cong:
  assumes "same_pages P m m'" "p \<in> P"
  shows "uview m' p = uview m p"
  using assms by (auto simp: same_pages_def uview_def page_words_def fun_eq_iff split: option.splits)

lemma upte_cong:
  assumes "\<And>i. i < 768 \<Longrightarrow> ram m' p i = ram m p i"
    and "\<And>i j. i < 768 \<Longrightarrow> present (ram m p i) \<Longrightarrow> j < 1024 \<Longrightarrow>
           ram m' (base (ram m p i)) j = ram m (base (ram m p i)) j"
  shows "upte m' p i j = upte m p i j"
  using assms by (auto simp: upte_def)


subsection \<open>Stores that no space notices\<close>

lemma page_parts:
  assumes "slot_at KT P r (Page p i j) = Some a"
  shows "p \<in> P" "i < 768" "j < 1024" "present (r p i)" "present (r (base (r p i)) j)"
    "a = base (r (base (r p i)) j)" "slot_at KT P r (Tab p i) = Some (base (r p i))"
    "slot_at KT P r (Dir p) = Some p"
  using assms by (auto split: if_splits)

definition aside :: "(nat \<Rightarrow> u32) \<Rightarrow> u32 set \<Rightarrow> 'a machine_scheme \<Rightarrow> u32 \<Rightarrow> bool" where
  "aside KT P m f \<longleftrightarrow> (\<forall>s. slots KT P m s = Some f \<longrightarrow> (\<exists>i. s = KTab i \<and> i \<notin> heap_tables))"

lemma asideD:
  assumes "aside KT P m f"
  shows "p \<in> P \<Longrightarrow> p \<noteq> f" "slots KT P m (Tab p i) \<noteq> Some f" "i \<in> heap_tables \<Longrightarrow> KT i \<noteq> f"
    "slots KT P m (Page p i j) \<noteq> Some f"
  using assms heap_kernel unfolding aside_def
  by (metis slot.distinct slot.inject slot_at.simps(1,4))+

lemma aside_store:
  fixes g :: "nat \<Rightarrow> u32"
  assumes a: "aside KT P m f"
  defines "m' \<equiv> m\<lparr>ram := (ram m)(f := g)\<rparr>"
  shows "slots KT P m' = slots KT P m" "dirs_ok KT P (ram m) \<Longrightarrow> dirs_ok KT P (ram m')"
    "pages_ok (slots KT P m) (ram m) \<Longrightarrow> pages_ok (slots KT P m) (ram m')"
    "same_pages P m m'"
proof -
  note ad = asideD [OF a]
  show "slots KT P m' = slots KT P m"
    unfolding m'_def by simp (rule slot_at_data, use ad in auto)
  have d: "ram m' p i = ram m p i" if "p \<in> P" for p i using ad(1) [OF that] by (simp add: m'_def)
  have t: "ram m' (base (ram m p i)) j = ram m (base (ram m p i)) j"
    if "p \<in> P" "i < 768" "present (ram m p i)" for p i j
    using ad(2) [of p i] that by (auto simp: m'_def)
  show "dirs_ok KT P (ram m')" if "dirs_ok KT P (ram m)" using that d by (auto simp: dirs_ok_def)
  show "pages_ok (slots KT P m) (ram m')" if ok: "pages_ok (slots KT P m) (ram m)"
    unfolding pages_ok_def
  proof (intro allI impI)
    fix p i j b assume s: "slots KT P m (Page p i j) = Some b"
    have "ram m' p i = ram m p i" "ram m' (base (ram m p i)) j = ram m (base (ram m p i)) j"
      using d t page_parts [OF s] by auto
    then show "(ram m' (base (ram m' p i)) j AND 4 \<noteq> 0 \<longrightarrow> ram m' p i AND 4 \<noteq> 0) \<and>
      (ram m' (base (ram m' p i)) j AND 2 \<noteq> 0 \<longrightarrow> (\<forall>s. slots KT P m s = Some b \<longrightarrow> s = Page p i j))"
      using pages_okD [OF ok s] by auto
  qed
  show "same_pages P m m'" unfolding same_pages_def
  proof (intro ballI allI conjI impI)
    fix p i j assume p: "p \<in> P"
    show "upte m' p i j = upte m p i j" by (rule upte_cong) (use d t p in auto)
    show "ram m' (base e) k = ram m (base e) k" if "upte m p i j = Some e" for e k
      using ad(4) [of p i j] slot_page [OF p, of KT m i j] that by (auto simp: m'_def)
  qed
qed

lemma store_aside:
  assumes inv: "space_inv KT ext P m" and a: "aside KT P m f"
    and temp: "f = KT 896 \<Longrightarrow> \<not> present (g 0)"
  shows "space_inv KT ext P (m\<lparr>ram := (ram m)(f := g)\<rparr>)" "same_pages P m (m\<lparr>ram := (ram m)(f := g)\<rparr>)"
  using aside_store [OF a, where g = g] space_invD [OF inv] temp by (auto simp: space_inv_def)

text \<open>A frame in the hands of the kernel, and the table of the temporary page, are aside.\<close>

lemma aside_hand: "(\<And>s. slots KT P m s \<noteq> Some f) \<Longrightarrow> aside KT P m f"
  by (simp add: aside_def)

lemma aside_ktab:
  assumes "space_inv KT ext P m" "i \<in> kernel_tables" "i \<notin> heap_tables"
  shows "aside KT P m (KT i)"
proof -
  have "slots KT P m (KTab i) = Some (KT i)" using assms(2) by simp
  then show ?thesis using uniqD [OF space_invD(2) [OF assms(1)], of "KTab i" "KT i"] assms(3)
    by (auto simp: aside_def)
qed

lemma space_pmm:
  assumes "space_inv KT ext P m" "acct (slots KT P m) pm ext'"
  shows "space_inv KT ext' P (m\<lparr>page_frames := pm\<rparr>)"
  using space_invD [OF assms(1)] assms(2) by (auto simp: space_inv_def pages_ok_def)

lemma same_pages_ram: "ram m' = ram m \<Longrightarrow> same_pages P m m'"
  by (simp add: same_pages_def upte_def)

lemma same_pages_pmm [simp]: "same_pages P m (m\<lparr>page_frames := pm\<rparr>)"
  by (rule same_pages_ram) simp

declare slot_at.simps(2,3,5) [simp del]

subsection \<open>Frames in the hands of the kernel\<close>

lemma space_alloc:
  assumes inv: "space_inv KT ext P m" and al: "alloc_frame m = (a, m')" and a: "a \<noteq> NO_FRAME"
  shows "space_inv KT (ext(frame_of a := 1)) P m'" "frame_ok (page_frames m') a" "ext (frame_of a) = 0"
    "\<And>s. slots KT P m' s \<noteq> Some a" "ram m' = ram m" "same_rest m m'" "same_pages P m m'"
proof -
  note sel = alloc_frame_sel [OF al]
  note ac = acct_alloc [OF space_invD(1) [OF inv] sel(1) a]
  have m': "m' = m\<lparr>page_frames := page_frames m'\<rparr>"
    using al by (auto simp: alloc_frame_def split: prod.splits)
  show "ram m' = ram m" "same_rest m m'" using sel ac(4) by (simp_all add: same_rest_def)
  show "same_pages P m m'" by (subst m') simp
  show "frame_ok (page_frames m') a" "ext (frame_of a) = 0" using ac by simp_all
  show "slots KT P m' s \<noteq> Some a" for s using ac(2) sel(2) by simp
  show "space_inv KT (ext(frame_of a := 1)) P m'"
    by (subst m') (rule space_pmm [OF inv ac(5)])
qed

lemma space_alloc_none:
  assumes "space_inv KT ext P m" "alloc_frame m = (NO_FRAME, m')"
  shows "m' = m"
  using acct_alloc_none [OF space_invD(1) [OF assms(1)] alloc_frame_sel(1) [OF assms(2)]] assms(2)
  by (auto simp: alloc_frame_def split: prod.splits)

lemma space_free:
  assumes inv: "space_inv KT ext P m" and a: "frame_ok (page_frames m) a" "ext (frame_of a) = Suc n"
  shows "space_inv KT (ext(frame_of a := n)) P (free_frame a m)" "same_rest m (free_frame a m)"
    "same_pages P m (free_frame a m)"
proof -
  note ac = acct_free [OF space_invD(1) [OF inv] a]
  show "same_rest m (free_frame a m)" using ac(2) by (simp add: same_rest_def)
  show "same_pages P m (free_frame a m)" by (simp add: free_frame_def)
  show "space_inv KT (ext(frame_of a := n)) P (free_frame a m)" unfolding free_frame_def
    by (rule space_pmm [OF inv ac(1)])
qed


subsection \<open>Stores to a page table entry\<close>

lemma tab_parts:
  assumes "slot_at KT P r (Tab p i) = Some f"
  shows "p \<in> P" "i < 768" "present (r p i)" "f = base (r p i)"
  using assms by (auto simp: slot_at.simps split: if_splits)

lemma pte_store:
  fixes w :: u32
  assumes inv: "space_inv KT ext P m" and tab: "slots KT P m (Tab p i) = Some f" and j: "j < 1024"
  defines "m' \<equiv> set_word f j w m"
  shows "slots KT P m' = (slots KT P m)(Page p i j := if present w then Some (base w) else None)"
    and "dirs_ok KT P (ram m')" "\<not> present (ram m' (KT 896) 0)"
    and "\<And>q k. q \<in> P \<Longrightarrow> ram m' q k = ram m q k"
    and "\<And>q k l. slots KT P m (Tab q k) = Some (base (ram m q k)) \<Longrightarrow> (q, k, l) \<noteq> (p, i, j) \<Longrightarrow>
           ram m' (base (ram m q k)) l = ram m (base (ram m q k)) l"
    and "ram m' f j = w" "\<And>a l. a \<noteq> f \<Longrightarrow> ram m' a l = ram m a l"
proof -
  note u = space_invD(2) [OF inv]
  note ap = struct_apart [OF u tab, simplified]
  have m': "ram m' = (ram m)(f := (ram m f)(j := w))" by (simp add: m'_def set_word_def)
  show "slots KT P m' = (slots KT P m)(Page p i j := if present w then Some (base w) else None)"
    unfolding m' by (rule slot_at_pte [OF u tab j])
  show d: "ram m' q k = ram m q k" if "q \<in> P" for q k using ap(1) [OF that] by (simp add: m')
  then show "dirs_ok KT P (ram m')" using space_invD(3) [OF inv] by (auto simp: dirs_ok_def)
  show "\<not> present (ram m' (KT 896) 0)" using ap(3) [of 896] space_invD(5) [OF inv] by (simp add: m')
  show "ram m' f j = w" "\<And>a l. a \<noteq> f \<Longrightarrow> ram m' a l = ram m a l" by (simp_all add: m')
  fix q k l
  assume t: "slots KT P m (Tab q k) = Some (base (ram m q k))" and ne: "(q, k, l) \<noteq> (p, i, j)"
  show "ram m' (base (ram m q k)) l = ram m (base (ram m q k)) l"
    using uniqD [OF u tab, of "Tab q k"] t ne by (auto simp: m')
qed

lemma pages_ok_pte:
  assumes inv: "space_inv KT ext P m" and tab: "slots KT P m (Tab p i) = Some f" and j: "j < 1024"
    and new: "present w \<Longrightarrow> (w AND 4 \<noteq> 0 \<longrightarrow> ram m p i AND 4 \<noteq> 0) \<and>
       (w AND 2 \<noteq> 0 \<longrightarrow> (\<forall>s. slots KT P m s = Some (base w) \<longrightarrow> s = Page p i j)) \<and>
       (\<forall>q k l. (q, k, l) \<noteq> (p, i, j) \<longrightarrow> slots KT P m (Page q k l) = Some (base w) \<longrightarrow>
          ram m (base (ram m q k)) l AND 2 = 0)"
  shows "pages_ok (slots KT P (set_word f j w m)) (ram (set_word f j w m))"
  unfolding pages_ok_def
proof (intro allI impI)
  let ?m = "set_word f j w m"
  note ps = pte_store [OF inv tab j, where w = w]
  fix q k l b assume s: "slots KT P ?m (Page q k l) = Some b"
  show "(ram ?m (base (ram ?m q k)) l AND 4 \<noteq> 0 \<longrightarrow> ram ?m q k AND 4 \<noteq> 0) \<and>
    (ram ?m (base (ram ?m q k)) l AND 2 \<noteq> 0 \<longrightarrow> (\<forall>s. slots KT P ?m s = Some b \<longrightarrow> s = Page q k l))"
  proof (cases "(q, k, l) = (p, i, j)")
    case True
    then have b: "present w" "b = base w" using s ps(1) by (auto split: if_splits)
    have "ram ?m p i = ram m p i" "base (ram m p i) = f" using ps(4) tab_parts [OF tab] by auto
    then show ?thesis using True b new ps(1,6) by auto
  next
    case False
    then have s0: "slots KT P m (Page q k l) = Some b" using s ps(1) by auto
    note pp = page_parts [OF s0]
    have eq: "ram ?m q k = ram m q k" "ram ?m (base (ram m q k)) l = ram m (base (ram m q k)) l"
      using ps(4) [OF pp(1)] ps(5) [OF pp(7) False] by auto
    have "s' = Page q k l" if "ram m (base (ram m q k)) l AND 2 \<noteq> 0" "slots KT P ?m s' = Some b" for s'
    proof (cases "s' = Page p i j")
      case True
      then have "present w" "b = base w" using that(2) ps(1) by (auto split: if_splits)
      then show ?thesis using new False s0 that(1) by blast
    next
      case False
      then have "slots KT P m s' = Some b" using that(2) ps(1) by auto
      then show ?thesis using pages_okD(2) [OF space_invD(6) [OF inv] s0 that(1)] by blast
    qed
    then show ?thesis using eq pages_okD(1) [OF space_invD(6) [OF inv] s0] by auto
  qed
qed

text \<open>A frame in hand is mapped.\<close>

lemma space_install:
  assumes inv: "space_inv KT ext P m" and tab: "slots KT P m (Tab p i) = Some f" and j: "j < 1024"
    and empty: "slots KT P m (Page p i j) = None" and w: "present w" "base w = a"
    and a: "frame_ok (page_frames m) a" "ext (frame_of a) = Suc n"
    and share: "\<And>s. slots KT P m s = Some a \<Longrightarrow>
      w AND 2 = 0 \<and> (\<exists>q k l. s = Page q k l \<and> q \<noteq> p \<and> ram m (base (ram m q k)) l AND 2 = 0)"
    and ub: "w AND 4 \<noteq> 0 \<Longrightarrow> ram m p i AND 4 \<noteq> 0"
  shows "space_inv KT (ext(frame_of a := n)) P (set_word f j w m)"
  unfolding space_inv_def
proof (intro conjI)
  note ps = pte_store [OF inv tab j, where w = w]
  have sl: "slots KT P (set_word f j w m) = (slots KT P m)(Page p i j := Some a)" using ps(1) w by simp
  show "acct (slots KT P (set_word f j w m)) (page_frames (set_word f j w m)) (ext(frame_of a := n))"
    unfolding sl set_word_sel by (rule acct_put [OF space_invD(1) [OF inv] empty a])
  show "uniq (slots KT P (set_word f j w m))" unfolding sl uniq_def
  proof (intro allI impI)
    fix s t b
    assume st: "((slots KT P m)(Page p i j := Some a)) s = Some b"
      "((slots KT P m)(Page p i j := Some a)) t = Some b" "s \<noteq> t"
    have "s = Page p i j \<and> b = a \<or> slots KT P m s = Some b" using st(1) by (cases "s = Page p i j") simp_all
    moreover have "t = Page p i j \<and> b = a \<or> slots KT P m t = Some b" using st(2) by (cases "t = Page p i j") simp_all
    ultimately consider "s = Page p i j" "slots KT P m t = Some a" "b = a" | "t = Page p i j" "slots KT P m s = Some a" "b = a"
      | "slots KT P m s = Some b" "slots KT P m t = Some b"
      using st(3) by blast
    then show "\<exists>p i j q k l. s = Page p i j \<and> t = Page q k l \<and> p \<noteq> q"
    proof cases
      case 1
      then show ?thesis using share [of t] by blast
    next
      case 2
      then show ?thesis using share [of s] by blast
    next
      case 3
      then show ?thesis using space_invD(2) [OF inv] st(3) unfolding uniq_def by blast
    qed
  qed
  show "pages_ok (slots KT P (set_word f j w m)) (ram (set_word f j w m))"
  proof (rule pages_ok_pte [OF inv tab j])
    have "ram m (base (ram m q k)) l AND 2 = 0" if "slots KT P m (Page q k l) = Some a" for q k l
      using share [OF that] by blast
    moreover have "s = Page p i j" if "w AND 2 \<noteq> 0" "slots KT P m s = Some a" for s
      using share [OF that(2)] that(1) by blast
    ultimately show "(w AND 4 \<noteq> 0 \<longrightarrow> ram m p i AND 4 \<noteq> 0) \<and>
       (w AND 2 \<noteq> 0 \<longrightarrow> (\<forall>s. slots KT P m s = Some (base w) \<longrightarrow> s = Page p i j)) \<and>
       (\<forall>q k l. (q, k, l) \<noteq> (p, i, j) \<longrightarrow> slots KT P m (Page q k l) = Some (base w) \<longrightarrow>
          ram m (base (ram m q k)) l AND 2 = 0)"
      using ub unfolding w(2) by simp
  qed
  show "dirs_ok KT P (ram (set_word f j w m))" "\<not> present (ram (set_word f j w m) (KT 896) 0)"
    by (rule ps(2), rule ps(3))
  show "cr3 (set_word f j w m) \<in> P" using space_invD(4) [OF inv] by simp
qed

text \<open>The rights of a mapped page change.\<close>

lemma space_reflag:
  assumes inv: "space_inv KT ext P m" and s: "slots KT P m (Page p i j) = Some a"
    and w: "present w" "base w = a"
    and priv: "w AND 2 \<noteq> 0 \<Longrightarrow> \<forall>s. slots KT P m s = Some a \<longrightarrow> s = Page p i j"
    and wr: "\<And>q k l. (q, k, l) \<noteq> (p, i, j) \<Longrightarrow> slots KT P m (Page q k l) = Some a \<Longrightarrow>
       ram m (base (ram m q k)) l AND 2 = 0"
    and ub: "w AND 4 \<noteq> 0 \<Longrightarrow> ram m p i AND 4 \<noteq> 0"
  shows "space_inv KT ext P (set_word (base (ram m p i)) j w m)"
    "slots KT P (set_word (base (ram m p i)) j w m) = slots KT P m"
proof -
  note pp = page_parts [OF s]
  note ps = pte_store [OF inv pp(7,3), where w = w]
  show sl: "slots KT P (set_word (base (ram m p i)) j w m) = slots KT P m" using ps(1) w s by auto
  have "pages_ok (slots KT P (set_word (base (ram m p i)) j w m)) (ram (set_word (base (ram m p i)) j w m))"
    by (rule pages_ok_pte [OF inv pp(7,3)])
      (use s w priv ub wr in \<open>auto simp: w(2)\<close>)
  then show "space_inv KT ext P (set_word (base (ram m p i)) j w m)"
    using ps(2,3) space_invD [OF inv] unfolding space_inv_def sl by simp
qed

text \<open>A page is unmapped and its frame given back.\<close>

lemma space_drop:
  assumes inv: "space_inv KT ext P m" and s: "slots KT P m (Page p i j) = Some a" and w: "\<not> present w"
  defines "m' \<equiv> set_word (base (ram m p i)) j w (free_frame a m)"
  shows "space_inv KT ext P m'" "slots KT P m' = (slots KT P m)(Page p i j := None)" "same_rest m m'"
proof -
  note pp = page_parts [OF s]
  note ps = pte_store [OF inv pp(7,3), where w = w]
  have sl: "slots KT P (set_word (base (ram m p i)) j w m) = (slots KT P m)(Page p i j := None)"
    using ps(1) w by simp
  note at = acct_take [OF space_invD(1) [OF inv] s]
  have rm: "ram m' = ram (set_word (base (ram m p i)) j w m)" by (simp add: m'_def set_word_def)
  note af = acct_free [OF at space_frame_ok [OF inv s], of "ext (frame_of a)", simplified fun_upd_upd]
  have e: "ext(frame_of a := ext (frame_of a)) = ext" by simp
  show "slots KT P m' = (slots KT P m)(Page p i j := None)" unfolding rm by (rule sl)
  show "same_rest m m'" using af(2) by (simp add: m'_def same_rest_def)
  have "pages_ok (slots KT P (set_word (base (ram m p i)) j w m)) (ram (set_word (base (ram m p i)) j w m))"
    by (rule pages_ok_pte [OF inv pp(7,3)]) (use w in auto)
  then show "space_inv KT ext P m'"
    using ps(2,3) space_invD(4) [OF inv] af(1) e uniq_none [OF space_invD(2) [OF inv]]
    unfolding space_inv_def rm sl by (simp add: m'_def)
qed


lemma uview_pte:
  assumes inv: "space_inv KT ext P m" and tab: "slots KT P m (Tab p i) = Some f" and j: "j < 1024"
    and w: "present w \<Longrightarrow> base w \<noteq> f" and q: "q \<in> P"
  shows "uview (set_word f j w m) q =
    (if q = p then (uview m p)((i, j) := if present w
        then Some (fst (rights w), snd (rights w), page_words m (base w)) else None) else uview m q)"
proof
  let ?m = "set_word f j w m"
  note ps = pte_store [OF inv tab j, where w = w]
  note tp = tab_parts [OF tab]
  have other: "upte ?m q k l = upte m q k l" if "(q, k, l) \<noteq> (p, i, j)" for k l
  proof (cases "k < 768 \<and> present (ram m q k)")
    case True
    then have "slots KT P m (Tab q k) = Some (base (ram m q k))" using q by (simp add: slot_at.simps)
    then show ?thesis using ps(4) [OF q] ps(5) [of q k l] that by (simp add: upte_def)
  next
    case False
    then show ?thesis using ps(4) [OF q] by (auto simp: upte_def)
  qed
  have here: "upte ?m p i j = (if present w then Some w else None)"
    using ps(4) [OF tp(1)] ps(6) tp j by (simp add: upte_def)
  have words: "page_words ?m b = page_words m b" if "b \<noteq> f" for b
    using ps(7) [OF that] by (simp add: page_words_def)
  have keep: "base e \<noteq> f" if "upte m q k l = Some e" for k l e
    using uniqD [OF space_invD(2) [OF inv] tab, of "Page q k l"] slot_page [OF q, of KT m k l] that by auto
  fix kl :: "nat \<times> nat" obtain k l where kl: "kl = (k, l)" by fastforce
  show "uview ?m q kl = (if q = p then (uview m p)((i, j) := if present w
        then Some (fst (rights w), snd (rights w), page_words m (base w)) else None) else uview m q) kl"
  proof (cases "(q, k, l) = (p, i, j)")
    case True
    then show ?thesis using here words w by (auto simp: uview_def kl)
  next
    case False
    have "uview ?m q (k, l) = uview m q (k, l)"
      using other [OF False] words keep by (auto simp: uview_def split: option.splits)
    then show ?thesis using False by (auto simp: kl)
  qed
qed

subsection \<open>Mapping a user page\<close>

text \<open>A store to an entry of the user half of a directory.\<close>

lemma pde_store:
  assumes inv: "space_inv KT ext P m" and p: "p \<in> P" "i < 768"
    and ac: "acct (slots KT P (set_word p i w m)) (page_frames m) ext'"
    and uq: "uniq (slots KT P (set_word p i w m))"
    and pg: "\<And>q k l. slots KT P (set_word p i w m) (Page q k l) = slots KT P m (Page q k l)"
    and w: "present w \<Longrightarrow> w AND 2 \<noteq> 0" "present (ram m p i) \<Longrightarrow> base w = base (ram m p i)"
      "present (ram m p i) \<Longrightarrow> ram m p i AND 4 \<noteq> 0 \<Longrightarrow> w AND 4 \<noteq> 0"
    and others: "\<And>s a. \<not> is_page s \<Longrightarrow> slots KT P (set_word p i w m) s = Some a \<Longrightarrow>
      slots KT P m s \<noteq> Some a \<Longrightarrow> s = Tab p i \<and> (\<forall>t. slots KT P m t \<noteq> Some a)"
  shows "space_inv KT ext' P (set_word p i w m) \<and> same_pages P m (set_word p i w m)"
proof
  let ?m = "set_word p i w m"
  note u = space_invD(2) [OF inv]
  have dp: "slots KT P m (Dir p) = Some p" using p by simp
  note ap = struct_apart [OF u dp, simplified]
  have tb: "ram ?m (base (ram m q k)) l = ram m (base (ram m q k)) l"
    if "q \<in> P" "k < 768" "present (ram m q k)" for q k l using ap(2) [OF that] by (simp add: ram_set_word)
  have pde: "base (ram ?m q k) = base (ram m q k) \<and> (ram m q k AND 4 \<noteq> 0 \<longrightarrow> ram ?m q k AND 4 \<noteq> 0)"
    if "present (ram m q k)" for q k using w(2,3) that by (auto simp: ram_set_word)
  have "dirs_ok KT P (ram ?m)"
    using space_invD(3) [OF inv] w(1) p(2) by (auto simp: dirs_ok_def ram_set_word kernel_tables_def)
  moreover have "\<not> present (ram ?m (KT 896) 0)"
    using ap(3) [of 896] space_invD(5) [OF inv] by (simp add: ram_set_word)
  moreover have "pages_ok (slots KT P ?m) (ram ?m)" unfolding pages_ok_def
  proof (intro allI impI)
    fix q k l b assume "slots KT P ?m (Page q k l) = Some b"
    then have s: "slots KT P m (Page q k l) = Some b" using pg by simp
    note pp = page_parts [OF s] and po = pages_okD [OF space_invD(6) [OF inv] s]
    have "s' = Page q k l" if "ram m (base (ram m q k)) l AND 2 \<noteq> 0" "slots KT P ?m s' = Some b" for s'
    proof (cases "is_page s'")
      case True
      then have "slots KT P m s' = Some b" using that(2) pg by (cases s') auto
      then show ?thesis using po(2) that(1) by blast
    next
      case False
      then show ?thesis using others [OF False that(2)] po(2) [OF that(1)] s by blast
    qed
    then show "(ram ?m (base (ram ?m q k)) l AND 4 \<noteq> 0 \<longrightarrow> ram ?m q k AND 4 \<noteq> 0) \<and>
      (ram ?m (base (ram ?m q k)) l AND 2 \<noteq> 0 \<longrightarrow> (\<forall>s. slots KT P ?m s = Some b \<longrightarrow> s = Page q k l))"
      using pde [OF pp(4)] tb [OF pp(1,2,4)] po(1) by auto
  qed
  ultimately show "space_inv KT ext' P ?m"
    using ac uq space_invD(4) [OF inv] by (simp add: space_inv_def)
  show "same_pages P m ?m" unfolding same_pages_def
  proof (intro ballI allI conjI impI)
    fix q k l assume q: "q \<in> P"
    note sp = pg [of q k l] slot_page [OF q, of KT ?m k l] slot_page [OF q, of KT m k l]
    have eq: "upte ?m q k l = upte m q k l" if "present (ram m q k)"
      using pde [OF that] tb [OF q _ that] sp by (cases "k < 768") (auto simp: upte_def split: if_splits)
    have "upte ?m q k l = None" if "\<not> present (ram m q k)"
    proof -
      have "upte m q k l = None" using that by (simp add: upte_def)
      then show ?thesis using sp by simp
    qed
    then show "upte ?m q k l = upte m q k l" using eq by (cases "present (ram m q k)") (simp_all add: upte_def)
    fix e n assume e: "upte m q k l = Some e"
    then have "slots KT P m (Page q k l) = Some (base e)" using sp by simp
    then have "base e \<noteq> p" using uniqD [OF u dp] by auto
    then show "ram ?m (base e) n = ram m (base e) n" by (simp add: ram_set_word)
  qed
qed

text \<open>Clearing a table through the recursive slot, once the directory entry names it.\<close>

lemma clear_table:
  assumes "base (cr3 m) = p" "base (ram m p 1023) = p" "base (ram m p d) = f" "f \<noteq> p" "d < 1024"
  shows "fold (\<lambda>i. set_pt d i 0) is m = fold (\<lambda>i. set_word f i 0) is m"
  using assms
proof (induction "is" arbitrary: m)
  case (Cons i "is")
  have "set_pt d i 0 m = set_word f i 0 m"
    using rec_virt(4) [of m d i 0] Cons.prems by (simp add: rec_dir_def table_of_def)
  then show ?case using Cons.IH [of "set_word f i 0 m"] Cons.prems by (simp add: ram_set_word)
qed simp

lemma fold_zero_ram:
  "ram (fold (\<lambda>i. set_word f i 0) [0..<1024] m) = (ram m)(f := (\<lambda>i. if i < 1024 then 0 else ram m f i))"
  using fold_set_word [of f "\<lambda>_. 0" "[0..<1024]" m] by (auto simp: fun_eq_iff)

lemma set_word_eq:
  assumes "ram m' = (ram m)(f := (ram m f)(i := w))" "same_rest m m'" "page_frames m' = page_frames m"
  shows "m' = set_word f i w m"
  using assms by (simp add: set_word_def same_rest_def)

lemma new_table_user:
  assumes inv: "space_inv KT ext P m" and p: "cr3 m = p" "d < 768" "\<not> present (ram m p d)"
    and al: "alloc_frame m = (f, m1)" "f \<noteq> NO_FRAME" and fl: "present fl" "fl AND 0xFFFFF000 = 0" "fl AND 2 \<noteq> 0"
  defines "m2 \<equiv> fold (\<lambda>i. set_pt d i 0) [0..<1024] (set_pd d (f OR fl) m1)"
  shows "space_inv KT ext P m2" "same_pages P m m2" "same_rest m m2"
    "slots KT P m2 = (slots KT P m)(Tab p d := Some f)" "ram m2 p d = f OR fl"
    "\<And>a. a \<noteq> p \<Longrightarrow> a \<noteq> f \<Longrightarrow> ram m2 a = ram m a" "ext (frame_of f) = 0" "\<And>s. slots KT P m s \<noteq> Some f"
proof -
  note sa = space_alloc [OF inv al]
  have pP: "p \<in> P" using space_invD(4) [OF inv] p by simp
  have fb: "base f = f" using frame_okD(1) [OF sa(2)] .
  have c1: "cr3 m1 = p" using sa(6) p by (simp add: same_rest_def)
  have fp: "f \<noteq> p" using sa(4) [of "Dir p"] pP by auto
  define mz where "mz = m1\<lparr>ram := (ram m1)(f := (\<lambda>i. if i < 1024 then 0 else ram m1 f i))\<rparr>"
  have asf: "aside KT P m1 f" by (rule aside_hand [OF sa(4)])
  have k896: "f \<noteq> KT 896" using sa(4) [of "KTab 896"] by auto
  have invz: "space_inv KT (ext(frame_of f := 1)) P mz" and vz: "same_pages P m1 mz"
    unfolding mz_def using store_aside [OF sa(1) asf] k896 by blast+
  have slz: "slots KT P mz = slots KT P m" unfolding mz_def
    using aside_store(1) [OF asf] sa(5) by simp
  have bf: "base (f OR fl) = f" by (rule base_entry [OF fb fl(2)])
  have pf: "present (f OR fl)" using present_entry [OF fb] fl(1) by simp
  have m2: "m2 = set_word p d (f OR fl) mz"
  proof -
    have r1: "base (cr3 m1) = p" "base (ram m1 p 1023) = p"
      using c1 space_dir_base [OF inv pP] dirs_okD(1) [OF space_invD(3) [OF inv] pP] sa(5) by simp_all
    then have "set_pd d (f OR fl) m1 = set_word p d (f OR fl) m1"
      using rec_virt(3) [of m1] by (simp add: rec_dir_def)
    moreover have "fold (\<lambda>i. set_pt d i 0) [0..<1024] (set_word p d (f OR fl) m1) =
      fold (\<lambda>i. set_word f i 0) [0..<1024] (set_word p d (f OR fl) m1)"
      by (rule clear_table [where p = p]) (use r1 p(2) bf fp in \<open>simp_all add: ram_set_word\<close>)
    ultimately have e: "m2 = fold (\<lambda>i. set_word f i 0) [0..<1024] (set_word p d (f OR fl) m1)"
      by (simp only: m2_def)
    have "ram m2 = (ram mz)(p := (ram mz p)(d := f OR fl))"
      unfolding e fold_zero_ram using fp by (auto simp: mz_def set_word_def fun_eq_iff)
    then show ?thesis by (rule set_word_eq) (simp_all add: e mz_def same_rest_def)
  qed
  have sl: "slots KT P (set_word p d (f OR fl) mz) = (slots KT P mz)(Tab p d := Some f)"
  proof -
    have "slot_at KT P ((ram mz)(p := (ram mz p)(d := f OR fl))) = (slots KT P mz)(Tab p d := Some (base (f OR fl)))"
      by (rule slot_at_new_table [OF space_invD(2) [OF invz] pP p(2)])
        (use p(3) sa(5) fp pf bf in \<open>simp_all add: mz_def\<close>)
    then show ?thesis unfolding bf by (simp add: set_word_def)
  qed
  have none: "slots KT P mz (Tab p d) = None" using p(3) sa(5) fp by (simp add: mz_def slot_at.simps)
  have fokz: "frame_ok (page_frames mz) f" using sa(2) by (simp add: mz_def)
  have ez: "ext(frame_of f := 1, frame_of f := 0) = ext" using sa(3) by auto
  have ac: "acct (slots KT P (set_word p d (f OR fl) mz)) (page_frames mz) ext"
    unfolding sl using acct_put [OF space_invD(1) [OF invz] none fokz, of 0] ez by simp
  have hz: "slots KT P mz s \<noteq> Some f" for s using sa(4) [of s] slz sa(5) by simp
  have st: "space_inv KT ext P (set_word p d (f OR fl) mz) \<and> same_pages P mz (set_word p d (f OR fl) mz)"
  proof (rule pde_store [OF invz pP p(2) ac])
    show "uniq (slots KT P (set_word p d (f OR fl) mz))"
      unfolding sl by (rule uniq_fresh [OF space_invD(2) [OF invz]]) (use hz in blast)
    show "(f OR fl) AND 2 \<noteq> 0" using entry_flag [OF fb, of 2] fl(3) by simp
    show "base (f OR fl) = base (ram mz p d)" "(f OR fl) AND 4 \<noteq> 0" if "present (ram mz p d)"
      using that p(3) sa(5) fp by (simp_all add: mz_def)
  qed (use sl hz in \<open>auto split: if_splits\<close>)
  show "space_inv KT ext P m2" using st m2 by simp
  show "same_pages P m m2" using st m2 same_pages_trans [OF same_pages_trans [OF sa(7) vz]] by simp
  show "same_rest m m2" using sa(6) unfolding m2 by (simp add: same_rest_def mz_def)
  show "slots KT P m2 = (slots KT P m)(Tab p d := Some f)" using sl slz m2 by simp
  show "ram m2 p d = f OR fl" unfolding m2 by (simp add: ram_set_word)
  show "ram m2 a = ram m a" if "a \<noteq> p" "a \<noteq> f" for a
    unfolding m2 using that sa(5) by (simp add: fun_eq_iff ram_set_word mz_def)
  show "ext (frame_of f) = 0" by (rule sa(3))
  show "slots KT P m s \<noteq> Some f" for s using sa(4) [of s] sa(5) by simp
qed


text \<open>
  The effect of preparing the table for a user address: no page changes, and the frames the
  kernel has in hand keep their words.
\<close>

definition prepared ::
  "(nat \<Rightarrow> u32) \<Rightarrow> (nat \<Rightarrow> nat) \<Rightarrow> u32 set \<Rightarrow> nat \<Rightarrow> 'a machine_scheme \<Rightarrow> 'a machine_scheme \<Rightarrow> bool" where
  "prepared KT ext P d m m1 \<longleftrightarrow> space_inv KT ext P m1 \<and> same_pages P m m1 \<and> same_rest m m1 \<and>
     (\<forall>s. s \<noteq> Tab (cr3 m) d \<longrightarrow> slots KT P m1 s = slots KT P m s) \<and>
     (\<forall>a. (\<forall>s. slots KT P m s = Some a \<longrightarrow> is_page s) \<longrightarrow> 0 < ext (frame_of a) \<longrightarrow> ram m1 a = ram m a)"

lemma preparedD:
  assumes "prepared KT ext P d m m1"
  shows "space_inv KT ext P m1" "same_pages P m m1" "same_rest m m1"
    "\<And>s. s \<noteq> Tab (cr3 m) d \<Longrightarrow> slots KT P m1 s = slots KT P m s"
    "\<And>a. (\<And>s. slots KT P m s = Some a \<Longrightarrow> is_page s) \<Longrightarrow> 0 < ext (frame_of a) \<Longrightarrow> ram m1 a = ram m a"
  using assms unfolding prepared_def by blast+

lemma prepared_refl: "space_inv KT ext P m \<Longrightarrow> prepared KT ext P d m m"
  by (simp add: prepared_def)

lemma map_page_table_user:
  assumes inv: "space_inv KT ext P m" and d: "d < 768" and mt: "map_page_table m d flags = (r, m1)"
  shows "prepared KT ext P d m m1" "r = None \<or> r = Some E_NOMEM"
    "r = None \<Longrightarrow> slots KT P m1 (Tab (cr3 m) d) = Some (base (ram m1 (cr3 m) d))"
    "r = None \<Longrightarrow> flags AND 4 \<noteq> 0 \<Longrightarrow> ram m1 (cr3 m) d AND 4 \<noteq> 0"
proof -
  let ?p = "cr3 m"
  have pP: "?p \<in> P" by (rule space_invD(4) [OF inv])
  note sv = space_virt [OF inv]
  have goal: "prepared KT ext P d m m1 \<and> (r = None \<or> r = Some E_NOMEM) \<and>
    (r = None \<longrightarrow> slots KT P m1 (Tab ?p d) = Some (base (ram m1 ?p d)) \<and> (flags AND 4 \<noteq> 0 \<longrightarrow> ram m1 ?p d AND 4 \<noteq> 0))"
  proof (cases "present (ram m ?p d)")
    case False
    obtain f m0 where al: "alloc_frame m = (f, m0)" by fastforce
    show ?thesis
    proof (cases "f = NO_FRAME")
      case True
      then have "m1 = m" "r = Some E_NOMEM"
        using mt False al space_alloc_none [OF inv] sv(1) by (auto simp: map_page_table_def)
      then show ?thesis using prepared_refl [OF inv] by simp
    next
      case ne: False
      define fl where "fl = (if flags AND 4 \<noteq> 0 then PAGE_USER_ACCESS else PAGE_KERNEL_ONLY)"
      have fl: "present fl" "fl AND 0xFFFFF000 = 0" "fl AND 2 \<noteq> 0"
        using low_consts by (simp_all add: fl_def) (simp_all add: PAGE_USER_ACCESS_def PAGE_KERNEL_ONLY_def)
      have m1: "m1 = fold (\<lambda>i. set_pt d i 0) [0..<1024] (set_pd d (f OR fl) m0)" "r = None"
        using mt False al ne sv(1) by (auto simp: map_page_table_def fl_def)
      note nt = new_table_user [OF inv refl d False al ne fl, folded m1(1)]
      have fb: "base f = f" by (rule frame_okD(1) [OF space_alloc(2) [OF inv al ne]])
      have "ram m1 ?p d AND 4 = fl AND 4" using entry_flag [OF fb, of 4] nt(5) by simp
      then have u: "flags AND 4 \<noteq> 0 \<Longrightarrow> ram m1 ?p d AND 4 \<noteq> 0"
        by (simp add: fl_def PAGE_USER_ACCESS_def)
      have "ram m1 a = ram m a" if "\<And>s. slots KT P m s = Some a \<Longrightarrow> is_page s" "0 < ext (frame_of a)" for a
        using nt(6) [of a] nt(7) that(2) that(1) [of "Dir ?p"] pP by fastforce
      then have "prepared KT ext P d m m1" using nt(1,2,3,4) unfolding prepared_def by simp
      then show ?thesis using nt(4,5) m1(2) u base_entry [OF fb fl(2)] by simp
    qed
  next
    case True
    have tab: "slots KT P m (Tab ?p d) = Some (base (ram m ?p d))" using True d pP by (simp add: slot_at.simps)
    show ?thesis
    proof (cases "flags AND 4 \<noteq> 0 \<and> ram m ?p d AND 4 = 0")
      case False
      then have "m1 = m" "r = None" using mt True sv(1) by (auto simp: map_page_table_def split: if_splits)
      then show ?thesis using prepared_refl [OF inv] tab False by blast
    next
      case op: True
      let ?w = "ram m ?p d OR 4"
      have m1: "m1 = set_word ?p d ?w m" "r = None"
        using mt True op sv(1,3) by (auto simp: map_page_table_def)
      have w: "present ?w" "base ?w = base (ram m ?p d)" "?w AND 2 \<noteq> 0" "?w AND 4 \<noteq> 0"
        using True dirs_okD(3) [OF space_invD(3) [OF inv] pP d True]
        by (simp_all add: present_def base_def word_ao_dist)
      have sl: "slots KT P m1 = slots KT P m"
        using slot_at_same_table [OF space_invD(2) [OF inv] pP d, of ?w] True w by (simp add: m1 set_word_def)
      have "space_inv KT ext P m1 \<and> same_pages P m m1"
        unfolding m1(1)
        by (rule pde_store [OF inv pP d])
          (use sl space_invD [OF inv] w in \<open>auto simp: m1(1)\<close>)
      moreover have "ram m1 a = ram m a" if "\<And>s. slots KT P m s = Some a \<Longrightarrow> is_page s" for a
        using that [of "Dir ?p"] pP by (auto simp: m1(1) ram_set_word fun_eq_iff)
      moreover have "same_rest m m1" unfolding m1(1) by simp
      ultimately have "prepared KT ext P d m m1" using sl unfolding prepared_def by simp
      then show ?thesis using sl tab w m1 by (simp add: ram_set_word)
    qed
  qed
  then show "prepared KT ext P d m m1" "r = None \<or> r = Some E_NOMEM"
    "r = None \<Longrightarrow> slots KT P m1 (Tab (cr3 m) d) = Some (base (ram m1 (cr3 m) d))"
    "r = None \<Longrightarrow> flags AND 4 \<noteq> 0 \<Longrightarrow> ram m1 (cr3 m) d AND 4 \<noteq> 0" by blast+
qed

lemma map_page_user:
  assumes inv: "space_inv KT ext P m" and d: "pd_index v < 768" and mp: "map_page m v a fl = (r, m')"
    and b: "base a = a"
  shows "r \<noteq> None \<Longrightarrow> prepared KT ext P (pd_index v) m m'"
    and "r = None \<Longrightarrow> \<exists>m1. prepared KT ext P (pd_index v) m m1 \<and>
      slots KT P m1 (Tab (cr3 m) (pd_index v)) = Some (base (ram m1 (cr3 m) (pd_index v))) \<and>
      (fl AND 4 \<noteq> 0 \<longrightarrow> ram m1 (cr3 m) (pd_index v) AND 4 \<noteq> 0) \<and>
      (case upte m (cr3 m) (pd_index v) (pt_index v) of None \<Rightarrow> True | Some e \<Rightarrow> base e = a) \<and>
      m' = set_word (base (ram m1 (cr3 m) (pd_index v))) (pt_index v) (a OR (fl AND 0xFFF)) m1"
proof -
  let ?p = "cr3 m" and ?d = "pd_index v" and ?t = "pt_index v"
  obtain r0 m1 where mt: "map_page_table m ?d fl = (r0, m1)" by fastforce
  note mu = map_page_table_user [OF inv d mt]
  note pd = preparedD [OF mu(1)]
  have cr: "cr3 m1 = ?p" using pd(3) by (simp add: same_rest_def)
  have pP: "?p \<in> P" by (rule space_invD(4) [OF inv])
  have up: "upte m1 ?p ?d ?t = upte m ?p ?d ?t" using pd(2) pP by (simp add: same_pages_def)
  note sv = space_virt [OF pd(1)]
  have pt: "pt_virt m1 ?d ?t = ram m1 (base (ram m1 ?p ?d)) ?t" using sv(2) [of ?d ?t] cr d by simp
  have set: "set_pt ?d ?t w m1 = set_word (base (ram m1 ?p ?d)) ?t w m1" for w
    using sv(4) [of ?d ?t w] cr d by simp
  show "prepared KT ext P ?d m m'" if "r \<noteq> None"
    using mp mt that mu(1) by (auto simp: map_page_def Let_def split: option.splits if_splits)
  show "\<exists>m1. prepared KT ext P ?d m m1 \<and> slots KT P m1 (Tab ?p ?d) = Some (base (ram m1 ?p ?d)) \<and>
    (fl AND 4 \<noteq> 0 \<longrightarrow> ram m1 ?p ?d AND 4 \<noteq> 0) \<and>
    (case upte m ?p ?d ?t of None \<Rightarrow> True | Some e \<Rightarrow> base e = a) \<and>
    m' = set_word (base (ram m1 ?p ?d)) ?t (a OR (fl AND 0xFFF)) m1" if "r = None"
  proof -
    have r0: "r0 = None" using mp mt that by (auto simp: map_page_def Let_def split: option.splits)
    have c: "\<not> (present (pt_virt m1 ?d ?t) \<and> base (pt_virt m1 ?d ?t) \<noteq> base a)"
      and m': "m' = set_pt ?d ?t (base a OR (fl AND 0xFFF)) m1"
      using mp mt that r0 by (auto simp: map_page_def Let_def split: if_splits)
    have "case upte m ?p ?d ?t of None \<Rightarrow> True | Some e \<Rightarrow> base e = a"
      unfolding up [symmetric] using c b by (auto simp: upte_def pt)
    then show ?thesis using mu(1,3,4) r0 m' b set by auto
  qed
qed

lemma unmap_page_user:
  assumes inv: "space_inv KT ext P m" and d: "pd_index v < 768"
  shows "unmap_page v m = (if present (ram m (cr3 m) (pd_index v))
    then set_word (base (ram m (cr3 m) (pd_index v))) (pt_index v) 0 m else m)"
  using space_virt [OF inv] d by (simp add: unmap_page_def Let_def)


subsection \<open>Mapping in the kernel's half\<close>

lemma space_kernel_entry:
  assumes inv: "space_inv KT ext P m" and i: "i \<in> kernel_tables"
  shows "present (ram m (cr3 m) i)" "base (ram m (cr3 m) i) = KT i" "i < 1024"
  using dirs_okD(2) [OF space_invD(3,4) [OF inv] i] i by (auto simp: kernel_tables_def)

lemma map_page_kernel:
  assumes inv: "space_inv KT ext P m" and i: "pd_index v \<in> kernel_tables" and fl: "fl AND 4 = 0"
    and b: "base a = a"
  shows "map_page m v a fl =
    (if present (ram m (KT (pd_index v)) (pt_index v)) \<and> base (ram m (KT (pd_index v)) (pt_index v)) \<noteq> a
     then (Some E_BUSY, m)
     else (None, set_word (KT (pd_index v)) (pt_index v) (a OR (fl AND 0xFFF)) m))"
  using space_virt [OF inv] space_kernel_entry [OF inv i] fl b
  by (simp add: map_page_def map_page_table_def Let_def)

lemma unmap_page_kernel:
  assumes inv: "space_inv KT ext P m" and i: "pd_index v \<in> kernel_tables"
  shows "unmap_page v m = set_word (KT (pd_index v)) (pt_index v) 0 m"
  using space_virt [OF inv] space_kernel_entry [OF inv i] by (simp add: unmap_page_def Let_def)

text \<open>The temporary page shows the frame in hand; writing through it writes that frame.\<close>

definition temp_shows :: "(nat \<Rightarrow> u32) \<Rightarrow> u32 \<Rightarrow> 'a machine_scheme \<Rightarrow> bool" where
  "temp_shows KT a m \<longleftrightarrow> base (cr3 m) = cr3 m \<and> base (ram m (cr3 m) 896) = KT 896 \<and>
     present (ram m (cr3 m) 896) \<and> base (ram m (cr3 m) 1023) = cr3 m \<and>
     base (ram m (KT 896) 0) = a \<and> a \<noteq> cr3 m \<and> a \<noteq> KT 896"

lemma temp_vword: "temp_shows KT a m \<Longrightarrow> set_vword TEMP_MAP_VADDR i w m = set_word a i w m"
  by (simp add: temp_shows_def set_vword_def walk_def)

lemma temp_shows_set: "temp_shows KT a m \<Longrightarrow> temp_shows KT a (set_word a i w m)"
  by (auto simp: temp_shows_def ram_set_word)

lemma temp_fill:
  assumes "temp_shows KT a m" "\<And>m' i. temp_shows KT a m' \<Longrightarrow> ram m' (cr3 m) = ram m (cr3 m) \<Longrightarrow> cr3 m' = cr3 m \<Longrightarrow> g m' i = h i"
  shows "fold (\<lambda>i m. set_vword TEMP_MAP_VADDR i (g m i) m) is m = fold (\<lambda>i. set_word a i (h i)) is m"
  using assms
proof (induction "is" arbitrary: m)
  case (Cons i "is")
  have e: "set_vword TEMP_MAP_VADDR i (g m i) m = set_word a i (h i) m"
    using temp_vword [OF Cons.prems(1)] Cons.prems(2) [OF Cons.prems(1)] by simp
  have "ram (set_word a i (h i) m) (cr3 m) = ram m (cr3 m)"
    using Cons.prems(1) by (auto simp: temp_shows_def ram_set_word fun_eq_iff)
  then show ?case
    using Cons.IH [OF temp_shows_set [OF Cons.prems(1)]] Cons.prems(2) e by simp
qed simp

lemma map_temp:
  assumes inv: "space_inv KT ext P m" and hand: "\<And>s. slots KT P m s \<noteq> Some a" and b: "base a = a"
  shows "map_page m TEMP_MAP_VADDR a PAGE_KERNEL_ONLY = (None, set_word (KT 896) 0 (a OR PAGE_KERNEL_ONLY) m)"
    "temp_shows KT a (set_word (KT 896) 0 (a OR PAGE_KERNEL_ONLY) m)"
proof -
  have "PAGE_KERNEL_ONLY AND 4 = 0" "PAGE_KERNEL_ONLY AND 0xFFF = PAGE_KERNEL_ONLY"
    by (simp_all add: PAGE_KERNEL_ONLY_def)
  then show "map_page m TEMP_MAP_VADDR a PAGE_KERNEL_ONLY = (None, set_word (KT 896) 0 (a OR PAGE_KERNEL_ONLY) m)"
    using map_page_kernel [OF inv, of TEMP_MAP_VADDR PAGE_KERNEL_ONLY a] b space_invD(5) [OF inv] by simp
  have "a \<noteq> cr3 m" using hand [of "Dir (cr3 m)"] space_invD(4) [OF inv] by auto
  moreover have "a \<noteq> KT 896" using hand [of "KTab 896"] by auto
  moreover have "KT 896 \<noteq> cr3 m"
    using asideD(1) [OF aside_ktab [OF inv temp_kernel] space_invD(4) [OF inv]] by simp
  ultimately show "temp_shows KT a (set_word (KT 896) 0 (a OR PAGE_KERNEL_ONLY) m)"
    using space_rec [OF inv] space_kernel_entry [OF inv temp_kernel(1)] base_entry [OF b low_consts(1)]
    by (simp add: temp_shows_def ram_set_word rec_dir_def)
qed

text \<open>Map the frame, fill it, unmap it: only the frame is left changed.\<close>

lemma temp_round:
  fixes h :: "nat \<Rightarrow> u32"
  assumes inv: "space_inv KT ext P m" and hand: "\<And>s. slots KT P m s \<noteq> Some a" and b: "base a = a"
  defines "m1 \<equiv> set_word (KT 896) 0 (a OR PAGE_KERNEL_ONLY) m"
  defines "m2 \<equiv> unmap_page TEMP_MAP_VADDR (fold (\<lambda>i. set_word a i (h i)) [0..<1024] m1)"
  shows "space_inv KT ext P m2" "same_pages P m m2" "same_rest m m2" "slots KT P m2 = slots KT P m"
    "page_frames m2 = page_frames m" "\<And>i. i < 1024 \<Longrightarrow> ram m2 a i = h i"
    "\<And>f. f \<noteq> a \<Longrightarrow> f \<noteq> KT 896 \<Longrightarrow> ram m2 f = ram m f"
proof -
  let ?m = "fold (\<lambda>i. set_word a i (h i)) [0..<1024] m1"
  let ?x = "m\<lparr>ram := (ram m)(a := (\<lambda>i. if i < 1024 then h i else ram m a i))\<rparr>"
  have ts: "temp_shows KT a m1" unfolding m1_def by (rule map_temp(2) [OF inv hand b])
  have ts2: "temp_shows KT a (fold (\<lambda>i. set_word a i (h i)) is m1)" for "is"
    using ts by (induction "is" arbitrary: m1) (simp_all add: temp_shows_set)
  have rm: "ram ?m = (ram m1)(a := (\<lambda>i. if i < 1024 then h i else ram m1 a i))"
    using fold_set_word [of a h "[0..<1024]" m1] by (auto simp: fun_eq_iff)
  have "m2 = set_word (KT 896) 0 0 ?m"
    using ts2 [of "[0..<1024]"] rec_virt(1,4) [of ?m]
    by (simp add: m2_def unmap_page_def temp_shows_def rec_dir_def table_of_def)
  moreover have ak: "a \<noteq> KT 896" using ts by (simp add: temp_shows_def)
  ultimately have m2: "m2 = ?x\<lparr>ram := (ram ?x)(KT 896 := (ram ?x (KT 896))(0 := 0))\<rparr>"
    using rm by (auto simp: set_word_def m1_def fun_eq_iff)
  have ah: "aside KT P m a" by (rule aside_hand [OF hand])
  note s1 = store_aside [OF inv ah, of "\<lambda>i. if i < 1024 then h i else ram m a i"]
  have i1: "space_inv KT ext P ?x" "same_pages P m ?x" using s1 ak by auto
  note s2 = store_aside [OF i1(1) aside_ktab [OF i1(1) temp_kernel], of "(ram ?x (KT 896))(0 := 0)"]
  show "space_inv KT ext P m2" "same_pages P m m2"
    unfolding m2 using s2 same_pages_trans [OF i1(2)] by auto
  show "slots KT P m2 = slots KT P m"
    unfolding m2 aside_store(1) [OF aside_ktab [OF i1(1) temp_kernel]] aside_store(1) [OF ah] by simp
  show "same_rest m m2" "page_frames m2 = page_frames m" unfolding m2 by (simp_all add: same_rest_def)
  show "\<And>i. i < 1024 \<Longrightarrow> ram m2 a i = h i" "\<And>f. f \<noteq> a \<Longrightarrow> f \<noteq> KT 896 \<Longrightarrow> ram m2 f = ram m f"
    unfolding m2 using ak by simp_all
qed

subsection \<open>A new directory\<close>

lemma clone_dirs:
  assumes inv: "space_inv KT ext P m" and p: "p \<in> P" and b: "base c = c"
    and r: "\<And>i. i < 1024 \<Longrightarrow> r c i = (if 768 \<le> i \<and> i < 1023 then (ram m p i AND NOT 4) OR PAGE_KERNEL_ONLY
      else if i = 1023 then c OR PAGE_KERNEL_ONLY else PAGE_NOT_PRESENT)"
  shows "dirs_ok KT {c} r" "\<And>i. i < 768 \<Longrightarrow> \<not> present (r c i)"
proof -
  have "present (r c i) \<and> base (r c i) = KT i" if "i \<in> kernel_tables" for i
  proof -
    have "(NOT 4 :: u32) AND 0xFFFFF000 = 0xFFFFF000" by simp
    then have "base ((w AND NOT 4) OR PAGE_KERNEL_ONLY) = base w" for w
      using low_consts(1) by (simp add: base_def word_ao_dist and.assoc)
    moreover have "present (w OR PAGE_KERNEL_ONLY)" for w
      by (simp add: present_def word_ao_dist PAGE_KERNEL_ONLY_def or_eq_0_iff)
    ultimately show ?thesis
      using r [of i] that dirs_okD(2) [OF space_invD(3) [OF inv] p that] by (auto simp: kernel_tables_def)
  qed
  then show "dirs_ok KT {c} r" using r base_entry [OF b low_consts(1)] by (simp add: dirs_ok_def)
  show "\<not> present (r c i)" if "i < 768" for i using r [of i] that by simp
qed

lemma space_new_dir:
  assumes inv: "space_inv KT ext P m" and c: "frame_ok (page_frames m) c" "ext (frame_of c) = Suc 0"
    and hand: "\<And>s. slots KT P m s \<noteq> Some c" and d: "dirs_ok KT {c} (ram m)"
    and u: "\<And>i. i < 768 \<Longrightarrow> \<not> present (ram m c i)"
  shows "space_inv KT (ext(frame_of c := 0)) (insert c P) m"
    "slots KT (insert c P) m = (slots KT P m)(Dir c := Some c)" "c \<notin> P"
proof -
  show cP: "c \<notin> P" using hand [of "Dir c"] by auto
  show sl: "slots KT (insert c P) m = (slots KT P m)(Dir c := Some c)"
    using slot_at_new_dir [of "ram m" c KT P] u cP by simp
  have n: "slots KT P m (Dir c) = None" using cP by simp
  have "acct (slots KT (insert c P) m) (page_frames m) (ext(frame_of c := 0))"
    unfolding sl by (rule acct_put [OF space_invD(1) [OF inv] n c])
  moreover have "uniq (slots KT (insert c P) m)"
    unfolding sl by (rule uniq_fresh [OF space_invD(2) [OF inv]]) (use hand in blast)
  moreover have "dirs_ok KT (insert c P) (ram m)" using d space_invD(3) [OF inv] by (auto simp: dirs_ok_def)
  moreover have "pages_ok (slots KT (insert c P) m) (ram m)"
    unfolding sl pages_ok_def using space_invD(6) [OF inv] hand unfolding pages_ok_def by auto
  ultimately show "space_inv KT (ext(frame_of c := 0)) (insert c P) m"
    using space_invD(4,5) [OF inv] by (simp add: space_inv_def)
qed

lemma clone_spec:
  assumes inv: "space_inv KT ext P m" and cl: "clone_page_directory m = (c, m')"
  shows "same_pages P m m'" "same_rest m m'" "c = 0 \<Longrightarrow> m' = m"
    "c \<noteq> 0 \<Longrightarrow> c \<notin> P" "c \<noteq> 0 \<Longrightarrow> space_inv KT ext (insert c P) m'"
    "c \<noteq> 0 \<Longrightarrow> upte m' c i j = None"
    "c = 0 \<Longrightarrow> \<forall>f < frames (page_frames m). 0 < owners (page_frames m) f"
proof -
  obtain a m1 where al: "alloc_frame m = (a, m1)" by fastforce
  have goal: "same_pages P m m' \<and> same_rest m m' \<and> (c = 0 \<longrightarrow> m' = m \<and> (\<forall>f < frames (page_frames m). 0 < owners (page_frames m) f)) \<and>
    (c \<noteq> 0 \<longrightarrow> c \<notin> P \<and> space_inv KT ext (insert c P) m' \<and> upte m' c i j = None)"
  proof (cases "a = NO_FRAME")
    case True
    then have "m' = m" "c = 0"
      using cl al space_alloc_none [OF inv] by (auto simp: clone_page_directory_def)
    moreover have "\<forall>f < frames (page_frames m). 0 < owners (page_frames m) f"
      using pmm_alloc_frame_spec [OF acctD(1) [OF space_invD(1) [OF inv]] alloc_frame_sel(1) [OF al]] True by simp
    ultimately show ?thesis by simp
  next
    case False
    note sa = space_alloc [OF inv al False]
    have ab: "base a = a" by (rule frame_okD(1) [OF sa(2)])
    note mt = map_temp [OF sa(1,4) ab]
    have cr: "cr3 m1 = cr3 m" using sa(6) by (simp add: same_rest_def)
    define h where "h i = (if 768 \<le> i \<and> i < 1023 then (ram m (cr3 m) i AND NOT 4) OR PAGE_KERNEL_ONLY
      else if i = 1023 then a OR PAGE_KERNEL_ONLY else PAGE_NOT_PRESENT)" for i
    let ?m = "set_word (KT 896) 0 (a OR PAGE_KERNEL_ONLY) m1"
    have "KT 896 \<noteq> cr3 m"
      using asideD(1) [OF aside_ktab [OF inv temp_kernel] space_invD(4) [OF inv]] by simp
    then have rc: "ram ?m (cr3 m) = ram m (cr3 m)" using sa(5) by (simp add: set_word_def)
    have "fold (\<lambda>i m. set_vword TEMP_MAP_VADDR i (clone_entry m a i) m) [0..<1024] ?m =
      fold (\<lambda>i. set_word a i (h i)) [0..<1024] ?m"
    proof (rule temp_fill [OF mt(2)])
      fix m' :: "'a machine_scheme" and i
      assume "temp_shows KT a m'" "ram m' (cr3 ?m) = ram ?m (cr3 ?m)" "cr3 m' = cr3 ?m"
      then show "clone_entry m' a i = h i"
        using rec_virt(1) [of m'] rc cr by (simp add: clone_entry_def h_def temp_shows_def rec_dir_def)
    qed
    then have m': "m' = unmap_page TEMP_MAP_VADDR (fold (\<lambda>i. set_word a i (h i)) [0..<1024] ?m)" "c = a"
      using cl al False mt(1) by (auto simp: clone_page_directory_def Let_def)
    note tr = temp_round [OF sa(1,4) ab, where h = h, folded m'(1)]
    have z: "frame_of 0 = 0" by (simp add: frame_of_def)
    have c0: "a \<noteq> 0" using frame_okD(2) [OF sa(2)] z by (auto simp: PMM_LOW_MEMORY_FRAMES_def)
    note cd = clone_dirs [OF inv space_invD(4) [OF inv] ab, of "ram m'", folded h_def, OF tr(6)]
    have fo: "frame_ok (page_frames m') a" using sa(2) tr(5) by simp
    have hd: "slots KT P m' s \<noteq> Some a" for s using sa(4) [of s] tr(4) by simp
    have e1: "(ext(frame_of a := 1)) (frame_of a) = Suc 0" by simp
    note nd = space_new_dir [OF tr(1) fo e1 hd cd]
    have ee: "ext(frame_of a := 1, frame_of a := 0) = ext" using sa(3) by auto
    have "space_inv KT ext (insert a P) m'" using nd(1) unfolding ee .
    moreover have "upte m' a i j = None" using cd(2) by (auto simp: upte_def)
    moreover have "same_pages P m m'" using same_pages_trans [OF sa(7) same_pages_trans [OF _ tr(2)]] by simp
    moreover have "same_rest m m'" using same_rest_trans [OF sa(6) same_rest_trans [OF _ tr(3)]] by simp
    ultimately show ?thesis using nd(3) m'(2) c0 by simp
  qed
  then show "same_pages P m m'" "same_rest m m'" "c = 0 \<Longrightarrow> m' = m"
    "c \<noteq> 0 \<Longrightarrow> c \<notin> P" "c \<noteq> 0 \<Longrightarrow> space_inv KT ext (insert c P) m'" "c \<noteq> 0 \<Longrightarrow> upte m' c i j = None"
    "c = 0 \<Longrightarrow> \<forall>f < frames (page_frames m). 0 < owners (page_frames m) f"
    by blast+
qed

end
