(* ===== verification/Kheap.thy ===== *)
theory Kheap
  imports Spaces
begin

text \<open>
  The kernel heap, \<^verbatim>\<open>mm/kheap.c\<close>, on the paging model: the machine gains the file's globals.
  Block headers are a typed store, one header per virtual address, and the bytes of the blocks
  are a second store; the heap's pages are mapped through the same page tables every directory
  shares.  A panic, and the page fault of a header written where nothing is mapped, stop the
  kernel: \<open>None\<close>.  The walk along the list and the retry loop of \<^verbatim>\<open>kmalloc\<close> are partial functions,
  so a run that does not end is \<open>None\<close> too.
\<close>

subsection \<open>Blocks\<close>

definition KHEAP_START_VIRTUAL :: u32 where "KHEAP_START_VIRTUAL = 0xD0000000"
definition HEAP_MAGIC_ALLOCATED :: u32 where "HEAP_MAGIC_ALLOCATED = 0xDEADBEEF"
definition HEAP_MAGIC_FREE :: u32 where "HEAP_MAGIC_FREE = 0xFEEDFACE"

text \<open>\<^verbatim>\<open>sizeof(heap_block_t)\<close>: five words and three of padding.\<close>

abbreviation HDR :: u32 where "HDR \<equiv> 32"

record heap_block_t =
  blk_magic :: u32
  blk_size :: u32
  blk_is_free :: int
  blk_next :: u32
  blk_prev :: u32

record kheap = machine +
  current_heap_end :: u32
  heap_head :: u32
  heap_tail :: u32
  hdr :: "u32 \<Rightarrow> heap_block_t"
  heap_bytes :: "u32 \<Rightarrow> u8"

definition set_hdr :: "u32 \<Rightarrow> (heap_block_t \<Rightarrow> heap_block_t) \<Rightarrow> kheap \<Rightarrow> kheap" where
  "set_hdr a g m = m\<lparr>hdr := (hdr m)(a := g (hdr m a))\<rparr>"

definition heap_blocks_adjacent :: "kheap \<Rightarrow> u32 \<Rightarrow> u32 \<Rightarrow> bool" where
  "heap_blocks_adjacent m a b \<longleftrightarrow> a + HDR + blk_size (hdr m a) = b"

subsection \<open>Growing\<close>

definition rollback_page :: "u32 \<Rightarrow> nat \<Rightarrow> kheap \<Rightarrow> kheap" where
  "rollback_page start_addr j m =
     (let vaddr = start_addr + of_nat j * 0x1000; d = pd_index vaddr; t = pt_index vaddr in
      if \<not> present (pd_virt m d) then m
      else if present (pt_virt m d t) then set_pt d t 0 (free_frame (base (pt_virt m d t)) m)
      else m)"

definition heap_rollback :: "u32 \<Rightarrow> nat \<Rightarrow> kheap \<Rightarrow> kheap" where
  "heap_rollback start_addr count m =
     (fold (rollback_page start_addr) [0..<count] m)\<lparr>current_heap_end := start_addr\<rparr>"

fun grow_pages :: "u32 \<Rightarrow> nat list \<Rightarrow> kheap \<Rightarrow> bool \<times> kheap" where
  "grow_pages start_addr [] m = (True, m)"
| "grow_pages start_addr (i # is) m =
     (let (phys_frame, m1) = alloc_frame m in
      if phys_frame = NO_FRAME then (False, heap_rollback start_addr i m1)
      else case map_page m1 (current_heap_end m1) phys_frame 3 of
             (Some e, m2) \<Rightarrow> (False, heap_rollback start_addr i (free_frame phys_frame m2))
           | (None, m2) \<Rightarrow>
               grow_pages start_addr is (m2\<lparr>current_heap_end := current_heap_end m2 + 0x1000\<rparr>))"

definition heap_link :: "u32 \<Rightarrow> u32 \<Rightarrow> kheap \<Rightarrow> kheap" where
  "heap_link new_block total_alloc_size m =
     (let m1 = set_hdr new_block (\<lambda>_. \<lparr>blk_magic = HEAP_MAGIC_FREE, blk_size = total_alloc_size - HDR,
                 blk_is_free = 1, blk_next = 0, blk_prev = heap_tail m\<rparr>) m in
      if heap_head m1 = 0 then m1\<lparr>heap_head := new_block, heap_tail := new_block\<rparr>
      else
        let m2 = set_hdr (heap_tail m1) (\<lambda>b. b\<lparr>blk_next := new_block\<rparr>) m1;
            m3 = set_hdr new_block (\<lambda>b. b\<lparr>blk_prev := heap_tail m2\<rparr>) m2 in
        if blk_is_free (hdr m3 (heap_tail m3)) \<noteq> 0 \<and> heap_blocks_adjacent m3 (heap_tail m3) new_block
        then set_hdr (heap_tail m3) (\<lambda>b. b\<lparr>blk_size := blk_size b + total_alloc_size, blk_next := 0\<rparr>) m3
        else m3\<lparr>heap_tail := new_block\<rparr>)"

definition heap_grow :: "u32 \<Rightarrow> kheap \<Rightarrow> (bool \<times> kheap) option" where
  "heap_grow sz m =
     (let needed = sz + HDR; pages = (needed + 0xFFF) div 0x1000; total_alloc_size = pages * 0x1000 in
      if pmm_get_free_memory (page_frames m) < total_alloc_size then Some (False, m)
      else
        let start_addr = current_heap_end m in
        case grow_pages start_addr [0..<unat pages] m of
          (False, m1) \<Rightarrow> Some (False, m1)
        | (True, m1) \<Rightarrow>
            if \<not> (present (pd_virt m1 (pd_index start_addr)) \<and>
                   present (pt_virt m1 (pd_index start_addr) (pt_index start_addr)))
            then None
            else Some (True, heap_link start_addr total_alloc_size m1))"

definition init_kheap :: "kheap \<Rightarrow> kheap option" where
  "init_kheap m =
     (case heap_grow 1 (m\<lparr>heap_head := 0, heap_tail := 0\<rparr>) of
        Some (True, m1) \<Rightarrow> Some m1
      | _ \<Rightarrow> None)"

subsection \<open>Allocation\<close>

datatype search = Found u32 | Not_found | Corrupted

partial_function (option) heap_search :: "kheap \<Rightarrow> u32 \<Rightarrow> u32 \<Rightarrow> search option" where
  "heap_search m sz cur =
     (if cur = 0 then Some Not_found
      else if blk_magic (hdr m cur) \<noteq> HEAP_MAGIC_ALLOCATED \<and> blk_magic (hdr m cur) \<noteq> HEAP_MAGIC_FREE
      then Some Corrupted
      else if blk_is_free (hdr m cur) \<noteq> 0 \<and> sz \<le> blk_size (hdr m cur) then Some (Found cur)
      else heap_search m sz (blk_next (hdr m cur)))"

definition split_block :: "u32 \<Rightarrow> u32 \<Rightarrow> kheap \<Rightarrow> kheap" where
  "split_block cur sz m =
     (let new_block = cur + HDR + sz; nx = blk_next (hdr m cur);
          m1 = set_hdr new_block (\<lambda>_. \<lparr>blk_magic = HEAP_MAGIC_FREE,
                 blk_size = blk_size (hdr m cur) - sz - HDR, blk_is_free = 1,
                 blk_next = nx, blk_prev = cur\<rparr>) m;
          m2 = (if nx \<noteq> 0 then set_hdr nx (\<lambda>b. b\<lparr>blk_prev := new_block\<rparr>) m1
                else m1\<lparr>heap_tail := new_block\<rparr>)
      in set_hdr cur (\<lambda>b. b\<lparr>blk_size := sz, blk_next := new_block\<rparr>) m2)"

definition take_block :: "u32 \<Rightarrow> u32 \<Rightarrow> kheap \<Rightarrow> kheap" where
  "take_block cur sz m =
     set_hdr cur (\<lambda>b. b\<lparr>blk_is_free := 0, blk_magic := HEAP_MAGIC_ALLOCATED\<rparr>)
       (if sz + HDR + 4 < blk_size (hdr m cur) then split_block cur sz m else m)"

partial_function (option) kmalloc_loop :: "u32 \<Rightarrow> kheap \<Rightarrow> (u32 \<times> kheap) option" where
  "kmalloc_loop sz m =
     (case heap_search m sz (heap_head m) of
        None \<Rightarrow> None
      | Some Corrupted \<Rightarrow> None
      | Some (Found cur) \<Rightarrow> Some (cur + HDR, take_block cur sz m)
      | Some Not_found \<Rightarrow>
          (case heap_grow sz m of
             None \<Rightarrow> None
           | Some (grown, m1) \<Rightarrow> if \<not> grown then Some (0, m1) else kmalloc_loop sz m1))"

definition kmalloc :: "u32 \<Rightarrow> kheap \<Rightarrow> (u32 \<times> kheap) option" where
  "kmalloc sz m = (if sz = 0 then Some (0, m) else kmalloc_loop ((sz + 15) AND NOT 15) m)"

subsection \<open>Release\<close>

definition merge_next :: "u32 \<Rightarrow> kheap \<Rightarrow> kheap" where
  "merge_next block m =
     (let nx = blk_next (hdr m block) in
      if nx \<noteq> 0 \<and> blk_is_free (hdr m nx) \<noteq> 0 \<and> heap_blocks_adjacent m block nx
      then
        let m1 = set_hdr block (\<lambda>b. b\<lparr>blk_size := blk_size b + (blk_size (hdr m nx) + HDR),
                   blk_next := blk_next (hdr m nx)\<rparr>) m;
            nn = blk_next (hdr m1 block)
        in if nn \<noteq> 0 then set_hdr nn (\<lambda>b. b\<lparr>blk_prev := block\<rparr>) m1 else m1\<lparr>heap_tail := block\<rparr>
      else m)"

definition merge_prev :: "u32 \<Rightarrow> kheap \<Rightarrow> u32 \<times> kheap" where
  "merge_prev block m =
     (let pv = blk_prev (hdr m block); nx = blk_next (hdr m block) in
      if pv \<noteq> 0 \<and> blk_is_free (hdr m pv) \<noteq> 0 \<and> heap_blocks_adjacent m pv block
      then
        let m1 = set_hdr pv (\<lambda>b. b\<lparr>blk_size := blk_size b + (blk_size (hdr m block) + HDR),
                   blk_next := nx\<rparr>) m
        in (pv, if nx \<noteq> 0 then set_hdr nx (\<lambda>b. b\<lparr>blk_prev := pv\<rparr>) m1 else m1\<lparr>heap_tail := pv\<rparr>)
      else (block, m))"

definition shrink_page :: "kheap \<Rightarrow> kheap" where
  "shrink_page m =
     (let e = current_heap_end m - 4096; m1 = m\<lparr>current_heap_end := e\<rparr>;
          pte = pt_virt m1 (pd_index e) (pt_index e);
          m2 = (if present pte then free_frame (base pte) m1 else m1)
      in unmap_page e m2)"

definition shrink_tail :: "u32 \<Rightarrow> kheap \<Rightarrow> kheap" where
  "shrink_tail block m =
     (if block = heap_tail m \<and> 4096 \<le> blk_size (hdr m block) then
        let pages_to_free = blk_size (hdr m block) div 4096;
            m1 = (shrink_page ^^ unat pages_to_free) m;
            m2 = set_hdr block (\<lambda>b. b\<lparr>blk_size := blk_size b - pages_to_free * 4096\<rparr>) m1
        in if blk_size (hdr m2 block) < HDR then
             (let pv = blk_prev (hdr m2 block) in
              if pv \<noteq> 0 then (set_hdr pv (\<lambda>b. b\<lparr>blk_next := 0\<rparr>) m2)\<lparr>heap_tail := pv\<rparr>
              else m2\<lparr>heap_head := 0, heap_tail := 0\<rparr>)
           else m2
      else m)"

definition kfree :: "u32 \<Rightarrow> kheap \<Rightarrow> kheap option" where
  "kfree ptr m =
     (if ptr = 0 then Some m
      else
        let block = ptr - HDR in
        if blk_magic (hdr m block) = HEAP_MAGIC_FREE \<or> blk_is_free (hdr m block) = 1 then None
        else if blk_magic (hdr m block) \<noteq> HEAP_MAGIC_ALLOCATED then None
        else
          let m1 = set_hdr block (\<lambda>b. b\<lparr>blk_is_free := 1, blk_magic := HEAP_MAGIC_FREE\<rparr>) m;
              (block', m2) = merge_prev block (merge_next block m1)
          in Some (shrink_tail block' m2))"

subsection \<open>Resizing\<close>

definition heap_memcpy :: "u32 \<Rightarrow> u32 \<Rightarrow> u32 \<Rightarrow> kheap \<Rightarrow> kheap" where
  "heap_memcpy dest src n m =
     m\<lparr>heap_bytes := fold (\<lambda>i mem. mem(dest + of_nat i := mem (src + of_nat i))) [0..<unat n] (heap_bytes m)\<rparr>"

definition krealloc :: "u32 \<Rightarrow> u32 \<Rightarrow> kheap \<Rightarrow> (u32 \<times> kheap) option" where
  "krealloc ptr new_size m =
     (if new_size = 0 then map_option (Pair 0) (kfree ptr m)
      else if ptr = 0 then kmalloc new_size m
      else
        let block = ptr - HDR in
        if blk_magic (hdr m block) \<noteq> HEAP_MAGIC_ALLOCATED then Some (0, m)
        else if new_size \<le> blk_size (hdr m block) then Some (ptr, m)
        else
          let old_size = blk_size (hdr m block) in
          case kmalloc new_size m of
            None \<Rightarrow> None
          | Some (new_ptr, m1) \<Rightarrow>
              if new_ptr = 0 then Some (0, m1)
              else map_option (Pair new_ptr) (kfree ptr (heap_memcpy new_ptr ptr old_size m1)))"

definition kmalloc_size :: "u32 \<Rightarrow> kheap \<Rightarrow> u32" where
  "kmalloc_size ptr m =
     (if ptr = 0 then 0
      else if blk_magic (hdr m (ptr - HDR)) \<noteq> HEAP_MAGIC_ALLOCATED then 0
      else blk_size (hdr m (ptr - HDR)))"


subsection \<open>The pages of the heap\<close>

definition heap_va :: "nat \<Rightarrow> u32" where
  "heap_va n = KHEAP_START_VIRTUAL + of_nat n * 4096"

definition heap_mapped :: "(nat \<Rightarrow> u32) \<Rightarrow> kheap \<Rightarrow> nat \<Rightarrow> bool" where
  "heap_mapped KT m N \<longleftrightarrow> N \<le> 65536 \<and> current_heap_end m = heap_va N \<and>
     (\<forall>n < 65536. present (ram m (KT (832 + n div 1024)) (n mod 1024)) \<longleftrightarrow> n < N)"

lemma unat_heap_va: "n \<le> 65536 \<Longrightarrow> unat (heap_va n) = 0xD0000000 + n * 4096"
  by (simp add: heap_va_def KHEAP_START_VIRTUAL_def unat_word_ariths unat_of_nat)

lemma heap_va_Suc: "heap_va n + 0x1000 = heap_va (Suc n)" "heap_va (Suc n) - 4096 = heap_va n"
  by (simp_all add: heap_va_def algebra_simps)

lemma heap_va_index:
  assumes "n < 65536"
  shows "pd_index (heap_va n) = 832 + n div 1024" "pt_index (heap_va n) = n mod 1024"
    "pd_index (heap_va n) \<in> heap_tables" "pt_index (heap_va n) < 1024"
proof -
  have "(0xD0000000 + n * 4096) div 4194304 = (832 * 1024 + n) * 4096 div (1024 * 4096)" by simp
  also have "\<dots> = (832 * 1024 + n) div 1024" by (rule div_mult_mult2) simp
  finally show pd: "pd_index (heap_va n) = 832 + n div 1024"
    using assms by (simp add: pd_index_div unat_heap_va)
  have "(0xD0000000 + n * 4096) div 4096 mod 1024 = (832 * 1024 + n) mod 1024" by simp
  also have "\<dots> = n mod 1024" by (rule mod_mult_self3)
  finally show "pt_index (heap_va n) = n mod 1024" using assms by (simp add: pt_index_mod unat_heap_va)
  show "pd_index (heap_va n) \<in> heap_tables" using pd assms by (auto simp: heap_tables_def)
qed simp

lemma heap_page_inj: "(n::nat) div 1024 = k div 1024 \<Longrightarrow> n mod 1024 = k mod 1024 \<Longrightarrow> n = k"
  by (metis mult_div_mod_eq)

lemma kpte_store:
  fixes w :: u32
  assumes inv: "space_inv KT ext P m" and i: "i \<in> heap_tables" and j: "j < 1024"
  defines "m' \<equiv> set_word (KT i) j w m"
  shows "slots KT P m' = (slots KT P m)(KPage i j := if present w then Some (base w) else None)"
    and "dirs_ok KT P (ram m')" "\<not> present (ram m' (KT 896) 0)" "same_pages P m m'" "same_rest m m'"
    and "(\<forall>q k l. slots KT P m (Page q k l) \<noteq> Some (base w)) \<or> \<not> present w \<Longrightarrow>
      pages_ok (slots KT P m') (ram m')"
proof -
  note u = space_invD(2) [OF inv]
  have ki: "slots KT P m (KTab i) = Some (KT i)" using heap_kernel [OF i] by simp
  note ap = struct_apart [OF u ki, simplified]
  have m': "ram m' = (ram m)(KT i := (ram m (KT i))(j := w))" by (simp add: m'_def set_word_def)
  show sl: "slots KT P m' = (slots KT P m)(KPage i j := if present w then Some (base w) else None)"
    unfolding m' by (rule slot_at_kpte [OF u i j])
  have d: "ram m' q k = ram m q k" if "q \<in> P" for q k using ap(1) [OF that] by (simp add: m')
  then show "dirs_ok KT P (ram m')" using space_invD(3) [OF inv] by (auto simp: dirs_ok_def)
  have "i \<noteq> 896" using i by (auto simp: heap_tables_def)
  then show "\<not> present (ram m' (KT 896) 0)" using ap(3) [of 896] space_invD(5) [OF inv] by (simp add: m')
  show "same_rest m m'" by (simp add: m'_def)
  have t: "ram m' (base (ram m q k)) l = ram m (base (ram m q k)) l"
    if "q \<in> P" "k < 768" "present (ram m q k)" for q k l using ap(2) [OF that] by (simp add: m')
  show "same_pages P m m'" unfolding same_pages_def
  proof (intro ballI allI conjI impI)
    fix q k l assume q: "q \<in> P"
    show "upte m' q k l = upte m q k l" by (rule upte_cong) (use d t q in auto)
    fix e n assume "upte m q k l = Some e"
    then have "slots KT P m (Page q k l) = Some (base e)" using slot_page [OF q, of KT m k l] by simp
    then have "base e \<noteq> KT i" using uniqD [OF u ki, of "Page q k l"] by auto
    then show "ram m' (base e) n = ram m (base e) n" by (simp add: m')
  qed
  assume nw: "(\<forall>q k l. slots KT P m (Page q k l) \<noteq> Some (base w)) \<or> \<not> present w"
  show "pages_ok (slots KT P m') (ram m')" unfolding pages_ok_def
  proof (intro allI impI)
    fix q k l b assume "slots KT P m' (Page q k l) = Some b"
    then have s: "slots KT P m (Page q k l) = Some b" using sl by simp
    note pp = page_parts [OF s] and po = pages_okD [OF space_invD(6) [OF inv] s]
    have eq: "ram m' q k = ram m q k" "ram m' (base (ram m q k)) l = ram m (base (ram m q k)) l"
      using d [OF pp(1)] t [OF pp(1,2,4)] by auto
    have "s' = Page q k l" if "ram m (base (ram m q k)) l AND 2 \<noteq> 0" "slots KT P m' s' = Some b" for s'
    proof (cases "s' = KPage i j")
      case True
      then have "present w" "base w = b" using that(2) sl by (auto split: if_splits)
      then show ?thesis using nw s by auto
    next
      case False
      then show ?thesis using that po(2) sl by simp
    qed
    then show "(ram m' (base (ram m' q k)) l AND 4 \<noteq> 0 \<longrightarrow> ram m' q k AND 4 \<noteq> 0) \<and>
      (ram m' (base (ram m' q k)) l AND 2 \<noteq> 0 \<longrightarrow> (\<forall>s. slots KT P m' s = Some b \<longrightarrow> s = Page q k l))"
      using po(1) eq by auto
  qed
qed

lemma heap_pte:
  assumes inv: "space_inv KT ext P m" and hm: "heap_mapped KT m N" and n: "n < 65536"
  shows "slots KT P m (KPage (832 + n div 1024) (n mod 1024)) =
    (if n < N then Some (base (ram m (KT (832 + n div 1024)) (n mod 1024))) else None)"
  using hm n heap_va_index(3) [OF n] by (simp add: heap_mapped_def slot_at.simps heap_va_index(1))

lemma heap_mapped_set:
  assumes inv: "space_inv KT ext P m" and hm: "heap_mapped KT m N" and n: "n < 65536"
    and w: "present w \<longleftrightarrow> b" and N': "N' \<le> 65536" "\<And>k. k < 65536 \<Longrightarrow> k < N' \<longleftrightarrow> (if k = n then b else k < N)"
  shows "heap_mapped KT ((set_word (KT (832 + n div 1024)) (n mod 1024) w m)\<lparr>current_heap_end := heap_va N'\<rparr>) N'"
  unfolding heap_mapped_def
proof (intro conjI allI impI)
  fix k :: nat assume k: "k < 65536"
  have kt: "KT i = KT j \<longleftrightarrow> i = j" if "i \<in> heap_tables" "j \<in> heap_tables" for i j
    using uniqD [OF space_invD(2) [OF inv], of "KTab i" "KT i" "KTab j"] heap_kernel that by auto
  have "832 + k div 1024 \<in> heap_tables" "832 + n div 1024 \<in> heap_tables"
    using heap_va_index(1,3) k n by metis+
  then have "KT (832 + k div 1024) = KT (832 + n div 1024) \<and> k mod 1024 = n mod 1024 \<longleftrightarrow> k = n"
    using kt heap_page_inj [of k n] by auto
  then show "present (ram ((set_word (KT (832 + n div 1024)) (n mod 1024) w m)\<lparr>current_heap_end := heap_va N'\<rparr>)
      (KT (832 + k div 1024)) (k mod 1024)) = (k < N')"
    using hm k N'(2) [OF k] w by (simp add: heap_mapped_def ram_set_word)
qed (use N' in simp_all)

text \<open>The heap's pages all lie in frames of their own, so there are no more of them than frames in use.\<close>

lemma heap_pages_le:
  assumes inv: "space_inv KT ext P m" and hm: "heap_mapped KT m N"
  shows "N \<le> card (used_frames (page_frames m))"
proof -
  define g where "g n = frame_of (base (ram m (KT (832 + n div 1024)) (n mod 1024)))" for n
  have N: "N \<le> 65536" using hm by (simp add: heap_mapped_def)
  have s: "slots KT P m (KPage (832 + n div 1024) (n mod 1024)) = Some (base (ram m (KT (832 + n div 1024)) (n mod 1024)))"
    if "n < N" for n using heap_pte [OF inv hm, of n] that N by simp
  have "inj_on g {..<N}"
  proof (rule inj_onI)
    fix n k assume nk: "n \<in> {..<N}" "k \<in> {..<N}" "g n = g k"
    have "base (ram m (KT (832 + n div 1024)) (n mod 1024)) = base (ram m (KT (832 + k div 1024)) (k mod 1024))"
      using nk(3) frame_of_inj [OF base_base base_base] unfolding g_def by blast
    then have "KPage (832 + n div 1024) (n mod 1024) = KPage (832 + k div 1024) (k mod 1024)"
      using uniqD [OF space_invD(2) [OF inv] s, of k "KPage (832 + n div 1024) (n mod 1024)"] s [of n] nk by auto
    then show "n = k" using heap_page_inj [of n k] by simp
  qed
  moreover have "g ` {..<N} \<subseteq> used_frames (page_frames m)"
  proof
    fix f assume "f \<in> g ` {..<N}"
    then obtain n where n: "n < N" "f = g n" by auto
    note ac = acctD [OF space_invD(1) [OF inv]]
    have ok: "frame_ok (page_frames m) (base (ram m (KT (832 + n div 1024)) (n mod 1024)))" by (rule ac(3) [OF s [OF n(1)]])
    have "0 < owners (page_frames m) f"
      using ac(4) [OF ok] refs_pos [OF ac(2) s [OF n(1)]] n(2) by (simp add: g_def)
    then show "f \<in> used_frames (page_frames m)"
      using owners_eq_0 [OF ac(1), of f] frame_okD(3) [OF ok] n(2) by (auto simp: used_frames_def g_def)
  qed
  ultimately have "card {..<N} \<le> card (used_frames (page_frames m))"
    by (metis card_image card_mono finite_used_frames)
  then show ?thesis by simp
qed


definition heap_same :: "kheap \<Rightarrow> kheap \<Rightarrow> bool" where
  "heap_same m m' \<longleftrightarrow> cr3 m' = cr3 m \<and> page_directory m' = page_directory m \<and>
     device_window_next m' = device_window_next m \<and> frames (page_frames m') = frames (page_frames m) \<and>
     heap_head m' = heap_head m \<and> heap_tail m' = heap_tail m \<and> hdr m' = hdr m \<and> heap_bytes m' = heap_bytes m"

lemma same_rest_heap:
  assumes "same_rest m m'"
  shows "heap_same m m'" "current_heap_end m' = current_heap_end m"
proof -
  have "machine.more m' = machine.more m" using assms by (simp add: same_rest_def)
  then have "current_heap_end m' = current_heap_end m \<and> heap_head m' = heap_head m \<and> heap_tail m' = heap_tail m \<and>
      hdr m' = hdr m \<and> heap_bytes m' = heap_bytes m"
    by (cases m; cases m') simp
  then show "heap_same m m'" "current_heap_end m' = current_heap_end m"
    using assms by (simp_all add: heap_same_def same_rest_def)
qed

lemma heap_same_refl [simp]: "heap_same m m"
  by (simp add: heap_same_def)

lemma heap_same_trans: "heap_same m1 m2 \<Longrightarrow> heap_same m2 m3 \<Longrightarrow> heap_same m1 m3"
  by (simp add: heap_same_def)

lemma heap_end_upd [simp]:
  "heap_same m (m\<lparr>current_heap_end := e\<rparr>)" "same_pages P m (m\<lparr>current_heap_end := e\<rparr>)"
  by (simp_all add: heap_same_def same_pages_ram)

lemma space_inv_cong:
  "ram m' = ram m \<Longrightarrow> page_frames m' = page_frames m \<Longrightarrow> cr3 m' = cr3 m \<Longrightarrow>
   space_inv KT ext P m' \<longleftrightarrow> space_inv KT ext P m"
  by (simp add: space_inv_def)

lemma room_alloc:
  assumes inv: "pmm_inv pm" and room: "4096 * Suc k + unat (used_memory pm) \<le> 4096 * frames pm"
    and al: "pmm_alloc_frame pm = (a, pm')"
  shows "a \<noteq> NO_FRAME" "4096 * k + unat (used_memory pm') \<le> 4096 * frames pm'"
proof -
  note sp = pmm_alloc_frame_spec [OF inv al]
  note um = pmm_invD(6) [OF inv]
  show ne: "a \<noteq> NO_FRAME"
  proof
    assume "a = NO_FRAME"
    then have "\<forall>f < frames pm. 0 < owners pm f" using sp by simp
    then have "used_frames pm = {..<frames pm}" using owners_eq_0 [OF inv] by (fastforce simp: used_frames_def)
    then show False using um room by simp
  qed
  then have "frames pm' = frames pm" "used_memory pm' = used_memory pm + 4096" using sp by auto
  moreover have "unat (used_memory pm) + 4096 < 4294967296"
    using room frames_bound [OF pmm_invD(1) [OF inv]] by simp
  ultimately show "4096 * k + unat (used_memory pm') \<le> 4096 * frames pm'"
    using room by (simp add: unat_add_u32)
qed

lemma heap_map_one:
  assumes inv: "space_inv KT ext P m" and hm: "heap_mapped KT m N" and N: "N < 65536"
    and al: "alloc_frame m = (a, m1)" "a \<noteq> NO_FRAME"
  obtains m2 where "map_page m1 (current_heap_end m1) a 3 = (None, m2)"
    "space_inv KT ext P (m2\<lparr>current_heap_end := current_heap_end m2 + 0x1000\<rparr>)"
    "heap_mapped KT (m2\<lparr>current_heap_end := current_heap_end m2 + 0x1000\<rparr>) (Suc N)"
    "same_pages P m m2" "heap_same m m2" "page_frames m2 = page_frames m1"
proof -
  let ?d = "832 + N div 1024" and ?t = "N mod 1024"
  note sa = space_alloc [OF inv al]
  have ab: "base a = a" by (rule frame_okD(1) [OF sa(2)])
  have ce: "current_heap_end m1 = heap_va N" using hm same_rest_heap(2) [OF sa(6)] by (simp add: heap_mapped_def)
  note vi = heap_va_index [OF N]
  have h: "?d \<in> heap_tables" "?t < 1024" using vi by simp_all
  have np: "\<not> present (ram m1 (KT ?d) ?t)" using hm N sa(5) by (simp add: heap_mapped_def)
  let ?w = "a OR 3"
  let ?m2 = "set_word (KT ?d) ?t ?w m1"
  have w: "present ?w" "base ?w = a" "3 AND 0xFFF = (3::u32)"
    using present_entry [OF ab, of 3] base_entry [OF ab, of 3] by (simp_all add: present_def)
  have mp: "map_page m1 (current_heap_end m1) a 3 = (None, ?m2)"
    unfolding ce using map_page_kernel [OF sa(1), of "heap_va N" 3 a] heap_kernel [OF vi(3)] ab np vi(1,2) w(3)
    by simp
  note ks = kpte_store [OF sa(1) h, where w = ?w]
  have none: "slots KT P m1 (KPage ?d ?t) = None" using np by (simp add: slot_at.simps)
  have sl: "slots KT P ?m2 = (slots KT P m1)(KPage ?d ?t := Some a)" using ks(1) w by simp
  have ee: "ext(frame_of a := 1, frame_of a := 0) = ext" using sa(3) by auto
  have "acct (slots KT P ?m2) (page_frames ?m2) ext"
    unfolding sl set_word_sel using acct_put [OF space_invD(1) [OF sa(1)] none sa(2), of 0] unfolding ee by simp
  moreover have "uniq (slots KT P ?m2)"
    unfolding sl by (rule uniq_fresh [OF space_invD(2) [OF sa(1)]]) (use sa(4) in blast)
  moreover have "pages_ok (slots KT P ?m2) (ram ?m2)"
  proof -
    have "\<forall>q k l. slots KT P m1 (Page q k l) \<noteq> Some (base ?w)" unfolding w(2) using sa(4) by blast
    then show ?thesis by (intro ks(6) disjI1)
  qed
  ultimately have i2: "space_inv KT ext P ?m2"
    using ks(2,3) space_invD(4) [OF sa(1)] by (simp add: space_inv_def)
  have ce2: "current_heap_end ?m2 + 0x1000 = heap_va (Suc N)"
    using ce same_rest_heap(2) [OF ks(5)] heap_va_Suc by simp
  show ?thesis
  proof (rule that [OF mp])
    show "space_inv KT ext P (?m2\<lparr>current_heap_end := current_heap_end ?m2 + 0x1000\<rparr>)"
      using i2 space_inv_cong [of "?m2\<lparr>current_heap_end := current_heap_end ?m2 + 0x1000\<rparr>" ?m2] by simp
    have hm1: "heap_mapped KT m1 N" using hm ce sa(5) by (simp add: heap_mapped_def)
    show "heap_mapped KT (?m2\<lparr>current_heap_end := current_heap_end ?m2 + 0x1000\<rparr>) (Suc N)"
      unfolding ce2 by (rule heap_mapped_set [OF sa(1) hm1 N, of _ True]) (use w N in auto)
    show "same_pages P m ?m2" by (rule same_pages_trans [OF sa(7) ks(4)])
    show "heap_same m ?m2"
      by (rule heap_same_trans [OF same_rest_heap(1) [OF sa(6)] same_rest_heap(1) [OF ks(5)]])
  qed simp
qed

lemma grow_pages_ok:
  assumes "space_inv KT ext P m" "heap_mapped KT m N" "N + length is \<le> 65536"
    and "4096 * length is + unat (used_memory (page_frames m)) \<le> 4096 * frames (page_frames m)"
  obtains m' where "grow_pages start is m = (True, m')" "space_inv KT ext P m'"
    "heap_mapped KT m' (N + length is)" "same_pages P m m'" "heap_same m m'"
  using assms
proof (induction "is" arbitrary: m N thesis)
  case Nil
  then show ?case using Nil.prems(1) [of m] by simp
next
  case (Cons i "is")
  obtain a m1 where al: "alloc_frame m = (a, m1)" by fastforce
  note sel = alloc_frame_sel [OF al]
  have room: "4096 * Suc (length is) + unat (used_memory (page_frames m)) \<le> 4096 * frames (page_frames m)"
    using Cons.prems(5) by simp
  note ra = room_alloc [OF acctD(1) [OF space_invD(1) [OF Cons.prems(2)]] room sel(1)]
  have N: "N < 65536" using Cons.prems(4) by simp
  obtain m2 where m2: "map_page m1 (current_heap_end m1) a 3 = (None, m2)"
    "space_inv KT ext P (m2\<lparr>current_heap_end := current_heap_end m2 + 0x1000\<rparr>)"
    "heap_mapped KT (m2\<lparr>current_heap_end := current_heap_end m2 + 0x1000\<rparr>) (Suc N)"
    "same_pages P m m2" "heap_same m m2" "page_frames m2 = page_frames m1"
    using heap_map_one [OF Cons.prems(2,3) N al ra(1)] by blast
  let ?m = "m2\<lparr>current_heap_end := current_heap_end m2 + 0x1000\<rparr>"
  obtain m' where m': "grow_pages start is ?m = (True, m')" "space_inv KT ext P m'"
    "heap_mapped KT m' (Suc N + length is)" "same_pages P ?m m'" "heap_same ?m m'"
    by (rule Cons.IH [of ?m "Suc N"]) (use m2 ra(2) Cons.prems(4) in auto)
  show ?case
  proof (rule Cons.prems(1))
    show "grow_pages start (i # is) m = (True, m')" using al ra(1) m2(1) m'(1) by simp
    show "same_pages P m m'"
      by (rule same_pages_trans [OF m2(4) same_pages_trans [OF heap_end_upd(2) m'(4)]])
    show "heap_same m m'"
      by (rule heap_same_trans [OF m2(5) heap_same_trans [OF heap_end_upd(1) m'(5)]])
  qed (use m' in auto)
qed

text \<open>One page less.\<close>

lemma shrink_page_ok:
  assumes inv: "space_inv KT ext P m" and hm: "heap_mapped KT m (Suc N)"
  shows "space_inv KT ext P (shrink_page m)" "heap_mapped KT (shrink_page m) N"
    "same_pages P m (shrink_page m)" "heap_same m (shrink_page m)"
proof -
  let ?d = "832 + N div 1024" and ?t = "N mod 1024"
  have N: "N < 65536" using hm by (simp add: heap_mapped_def)
  note vi = heap_va_index [OF N]
  have h: "?d \<in> heap_tables" "?t < 1024" using vi by simp_all
  define m1 where "m1 = m\<lparr>current_heap_end := heap_va N\<rparr>"
  have inv1: "space_inv KT ext P m1" using inv space_inv_cong [of m1 m] by (simp add: m1_def)
  define a where "a = base (ram m (KT ?d) ?t)"
  have pr: "present (ram m (KT ?d) ?t)" using hm N by (simp add: heap_mapped_def)
  have s: "slots KT P m1 (KPage ?d ?t) = Some a" using pr h by (simp add: slot_at.simps m1_def a_def)
  have ok: "frame_ok (page_frames m1) a" by (rule space_frame_ok [OF inv1 s])
  have pv: "pt_virt m1 (pd_index (heap_va N)) (pt_index (heap_va N)) = ram m (KT ?d) ?t"
    using space_virt(2) [OF inv1] space_kernel_entry [OF inv1 heap_kernel [OF vi(3)]] vi by (simp add: m1_def)
  let ?m2 = "free_frame a m1"
  have un: "unmap_page (heap_va N) ?m2 = set_word (KT ?d) ?t 0 ?m2"
  proof -
    have "rec_dir ?m2" using space_rec(1) [OF inv1] by (simp add: rec_dir_def)
    then show ?thesis
      using rec_virt(1,4) [of ?m2] space_kernel_entry [OF inv1 heap_kernel [OF vi(3)]] space_rec(2) [OF inv1] vi
      by (simp add: unmap_page_def table_of_def)
  qed
  have eq: "shrink_page m = set_word (KT ?d) ?t 0 ?m2"
    using hm pv pr un heap_va_Suc(2) [of N] by (simp add: shrink_page_def heap_mapped_def Let_def m1_def a_def)
  note ks = kpte_store [OF inv1 h, where w = 0]
  have rm: "ram (shrink_page m) = ram (set_word (KT ?d) ?t 0 m1)" unfolding eq by (simp add: set_word_def)
  have sl: "slots KT P (shrink_page m) = (slots KT P m1)(KPage ?d ?t := None)" using ks(1) rm by simp
  note at = acct_take [OF space_invD(1) [OF inv1] s]
  note af = acct_free [OF at ok, of "ext (frame_of a)", simplified fun_upd_upd fun_upd_triv]
  have pf: "page_frames (shrink_page m) = pmm_free_frame (page_frames m1) a" by (simp add: eq)
  show inv': "space_inv KT ext P (shrink_page m)"
    using af(1) ks(2,3,6) uniq_none [OF space_invD(2) [OF inv1]] space_invD(4) [OF inv1]
    unfolding space_inv_def sl rm pf by (simp add: eq ks(1))
  show "same_pages P m (shrink_page m)"
  proof -
    have "same_pages P m1 (set_word (KT ?d) ?t 0 m1)" by (rule ks(4))
    then have "same_pages P m1 (shrink_page m)"
      by (rule same_pages_trans) (rule same_pages_ram [OF rm])
    then show ?thesis using same_pages_trans [OF heap_end_upd(2)] unfolding m1_def by blast
  qed
  show "heap_same m (shrink_page m)"
    using af(2) same_rest_heap(1) [OF same_rest_set_word [of ?m2 "KT ?d" ?t 0]] unfolding eq
    by (simp add: heap_same_def m1_def free_frame_def)
  have hm1: "heap_mapped KT (m1\<lparr>current_heap_end := heap_va (Suc N)\<rparr>) (Suc N)"
    using hm by (simp add: heap_mapped_def m1_def)
  have "heap_mapped KT ((set_word (KT ?d) ?t 0 (m1\<lparr>current_heap_end := heap_va (Suc N)\<rparr>))\<lparr>current_heap_end := heap_va N\<rparr>) N"
    by (rule heap_mapped_set [OF _ hm1 N, of ext P 0 False]) (use inv1 N space_inv_cong [of "m1\<lparr>current_heap_end := heap_va (Suc N)\<rparr>" m1] in auto)
  moreover have "current_heap_end (shrink_page m) = heap_va N"
    using same_rest_heap(2) [OF same_rest_set_word [of ?m2 "KT ?d" ?t 0]] unfolding eq by (simp add: m1_def free_frame_def)
  ultimately show "heap_mapped KT (shrink_page m) N"
    unfolding heap_mapped_def rm by (simp add: set_word_def)
qed

lemma shrink_pages_ok:
  assumes "space_inv KT ext P m" "heap_mapped KT m (N + k)"
  shows "space_inv KT ext P ((shrink_page ^^ k) m) \<and> heap_mapped KT ((shrink_page ^^ k) m) N \<and>
    same_pages P m ((shrink_page ^^ k) m) \<and> heap_same m ((shrink_page ^^ k) m)"
  using assms
proof (induction k arbitrary: N)
  case (Suc k)
  have "heap_mapped KT m (Suc N + k)" using Suc.prems(2) by simp
  note ih = Suc.IH [OF Suc.prems(1) this]
  show ?case
    using ih shrink_page_ok [of KT ext P "(shrink_page ^^ k) m" N] same_pages_trans heap_same_trans by (simp) blast
qed simp

end
