(* ===== verification/Heaplist.thy ===== *)
theory Heaplist
  imports Kheap
begin

text \<open>
  The block list of the kernel heap.  \<open>linked\<close> says that the blocks of a list are linked both
  ways in that order, \<open>laid\<close> that they lie one behind the other in memory with consistent tags,
  and \<open>heap_ok\<close> puts both together for the globals of \<^verbatim>\<open>kheap.c\<close>.  The lemmas follow the list
  through each operation, and end in the behaviour of \<^verbatim>\<open>kmalloc\<close>, \<^verbatim>\<open>kfree\<close> and \<^verbatim>\<open>krealloc\<close> as
  operations on the map from allocated pointers to block sizes.
\<close>

subsection \<open>Linked and laid out\<close>

fun linked :: "(u32 \<Rightarrow> heap_block_t) \<Rightarrow> u32 \<Rightarrow> u32 list \<Rightarrow> u32 \<Rightarrow> bool" where
  "linked h p [] q = True"
| "linked h p (x # xs) q = (blk_prev (h x) = p \<and> blk_next (h x) = hd (xs @ [q]) \<and> linked h x xs q)"

definition block_ok :: "heap_block_t \<Rightarrow> bool" where
  "block_ok b \<longleftrightarrow> 16 dvd unat (blk_size b) \<and>
     (blk_magic b = HEAP_MAGIC_ALLOCATED \<and> blk_is_free b = 0 \<or>
      blk_magic b = HEAP_MAGIC_FREE \<and> blk_is_free b = 1)"

fun laid :: "(u32 \<Rightarrow> heap_block_t) \<Rightarrow> nat \<Rightarrow> u32 list \<Rightarrow> nat \<Rightarrow> bool" where
  "laid h lo [] hi = (lo \<le> hi)"
| "laid h lo (x # xs) hi = (lo \<le> unat x \<and> 16 dvd unat x \<and> block_ok (h x) \<and>
     laid h (unat x + 32 + unat (blk_size (h x))) xs hi)"

lemma magic_ne [simp]: "HEAP_MAGIC_ALLOCATED \<noteq> HEAP_MAGIC_FREE" "HEAP_MAGIC_FREE \<noteq> HEAP_MAGIC_ALLOCATED"
  by (simp_all add: HEAP_MAGIC_ALLOCATED_def HEAP_MAGIC_FREE_def)

lemma linked_append:
  "linked h p (xs @ ys) q \<longleftrightarrow> linked h p xs (hd (ys @ [q])) \<and> linked h (last (p # xs)) ys q"
  by (induction xs arbitrary: p) (auto simp: hd_append)

lemma linked_cong:
  "(\<And>x. x \<in> set xs \<Longrightarrow> blk_prev (h' x) = blk_prev (h x) \<and> blk_next (h' x) = blk_next (h x)) \<Longrightarrow>
   linked h' p xs q = linked h p xs q"
  by (induction xs arbitrary: p) auto

lemma laid_cong:
  "(\<And>x. x \<in> set xs \<Longrightarrow> blk_size (h' x) = blk_size (h x) \<and> (block_ok (h' x) \<longleftrightarrow> block_ok (h x))) \<Longrightarrow>
   laid h' lo xs hi = laid h lo xs hi"
  by (induction xs arbitrary: lo) auto

lemma laid_split: "laid h lo (xs @ y # ys) hi \<longleftrightarrow> laid h lo xs (unat y) \<and> laid h (unat y) (y # ys) hi"
  by (induction xs arbitrary: lo) auto

lemma laid_mono: "laid h lo xs hi \<Longrightarrow> hi \<le> hi' \<Longrightarrow> laid h lo xs hi'"
  by (induction xs arbitrary: lo) auto

lemma laid_lower: "laid h lo xs hi \<Longrightarrow> lo' \<le> lo \<Longrightarrow> laid h lo' xs hi"
  by (cases xs) auto

lemma laid_le: "laid h lo xs hi \<Longrightarrow> lo \<le> hi"
proof (induction xs arbitrary: lo)
  case (Cons x xs)
  then have "unat x + 32 + unat (blk_size (h x)) \<le> hi" by simp
  then show ?case using Cons.prems by simp
qed simp

lemma laid_in:
  assumes "laid h lo xs hi" "x \<in> set xs"
  shows "lo \<le> unat x" "unat x + 32 + unat (blk_size (h x)) \<le> hi" "16 dvd unat x" "block_ok (h x)"
proof -
  obtain ys zs where "xs = ys @ x # zs" using split_list [OF assms(2)] by blast
  then have "laid h lo ys (unat x)" "laid h (unat x) (x # zs) hi" using assms(1) laid_split by auto
  then show "lo \<le> unat x" "unat x + 32 + unat (blk_size (h x)) \<le> hi" "16 dvd unat x" "block_ok (h x)"
    using laid_le by auto
qed

lemma laid_distinct: "laid h lo xs hi \<Longrightarrow> distinct xs"
proof (induction xs arbitrary: lo)
  case (Cons x xs)
  then have l: "laid h (unat x + 32 + unat (blk_size (h x))) xs hi" by simp
  then have "x \<notin> set xs" using laid_in(1) [OF l, of x] by auto
  then show ?case using Cons.IH [OF l] by simp
qed simp

lemma laid_apart:
  assumes "laid h lo xs hi" "x \<in> set xs" "y \<in> set xs" "x \<noteq> y"
  shows "unat x + 32 + unat (blk_size (h x)) \<le> unat y \<or> unat y + 32 + unat (blk_size (h y)) \<le> unat x"
proof -
  obtain ys zs where xs: "xs = ys @ x # zs" using split_list [OF assms(2)] by blast
  then have "laid h lo ys (unat x)" "laid h (unat x + 32 + unat (blk_size (h x))) zs hi"
    using assms(1) laid_split by auto
  then show ?thesis using laid_in assms(3,4) xs by auto
qed

definition heap_ok :: "u32 list \<Rightarrow> kheap \<Rightarrow> bool" where
  "heap_ok xs m \<longleftrightarrow> linked (hdr m) 0 xs 0 \<and> heap_head m = hd (xs @ [0]) \<and> heap_tail m = last (0 # xs) \<and>
     laid (hdr m) 0xD0000000 xs (unat (current_heap_end m))"

lemma heap_okD:
  assumes "heap_ok xs m"
  shows "linked (hdr m) 0 xs 0" "heap_head m = hd (xs @ [0])" "heap_tail m = last (0 # xs)"
    "laid (hdr m) 0xD0000000 xs (unat (current_heap_end m))" "distinct xs" "0 \<notin> set xs"
  using assms laid_distinct laid_in(1) by (fastforce simp: heap_ok_def)+

text \<open>The allocated blocks, by the pointers the callers hold.\<close>

definition heap_blocks :: "(u32 \<Rightarrow> heap_block_t) \<Rightarrow> u32 list \<Rightarrow> u32 \<Rightarrow> nat option" where
  "heap_blocks h xs p =
     (if p - HDR \<in> set xs \<and> blk_magic (h (p - HDR)) = HEAP_MAGIC_ALLOCATED
      then Some (unat (blk_size (h (p - HDR)))) else None)"

lemma heap_blocks_eqI:
  assumes "\<And>x. x \<in> set xs' \<Longrightarrow> blk_magic (h' x) = HEAP_MAGIC_ALLOCATED \<Longrightarrow>
      x \<in> set xs \<and> blk_magic (h x) = HEAP_MAGIC_ALLOCATED \<and> blk_size (h' x) = blk_size (h x)"
    and "\<And>x. x \<in> set xs \<Longrightarrow> blk_magic (h x) = HEAP_MAGIC_ALLOCATED \<Longrightarrow>
      x \<in> set xs' \<and> blk_magic (h' x) = HEAP_MAGIC_ALLOCATED"
  shows "heap_blocks h' xs' = heap_blocks h xs"
  using assms by (fastforce simp: heap_blocks_def fun_eq_iff)

text \<open>What is allocated is aligned, inside the heap, and apart from everything else allocated.\<close>

lemma blocks_layout:
  assumes ok: "heap_ok xs m" and p: "heap_blocks (hdr m) xs p = Some n"
  shows "16 dvd unat p" "0xD0000000 + 32 \<le> unat p" "unat p + n \<le> unat (current_heap_end m)"
    "heap_blocks (hdr m) xs q = Some k \<Longrightarrow> p \<noteq> q \<Longrightarrow> unat p + n \<le> unat q \<or> unat q + k \<le> unat p"
proof -
  note l = heap_okD(4) [OF ok]
  have at: "unat x + 32 = unat p \<and> x \<in> set xs \<and> n = unat (blk_size (hdr m x))"
    if "heap_blocks (hdr m) xs p = Some n" "x = p - HDR" for p n x
  proof -
    have x: "x \<in> set xs" "n = unat (blk_size (hdr m x))" using that by (auto simp: heap_blocks_def split: if_splits)
    have "unat x + 32 < 4294967296" using laid_in(2) [OF l x(1)] unat_u32_less [of "current_heap_end m"] by simp
    then have "unat (x + 32) = unat x + 32" using unat_add_u32 [of x 32] by simp
    then show ?thesis using x that(2) by simp
  qed
  define x where "x = p - HDR"
  have x: "unat x + 32 = unat p" "x \<in> set xs" "n = unat (blk_size (hdr m x))" using at [OF p x_def] by auto
  note li = laid_in [OF l x(2)]
  have "16 dvd unat x + 32" using li(3) by (intro dvd_add) simp_all
  then show "16 dvd unat p" using x by simp
  show "0xD0000000 + 32 \<le> unat p" "unat p + n \<le> unat (current_heap_end m)" using li x by linarith+
  assume q: "heap_blocks (hdr m) xs q = Some k" and ne: "p \<noteq> q"
  define y where "y = q - HDR"
  have y: "unat y + 32 = unat q" "y \<in> set xs" "k = unat (blk_size (hdr m y))" using at [OF q y_def] by auto
  have "x \<noteq> y" using ne x_def y_def by simp
  then show "unat p + n \<le> unat q \<or> unat q + k \<le> unat p"
    using laid_apart [OF l x(2) y(2)] x y by linarith
qed


subsection \<open>Searching\<close>

definition fits :: "kheap \<Rightarrow> u32 \<Rightarrow> u32 \<Rightarrow> bool" where
  "fits m sz x \<longleftrightarrow> blk_is_free (hdr m x) \<noteq> 0 \<and> sz \<le> blk_size (hdr m x)"

lemma search_spec:
  assumes "linked (hdr m) p xs 0" "0 \<notin> set xs" "\<And>x. x \<in> set xs \<Longrightarrow> block_ok (hdr m x)"
  shows "heap_search m sz (hd (xs @ [0])) =
    Some (case find (fits m sz) xs of None \<Rightarrow> Not_found | Some x \<Rightarrow> Found x)"
  using assms
proof (induction xs arbitrary: p)
  case Nil
  then show ?case by (simp add: heap_search.simps)
next
  case (Cons x xs)
  have ih: "heap_search m sz (hd (xs @ [0])) =
      Some (case find (fits m sz) xs of None \<Rightarrow> Not_found | Some x \<Rightarrow> Found x)"
    by (rule Cons.IH) (use Cons.prems in auto)
  have "x \<noteq> 0" "blk_next (hdr m x) = hd (xs @ [0])" "block_ok (hdr m x)" using Cons.prems by auto
  then show ?case using ih by (subst heap_search.simps) (auto simp: fits_def block_ok_def)
qed

lemma heap_search_list:
  assumes "heap_ok xs m"
  shows "heap_search m sz (heap_head m) =
    Some (case find (fits m sz) xs of None \<Rightarrow> Not_found | Some x \<Rightarrow> Found x)"
  using search_spec [OF heap_okD(1,6) [OF assms]] laid_in(4) [OF heap_okD(4) [OF assms]] heap_okD(2) [OF assms]
  by simp

subsection \<open>Taking a block\<close>

lemma set_hdr_sel [simp]:
  "hdr (set_hdr a g m) = (hdr m)(a := g (hdr m a))" "heap_head (set_hdr a g m) = heap_head m"
  "heap_tail (set_hdr a g m) = heap_tail m" "current_heap_end (set_hdr a g m) = current_heap_end m"
  "heap_bytes (set_hdr a g m) = heap_bytes m" "ram (set_hdr a g m) = ram m" "cr3 (set_hdr a g m) = cr3 m"
  "page_frames (set_hdr a g m) = page_frames m" "page_directory (set_hdr a g m) = page_directory m"
  "device_window_next (set_hdr a g m) = device_window_next m"
  by (simp_all add: set_hdr_def)

text \<open>Changing the tag of a block.\<close>

lemma heap_ok_tag:
  assumes ok: "heap_ok xs m" and x: "x \<in> set xs"
    and g: "\<And>b. blk_size (g b) = blk_size b" "\<And>b. blk_prev (g b) = blk_prev b" "\<And>b. blk_next (g b) = blk_next b"
      "block_ok (g (hdr m x))"
  shows "heap_ok xs (set_hdr x g m)"
proof -
  note d = heap_okD [OF ok]
  have "linked ((hdr m)(x := g (hdr m x))) 0 xs 0 = linked (hdr m) 0 xs 0" by (rule linked_cong) (use g in auto)
  moreover have "laid ((hdr m)(x := g (hdr m x))) 0xD0000000 xs hi = laid (hdr m) 0xD0000000 xs hi" for hi
    by (rule laid_cong) (use g laid_in(4) [OF d(4) x] in auto)
  ultimately show ?thesis using d by (simp add: heap_ok_def)
qed

text \<open>
  The list after a block in the middle is rewritten: the blocks before it keep their order, the
  one behind it only its back link changes.
\<close>

lemma chain_before:
  assumes "linked h p (as @ x # bs) q" "\<And>y. y \<in> set as \<Longrightarrow> h' y = h y"
  shows "linked h' p as x" "blk_prev (h x) = last (p # as)"
proof -
  have "linked h p as x" "blk_prev (h x) = last (p # as)" using assms(1) by (auto simp: linked_append)
  moreover have "linked h' p as x = linked h p as x" by (rule linked_cong) (use assms(2) in auto)
  ultimately show "linked h' p as x" "blk_prev (h x) = last (p # as)" by auto
qed

lemma chain_relink:
  assumes "linked h x bs q" "distinct bs"
    and "\<And>b bs'. bs = b # bs' \<Longrightarrow> blk_prev (h' b) = n \<and> blk_next (h' b) = blk_next (h b) \<and>
      (\<forall>y \<in> set bs'. blk_prev (h' y) = blk_prev (h y) \<and> blk_next (h' y) = blk_next (h y))"
  shows "linked h' n bs q"
proof (cases bs)
  case (Cons b bs')
  have "linked h' b bs' q = linked h b bs' q" by (rule linked_cong) (use assms(3) [OF Cons] in auto)
  then show ?thesis using assms Cons by auto
qed simp

lemma laid_before:
  assumes "laid h lo (as @ x # bs) hi" "\<And>y. y \<in> set as \<Longrightarrow> h' y = h y"
  shows "laid h' lo as (unat x)" "laid h (unat x) (x # bs) hi"
proof -
  have "laid h lo as (unat x)" "laid h (unat x) (x # bs) hi" using assms(1) laid_split by auto
  moreover have "laid h' lo as (unat x) = laid h lo as (unat x)" by (rule laid_cong) (use assms(2) in auto)
  ultimately show "laid h' lo as (unat x)" "laid h (unat x) (x # bs) hi" by auto
qed

lemma split_block_ok:
  assumes ok: "heap_ok (as @ x # bs) m" and free: "blk_magic (hdr m x) = HEAP_MAGIC_FREE"
    and sz: "16 dvd unat sz" "unat sz + 36 < unat (blk_size (hdr m x))"
  defines "n \<equiv> x + HDR + sz"
  shows "heap_ok (as @ x # n # bs) (split_block x sz m)" "unat n = unat x + 32 + unat sz"
    "blk_magic (hdr (split_block x sz m) n) = HEAP_MAGIC_FREE"
    "blk_magic (hdr (split_block x sz m) x) = HEAP_MAGIC_FREE" "blk_size (hdr (split_block x sz m) x) = sz"
    "n \<notin> set (as @ x # bs)"
    "\<And>y. y \<in> set (as @ bs) \<Longrightarrow> blk_magic (hdr (split_block x sz m) y) = blk_magic (hdr m y) \<and>
       blk_size (hdr (split_block x sz m) y) = blk_size (hdr m y)"
proof -
  let ?h = "hdr m" and ?m = "split_block x sz m"
  note d = heap_okD [OF ok]
  note bd = laid_before [OF d(4) refl]
  have xin: "x \<in> set (as @ x # bs)" by simp
  note li = laid_in [OF d(4) xin]
  have top: "unat x + 32 + unat (blk_size (?h x)) < 4294967296"
    using li(2) unat_u32_less [of "current_heap_end m"] by linarith
  show un: "unat n = unat x + 32 + unat sz"
    unfolding n_def using top sz(2) by (simp add: unat_add_u32)
  have s2: "unat (blk_size (?h x) - sz - HDR) = unat (blk_size (?h x)) - unat sz - 32"
    using sz(2) by (simp add: unat_sub word_le_nat_alt)
  have bsl: "laid ?h (unat x + 32 + unat (blk_size (?h x))) bs (unat (current_heap_end m))" using bd(2) by simp
  have nin: "n \<notin> set as" "n \<noteq> x" "n \<notin> set bs"
    using laid_in(2) [OF bd(1), of n] laid_in(1) [OF bsl, of n] un sz(2) by fastforce+
  then show "n \<notin> set (as @ x # bs)" by simp
  have xd: "x \<notin> set as" "x \<notin> set bs" using d(5) by auto
  have nx: "blk_next (?h x) = hd (bs @ [0])" using d(1) by (simp add: linked_append)
  define b where "b = hd (bs @ [0])"
  have bin: "b \<noteq> 0 \<Longrightarrow> b \<in> set bs" unfolding b_def by (cases bs) auto
  have b0: "b = 0 \<longleftrightarrow> bs = []" unfolding b_def using d(6) by (cases bs) auto
  have h: "hdr ?m y = (if y = x then (?h x)\<lparr>blk_size := sz, blk_next := n\<rparr>
      else if y = b \<and> b \<noteq> 0 then (?h b)\<lparr>blk_prev := n\<rparr>
      else if y = n then \<lparr>blk_magic = HEAP_MAGIC_FREE, blk_size = blk_size (?h x) - sz - HDR,
        blk_is_free = 1, blk_next = b, blk_prev = x\<rparr>
      else ?h y)" for y
    unfolding split_block_def Let_def nx b_def [symmetric] n_def [symmetric]
    using nin xd bin by (auto simp: fun_upd_def)
  have sel: "heap_head ?m = heap_head m" "current_heap_end ?m = current_heap_end m"
    "heap_tail ?m = (if bs = [] then n else heap_tail m)"
    unfolding split_block_def Let_def nx using b0 [unfolded b_def] by (auto simp: n_def)
  have asb: "y \<in> set as \<Longrightarrow> hdr ?m y = ?h y" for y
    using h [of y] xd nin bin d(5) b0 by auto
  have bsm: "y \<in> set bs \<Longrightarrow> blk_size (hdr ?m y) = blk_size (?h y) \<and> blk_magic (hdr ?m y) = blk_magic (?h y) \<and>
      blk_is_free (hdr ?m y) = blk_is_free (?h y) \<and> blk_next (hdr ?m y) = blk_next (?h y)" for y
    using h [of y] xd nin by auto
  have hn: "hdr ?m n = \<lparr>blk_magic = HEAP_MAGIC_FREE, blk_size = blk_size (?h x) - sz - HDR,
        blk_is_free = 1, blk_next = b, blk_prev = x\<rparr>" using h [of n] nin bin by auto
  have hx: "hdr ?m x = (?h x)\<lparr>blk_size := sz, blk_next := n\<rparr>" using h [of x] by simp
  show "blk_magic (hdr ?m n) = HEAP_MAGIC_FREE" "blk_magic (hdr ?m x) = HEAP_MAGIC_FREE" "blk_size (hdr ?m x) = sz"
    using hn hx free by simp_all
  show "blk_magic (hdr ?m y) = blk_magic (?h y) \<and> blk_size (hdr ?m y) = blk_size (?h y)" if "y \<in> set (as @ bs)" for y
    using that asb [of y] bsm [of y] by auto
  have ch: "linked ?h x bs 0" using d(1) by (simp add: linked_append)
  have "linked (hdr ?m) n bs 0"
  proof (rule chain_relink [OF ch])
    show "distinct bs" using d(5) by simp
    fix c bs' assume c: "bs = c # bs'"
    then have "b = c" "c \<noteq> 0" using d(6) by (auto simp: b_def)
    then show "blk_prev (hdr ?m c) = n \<and> blk_next (hdr ?m c) = blk_next (?h c) \<and>
      (\<forall>y \<in> set bs'. blk_prev (hdr ?m y) = blk_prev (?h y) \<and> blk_next (hdr ?m y) = blk_next (?h y))"
      using h xd nin d(5) c by auto
  qed
  moreover note chain_before [OF d(1), of "hdr ?m", OF asb]
  ultimately have "linked (hdr ?m) 0 (as @ x # n # bs) 0"
    using hx hn by (simp add: linked_append b_def)
  moreover have "laid (hdr ?m) 0xD0000000 (as @ x # n # bs) (unat (current_heap_end m))"
  proof -
    have "16 dvd unat x + 32 + unat sz" using li(3) sz(1) by (intro dvd_add) simp_all
    moreover have "16 dvd unat (blk_size (?h x)) - unat sz - 32"
      using li(4) sz(1) by (intro dvd_diff_nat) (auto simp: block_ok_def)
    moreover have "laid (hdr ?m) lo bs hi = laid ?h lo bs hi" for lo hi
      by (rule laid_cong) (use bsm in \<open>auto simp: block_ok_def\<close>)
    moreover have "unat x + 32 + unat sz + 32 + (unat (blk_size (?h x)) - unat sz - 32) = unat x + 32 + unat (blk_size (?h x))"
      using sz(2) by simp
    moreover have "laid ?h (32 + (unat x + unat (blk_size (?h x)))) bs (unat (current_heap_end m))"
      using bsl by (simp add: ac_simps)
    ultimately show ?thesis
      using laid_before(1) [OF d(4), of "hdr ?m", OF asb] li free sz hx hn un s2
      by (simp add: laid_split block_ok_def)
  qed
  ultimately show "heap_ok (as @ x # n # bs) ?m"
    using d(2,3) sel by (auto simp: heap_ok_def hd_append)
qed


text \<open>The list operations touch nothing but headers and the two ends of the list.\<close>

definition mem_same :: "kheap \<Rightarrow> kheap \<Rightarrow> bool" where
  "mem_same m m' \<longleftrightarrow> ram m' = ram m \<and> cr3 m' = cr3 m \<and> page_frames m' = page_frames m \<and>
     page_directory m' = page_directory m \<and> device_window_next m' = device_window_next m \<and>
     current_heap_end m' = current_heap_end m \<and> heap_bytes m' = heap_bytes m"

lemma mem_same_set_hdr [simp]: "mem_same m (set_hdr a g m') = mem_same m m'"
  "mem_same m (m'\<lparr>heap_tail := t\<rparr>) = mem_same m m'" "mem_same m (m'\<lparr>heap_head := t\<rparr>) = mem_same m m'"
  "mem_same m m"
  by (simp_all add: mem_same_def)

lemma mem_same_trans: "mem_same m1 m2 \<Longrightarrow> mem_same m2 m3 \<Longrightarrow> mem_same m1 m3"
  by (simp add: mem_same_def)

lemma block_bound:
  assumes "heap_ok xs m" "x \<in> set xs"
  shows "unat x + 32 + unat (blk_size (hdr m x)) < 4294967296" "unat (blk_size (hdr m x)) < 0x30000000"
    "0xD0000000 \<le> unat x"
  using laid_in(1,2) [OF heap_okD(4) [OF assms(1)] assms(2)] unat_u32_less [of "current_heap_end m"] by linarith+

lemma take_block_ok:
  assumes ok: "heap_ok xs m" and x: "x \<in> set xs" and f: "fits m sz x" and sz: "16 dvd unat sz"
  obtains xs' n where "heap_ok xs' (take_block x sz m)" "mem_same m (take_block x sz m)"
    "heap_blocks (hdr m) xs (x + HDR) = None" "unat sz \<le> n"
    "heap_blocks (hdr (take_block x sz m)) xs' = (heap_blocks (hdr m) xs)(x + HDR \<mapsto> n)"
proof -
  note out = that
  note l = heap_okD(4) [OF ok]
  have fr: "blk_magic (hdr m x) = HEAP_MAGIC_FREE" "sz \<le> blk_size (hdr m x)"
    using f laid_in(4) [OF l x] by (auto simp: fits_def block_ok_def)
  let ?g = "\<lambda>b. b\<lparr>blk_is_free := 0, blk_magic := HEAP_MAGIC_ALLOCATED\<rparr>"
  have none: "heap_blocks (hdr m) xs (x + HDR) = None" using fr by (simp add: heap_blocks_def)
  have tag: thesis if h1: "heap_ok xs' m1" "x \<in> set xs'" "take_block x sz m = set_hdr x ?g m1" "mem_same m m1"
    "unat sz \<le> unat (blk_size (hdr m1 x))" "heap_blocks (hdr m1) xs' = heap_blocks (hdr m) xs" for xs' m1
  proof (rule out [of xs' "unat (blk_size (hdr m1 x))"])
    show "heap_ok xs' (take_block x sz m)" unfolding h1(3)
      by (rule heap_ok_tag [OF h1(1,2)]) (use laid_in(4) [OF heap_okD(4) [OF h1(1)] h1(2)] in \<open>auto simp: block_ok_def\<close>)
    show "heap_blocks (hdr (take_block x sz m)) xs' = (heap_blocks (hdr m) xs)(x + HDR \<mapsto> unat (blk_size (hdr m1 x)))"
      unfolding h1(6) [symmetric] h1(3) using h1(2) by (auto simp: heap_blocks_def fun_eq_iff)
  qed (use h1 none in simp_all)
  note bb = block_bound [OF ok x]
  have "unat (sz + HDR + 4) = unat sz + 36"
    using bb fr(2) by (simp add: word_le_nat_alt unat_word_ariths)
  then have w: "sz + HDR + 4 < blk_size (hdr m x) \<longleftrightarrow> unat sz + 36 < unat (blk_size (hdr m x))"
    by (simp add: word_less_nat_alt)
  show thesis
  proof (cases "sz + HDR + 4 < blk_size (hdr m x)")
    case False
    then show ?thesis using tag [of xs m] ok x fr(2) by (simp add: take_block_def word_le_nat_alt)
  next
    case True
    obtain as bs where xs: "xs = as @ x # bs" using split_list [OF x] by blast
    note sb = split_block_ok [OF ok [unfolded xs] fr(1) sz w [THEN iffD1, OF True]]
    show ?thesis
    proof (rule tag [OF sb(1)])
      show "take_block x sz m = set_hdr x ?g (split_block x sz m)" using True by (simp add: take_block_def)
      show "mem_same m (split_block x sz m)" by (simp add: split_block_def Let_def)
      show "heap_blocks (hdr (split_block x sz m)) (as @ x # (x + HDR + sz) # bs) = heap_blocks (hdr m) xs"
      proof (rule heap_blocks_eqI)
        fix y assume y: "y \<in> set (as @ x # (x + HDR + sz) # bs)" "blk_magic (hdr (split_block x sz m) y) = HEAP_MAGIC_ALLOCATED"
        then have "y \<in> set (as @ bs)" using sb(3,4) by auto
        then show "y \<in> set xs \<and> blk_magic (hdr m y) = HEAP_MAGIC_ALLOCATED \<and>
          blk_size (hdr (split_block x sz m) y) = blk_size (hdr m y)" using sb(7) [of y] y(2) xs by simp
      next
        fix y assume y: "y \<in> set xs" "blk_magic (hdr m y) = HEAP_MAGIC_ALLOCATED"
        then have "y \<in> set (as @ bs)" using fr(1) xs by auto
        then show "y \<in> set (as @ x # (x + HDR + sz) # bs) \<and> blk_magic (hdr (split_block x sz m) y) = HEAP_MAGIC_ALLOCATED"
          using sb(7) [of y] y(2) by auto
      qed
    qed (use sb(5) in simp_all)
  qed
qed

subsection \<open>A grown heap\<close>

lemma heap_link_ok:
  assumes ch: "linked (hdr m) 0 xs 0" "heap_head m = hd (xs @ [0])" "heap_tail m = last (0 # xs)"
    and l: "laid (hdr m) 0xD0000000 xs (unat s)" "0xD0000000 \<le> unat s" "16 dvd unat s"
    and t: "16 dvd unat t" "32 \<le> unat t" "unat s + unat t \<le> unat (current_heap_end m)"
  obtains xs' x where "heap_ok xs' (heap_link s t m)" "mem_same m (heap_link s t m)"
    "heap_blocks (hdr (heap_link s t m)) xs' = heap_blocks (hdr m) xs"
    "x \<in> set xs'" "blk_is_free (hdr (heap_link s t m) x) = 1" "unat t - 32 \<le> unat (blk_size (hdr (heap_link s t m) x))"
proof -
  let ?h = "hdr m" and ?m = "heap_link s t m"
  let ?new = "\<lparr>blk_magic = HEAP_MAGIC_FREE, blk_size = t - HDR, blk_is_free = 1, blk_next = 0, blk_prev = heap_tail m\<rparr>"
  have us: "unat (t - HDR) = unat t - 32" using t(2) by (simp add: unat_sub word_le_nat_alt)
  have s0: "s \<noteq> 0" using l(2) by auto
  have sn: "s \<notin> set xs" using laid_in(2) [OF l(1)] by fastforce
  have x0: "0 \<notin> set xs" using laid_in(1) [OF l(1), of 0] by auto
  have dt: "16 dvd unat t - 32" using t(1) by (intro dvd_diff_nat) simp_all
  have nb: "block_ok ?new" using us dt by (simp add: block_ok_def)
  have ms: "mem_same m ?m" by (simp add: heap_link_def Let_def)
  show thesis
  proof (cases xs rule: rev_cases)
    case Nil
    have h: "hdr ?m = ?h(s := ?new)" "heap_head ?m = s" "heap_tail ?m = s" "current_heap_end ?m = current_heap_end m"
      using ch(2,3) Nil by (simp_all add: heap_link_def Let_def)
    show ?thesis
    proof (rule that [of "[s]" s])
      show "heap_ok [s] ?m" unfolding heap_ok_def h using ch Nil l t nb us by simp
      show "heap_blocks (hdr ?m) [s] = heap_blocks ?h xs" unfolding h by (rule heap_blocks_eqI) (use Nil in auto)
    qed (use ms us h in simp_all)
  next
    case (snoc as z)
    have tl: "heap_tail m = z" and hd0: "heap_head m \<noteq> 0" using ch snoc x0 by (cases as; auto)+
    have zs: "z \<noteq> s" and za: "z \<notin> set as" using sn snoc laid_distinct [OF l(1)] by auto
    have zin: "z \<in> set xs" using snoc by simp
    note lz = laid_in [OF l(1) zin]
    let ?a = "blk_is_free (?h z) \<noteq> 0 \<and> z + HDR + blk_size (?h z) = s"
    have cas: "linked ?h 0 as z" "blk_prev (?h z) = last (0 # as)" using ch(1) snoc by (simp_all add: linked_append)
    have las: "laid ?h 0xD0000000 as (unat z)" using l(1) snoc laid_split [of ?h _ as z "[]"] by simp
    show ?thesis
    proof (cases ?a)
      case True
      have top: "unat z + 32 + unat (blk_size (?h z)) \<le> unat s" using lz(2) by simp
      have su: "unat s = unat z + 32 + unat (blk_size (?h z))"
      proof -
        have "unat z + 32 + unat (blk_size (?h z)) < 4294967296" using top unat_u32_less [of s] by linarith
        then have "unat (z + HDR + blk_size (?h z)) = unat z + 32 + unat (blk_size (?h z))"
          by (simp add: unat_add_u32)
        then show ?thesis using True by simp
      qed
      have uz: "unat (blk_size (?h z) + t) = unat (blk_size (?h z)) + unat t"
        using su t(3) unat_u32_less [of "current_heap_end m"] by (intro unat_add_u32) linarith
      have h: "hdr ?m = ?h(s := ?new, z := (?h z)\<lparr>blk_size := blk_size (?h z) + t, blk_next := 0\<rparr>)"
        "heap_head ?m = heap_head m" "heap_tail ?m = z" "current_heap_end ?m = current_heap_end m"
        using True hd0 tl zs by (auto simp: heap_link_def Let_def heap_blocks_adjacent_def fun_eq_iff)
      have zf: "blk_magic (?h z) = HEAP_MAGIC_FREE \<and> blk_is_free (?h z) = 1"
        using True lz(4) by (auto simp: block_ok_def)
      have same: "y \<in> set as \<Longrightarrow> hdr ?m y = ?h y" for y unfolding h using sn za snoc by auto
      show ?thesis
      proof (rule that [of xs z])
        have "linked (hdr ?m) 0 as z = linked ?h 0 as z" by (rule linked_cong) (use same in auto)
        moreover have "laid (hdr ?m) 0xD0000000 as (unat z) = laid ?h 0xD0000000 as (unat z)"
          by (rule laid_cong) (use same in auto)
        moreover have "16 dvd unat (blk_size (?h z)) + unat t" using lz(4) t(1) by (auto simp: block_ok_def)
        ultimately show "heap_ok xs ?m" using cas las ch(2) lz zf snoc uz su t(3) tl
          by (simp add: heap_ok_def h(2-) linked_append laid_split) (simp add: h(1) block_ok_def)
        show "heap_blocks (hdr ?m) xs = heap_blocks ?h xs"
          by (rule heap_blocks_eqI) (use zf same snoc sn h(1) in \<open>auto split: if_splits\<close>)
        show "blk_is_free (hdr ?m z) = 1" "unat t - 32 \<le> unat (blk_size (hdr ?m z))"
          using zf uz by (simp_all add: h)
      qed (use ms zin in simp_all)
    next
      case False
      have h: "hdr ?m = ?h(s := ?new, z := (?h z)\<lparr>blk_next := s\<rparr>)"
        "heap_head ?m = heap_head m" "heap_tail ?m = s" "current_heap_end ?m = current_heap_end m"
        using False hd0 tl zs by (auto simp: heap_link_def Let_def heap_blocks_adjacent_def fun_eq_iff)
      have same: "y \<in> set as \<Longrightarrow> hdr ?m y = ?h y" for y unfolding h using sn za snoc by auto
      show ?thesis
      proof (rule that [of "xs @ [s]" s])
        have "linked (hdr ?m) 0 as z = linked ?h 0 as z" by (rule linked_cong) (use same in auto)
        moreover have "laid (hdr ?m) 0xD0000000 as (unat z) = laid ?h 0xD0000000 as (unat z)"
          by (rule laid_cong) (use same in auto)
        moreover have "block_ok (hdr ?m z)" using lz(4) zs by (simp add: h block_ok_def)
        moreover have "blk_next (hdr ?m z) = s" "blk_prev (hdr ?m z) = last (0 # as)" "blk_size (hdr ?m z) = blk_size (?h z)"
          "hdr ?m s = ?new" using cas(2) zs by (simp_all add: h)
        ultimately show "heap_ok (xs @ [s]) ?m" using cas las ch(2) lz snoc l(3) nb us t tl x0
          by (simp add: heap_ok_def h(2-) linked_append laid_split hd_append)
        show "heap_blocks (hdr ?m) (xs @ [s]) = heap_blocks ?h xs"
          by (rule heap_blocks_eqI) (use same snoc sn h(1) zs in \<open>auto split: if_splits\<close>)
        show "blk_is_free (hdr ?m s) = 1" "unat t - 32 \<le> unat (blk_size (hdr ?m s))" using us zs by (simp_all add: h)
      qed (use ms in simp_all)
    qed
  qed
qed


subsection \<open>The heap with its pages\<close>

text \<open>
  \<open>B\<close> is what the heap promises its callers: the allocated pointers with the size of their
  blocks.  With at most 256 MB of memory the heap cannot grow into the temporary page at
  \<^verbatim>\<open>0xE0000000\<close>.
\<close>

definition kheap_inv ::
  "(nat \<Rightarrow> u32) \<Rightarrow> (nat \<Rightarrow> nat) \<Rightarrow> u32 set \<Rightarrow> (u32 \<Rightarrow> nat option) \<Rightarrow> kheap \<Rightarrow> bool" where
  "kheap_inv KT ext P B m \<longleftrightarrow> space_inv KT ext P m \<and> frames (page_frames m) \<le> 65536 \<and>
     (\<exists>N. heap_mapped KT m N) \<and> (\<exists>xs. heap_ok xs m \<and> B = heap_blocks (hdr m) xs)"

definition kept :: "u32 set \<Rightarrow> kheap \<Rightarrow> kheap \<Rightarrow> bool" where
  "kept P m m' \<longleftrightarrow> same_pages P m m' \<and> cr3 m' = cr3 m \<and> page_directory m' = page_directory m \<and>
     device_window_next m' = device_window_next m \<and> heap_bytes m' = heap_bytes m \<and>
     frames (page_frames m') = frames (page_frames m)"

lemma kept_refl [simp]: "kept P m m"
  by (simp add: kept_def)

lemma kept_trans: "kept P m1 m2 \<Longrightarrow> kept P m2 m3 \<Longrightarrow> kept P m1 m3"
  using same_pages_trans by (auto simp: kept_def)

lemma kept_mem: "mem_same m m' \<Longrightarrow> kept P m m'"
  by (simp add: kept_def mem_same_def same_pages_ram)

lemma kept_pages: "same_pages P m m' \<Longrightarrow> heap_same m m' \<Longrightarrow> kept P m m'"
  by (simp add: kept_def heap_same_def)

lemma mem_same_inv:
  assumes "mem_same m m'"
  shows "space_inv KT ext P m' \<longleftrightarrow> space_inv KT ext P m" "heap_mapped KT m' N \<longleftrightarrow> heap_mapped KT m N"
  using assms space_inv_cong [of m' m] by (simp_all add: mem_same_def heap_mapped_def)

lemma kheap_invI:
  assumes "space_inv KT ext P m" "frames (page_frames m) \<le> 65536" "heap_mapped KT m N" "heap_ok xs m"
    "B = heap_blocks (hdr m) xs"
  shows "kheap_inv KT ext P B m"
  using assms by (auto simp: kheap_inv_def)

lemma kheap_inv_mem:
  assumes "kheap_inv KT ext P B m" "mem_same m m'" "heap_ok xs m'" "B' = heap_blocks (hdr m') xs"
  shows "kheap_inv KT ext P B' m'"
proof -
  obtain N where "heap_mapped KT m N" "space_inv KT ext P m" "frames (page_frames m) \<le> 65536"
    using assms(1) by (auto simp: kheap_inv_def)
  then show ?thesis
    by (intro kheap_invI [of KT ext P m' N xs]) (use assms mem_same_inv [OF assms(2)] in \<open>auto simp: mem_same_def\<close>)
qed

lemma grow_size:
  assumes "unat sz + 4127 < 4294967296"
  defines "k \<equiv> (unat sz + 4127) div 4096"
  shows "unat ((sz + HDR + 0xFFF) div 0x1000) = k" "unat ((sz + HDR + 0xFFF) div 0x1000 * 0x1000) = k * 4096"
    "unat sz + 32 \<le> k * 4096" "0 < k"
proof -
  have "unat (sz + HDR + 0xFFF) = unat sz + 4127" using assms(1) by (simp add: unat_word_ariths)
  then show p: "unat ((sz + HDR + 0xFFF) div 0x1000) = k" by (simp add: unat_div k_def)
  have "k * 4096 \<le> unat sz + 4127" by (simp add: k_def)
  then have "k * 4096 < 4294967296" using assms(1) by simp
  then show "unat ((sz + HDR + 0xFFF) div 0x1000 * 0x1000) = k * 4096"
    using p by (simp add: unat_word_ariths)
  show "unat sz + 32 \<le> k * 4096" unfolding k_def by linarith
  then show "0 < k" by (cases k) auto
qed

text \<open>Enough free memory means enough free frames.\<close>

lemma free_memory_room:
  assumes inv: "pmm_inv pm" and t: "unat t = k * 4096" "0 < k" and f: "\<not> pmm_get_free_memory pm < t"
  shows "4096 * k + unat (used_memory pm) \<le> 4096 * frames pm"
proof -
  have "0 < unat t" using t by simp
  then have "\<not> actual_total_memory pm < used_memory pm"
    using f by (auto simp: pmm_get_free_memory_def word_less_nat_alt split: if_splits)
  then have "unat t + unat (used_memory pm) \<le> unat (actual_total_memory pm)"
    using f by (simp add: pmm_get_free_memory_def word_less_nat_alt not_less unat_sub word_le_nat_alt)
  moreover have "unat (used_memory pm) = 4096 * card (used_frames pm)" by (rule pmm_invD(6) [OF inv])
  moreover have "frames pm = unat (actual_total_memory pm) div 4096"
    using pmm_invD(1) [OF inv] by (simp add: pmm_shape_def)
  ultimately have "4096 * (k + card (used_frames pm)) \<le> unat (actual_total_memory pm)" using t by simp
  then have "k + card (used_frames pm) \<le> frames pm"
    using \<open>frames pm = _\<close> by (simp add: less_eq_div_iff_mult_less_eq mult.commute)
  then show ?thesis using \<open>unat (used_memory pm) = _\<close> by simp
qed

lemma heap_grow_ok:
  assumes inv: "kheap_inv KT ext P B m" and sz: "unat sz + 4127 < 4294967296"
  shows "heap_grow sz m = Some (False, m) \<and> unat (pmm_get_free_memory (page_frames m)) < unat sz + 4127 \<or>
    (\<exists>m'. heap_grow sz m = Some (True, m') \<and> kheap_inv KT ext P B m' \<and> kept P m m' \<and>
      (\<exists>x. heap_search m' sz (heap_head m') = Some (Found x)))"
proof -
  obtain N xs where si: "space_inv KT ext P m" and fr: "frames (page_frames m) \<le> 65536"
    and hm: "heap_mapped KT m N" and ok: "heap_ok xs m" and B: "B = heap_blocks (hdr m) xs"
    using inv by (auto simp: kheap_inv_def)
  define k where "k = (unat sz + 4127) div 4096"
  note gs = grow_size [OF sz, folded k_def]
  let ?t = "(sz + HDR + 0xFFF) div 0x1000 * 0x1000"
  show ?thesis
  proof (cases "pmm_get_free_memory (page_frames m) < ?t")
    case True
    then have "heap_grow sz m = Some (False, m)" by (simp add: heap_grow_def Let_def)
    moreover have "unat (pmm_get_free_memory (page_frames m)) < k * 4096" using True gs(2) by (simp add: word_less_nat_alt)
    moreover have "k * 4096 \<le> unat sz + 4127" by (simp add: k_def)
    ultimately show ?thesis by simp
  next
    case False
    note pinv = acctD(1) [OF space_invD(1) [OF si]]
    note room = free_memory_room [OF pinv gs(2,4) False]
    have "N + k \<le> 65536"
      using heap_pages_le [OF si hm] room pmm_invD(6) [OF pinv] fr by simp
    then obtain m1 where m1: "grow_pages (current_heap_end m) [0..<k] m = (True, m1)" "space_inv KT ext P m1"
      "heap_mapped KT m1 (N + k)" "same_pages P m m1" "heap_same m m1"
      using grow_pages_ok [OF si hm, of "[0..<k]"] room by auto
    have ce: "current_heap_end m = heap_va N" using hm by (simp add: heap_mapped_def)
    have Nk: "N < 65536" "N \<le> 65536" using \<open>N + k \<le> 65536\<close> gs(4) by simp_all
    have mapped: "present (pd_virt m1 (pd_index (heap_va N)))"
      "present (pt_virt m1 (pd_index (heap_va N)) (pt_index (heap_va N)))"
      using space_virt(1,2) [OF m1(2)] space_kernel_entry [OF m1(2) heap_kernel [OF heap_va_index(3) [OF Nk(1)]]]
        heap_va_index [OF Nk(1)] m1(3) gs(4) Nk(1) by (simp_all add: heap_mapped_def)
    have hg: "heap_grow sz m = Some (True, heap_link (heap_va N) ?t m1)"
      using False m1(1) mapped gs(1) ce by (simp add: heap_grow_def Let_def)
    have hs: "hdr m1 = hdr m" "heap_head m1 = heap_head m" "heap_tail m1 = heap_tail m"
      using m1(5) by (simp_all add: heap_same_def)
    note d = heap_okD [OF ok]
    have va: "unat (heap_va N) = 0xD0000000 + N * 4096" by (rule unat_heap_va [OF Nk(2)])
    have ve: "unat (current_heap_end m1) = 0xD0000000 + (N + k) * 4096"
      using m1(3) unat_heap_va [of "N + k"] by (simp add: heap_mapped_def)
    obtain xs' x where l: "heap_ok xs' (heap_link (heap_va N) ?t m1)" "mem_same m1 (heap_link (heap_va N) ?t m1)"
      "heap_blocks (hdr (heap_link (heap_va N) ?t m1)) xs' = heap_blocks (hdr m1) xs"
      "x \<in> set xs'" "blk_is_free (hdr (heap_link (heap_va N) ?t m1) x) = 1"
      "unat ?t - 32 \<le> unat (blk_size (hdr (heap_link (heap_va N) ?t m1) x))"
    proof (rule heap_link_ok [of m1 xs "heap_va N" ?t])
      show "laid (hdr m1) 0xD0000000 xs (unat (heap_va N))" using d(4) ce hs by simp
      show "16 dvd unat (heap_va N)" unfolding va by (intro dvd_add dvd_mult) simp_all
      show "16 dvd unat ?t" unfolding gs(2) by (intro dvd_mult) simp
      show "32 \<le> unat ?t" using gs(2,4) by simp
    qed (use d(1,2,3) hs va ve gs(2) in auto)
    let ?m = "heap_link (heap_va N) ?t m1"
    have "kheap_inv KT ext P B ?m"
      by (rule kheap_invI [of _ _ _ _ "N + k" xs'])
        (use mem_same_inv [OF l(2)] m1(2,3) l(1,2,3) B hs m1(5) fr in \<open>auto simp: mem_same_def heap_same_def\<close>)
    moreover have "kept P m ?m" by (rule kept_trans [OF kept_pages [OF m1(4,5)] kept_mem [OF l(2)]])
    moreover have "\<exists>y. heap_search ?m sz (heap_head ?m) = Some (Found y)"
    proof -
      have "fits ?m sz x" using l(5,6) gs(2,3) by (auto simp: fits_def word_le_nat_alt)
      then have "find (fits ?m sz) xs' \<noteq> None" using l(4) by (auto simp: find_None_iff)
      then show ?thesis using heap_search_list [OF l(1), of sz] by auto
    qed
    ultimately show ?thesis using hg by blast
  qed
qed

subsection \<open>Allocating\<close>

lemma find_in: "find Q xs = Some x \<Longrightarrow> x \<in> set xs \<and> Q x"
  by (auto simp: find_Some_iff)

lemma kmalloc_found:
  assumes inv: "kheap_inv KT ext P B m" and f: "heap_search m sz (heap_head m) = Some (Found x)"
    and sz: "16 dvd unat sz"
  obtains n m' where "kmalloc_loop sz m = Some (x + HDR, m')" "x + HDR \<noteq> 0" "B (x + HDR) = None" "unat sz \<le> n"
    "kheap_inv KT ext P (B(x + HDR \<mapsto> n)) m'" "kept P m m'"
proof -
  obtain xs where ok: "heap_ok xs m" and B: "B = heap_blocks (hdr m) xs" using inv by (auto simp: kheap_inv_def)
  have x: "x \<in> set xs" "fits m sz x"
    using f heap_search_list [OF ok, of sz] find_in [of "fits m sz" xs x] by (auto split: option.splits)
  obtain xs' n where t: "heap_ok xs' (take_block x sz m)" "mem_same m (take_block x sz m)"
    "heap_blocks (hdr m) xs (x + HDR) = None" "unat sz \<le> n"
    "heap_blocks (hdr (take_block x sz m)) xs' = (heap_blocks (hdr m) xs)(x + HDR \<mapsto> n)"
    using take_block_ok [OF ok x sz] by blast
  have "unat (x + HDR) = unat x + 32" using block_bound(1) [OF ok x(1)] by (simp add: unat_add_u32)
  then have nz: "x + HDR \<noteq> 0" by (metis add_is_0 unat_0 zero_neq_numeral)
  show thesis
  proof (rule that)
    show "kmalloc_loop sz m = Some (x + HDR, take_block x sz m)" using f by (simp add: kmalloc_loop.simps)
    show "kheap_inv KT ext P (B(x + HDR \<mapsto> n)) (take_block x sz m)"
      by (rule kheap_inv_mem [OF inv t(2,1)]) (simp add: t(5) B)
  qed (use nz t B kept_mem in auto)
qed

lemma round_up_16:
  fixes sz :: u32
  assumes "unat sz + 15 < 4294967296"
  shows "unat ((sz + 15) AND NOT 15) = (unat sz + 15) div 16 * 16"
proof -
  have "w AND NOT (mask 4) = push_bit 4 (drop_bit 4 w)" for w :: u32
    by (auto intro!: bit_eqI simp: bit_simps)
  then have "(sz + 15) AND NOT 15 = push_bit 4 (drop_bit 4 (sz + 15))" by (simp add: mask_eq_exp_minus_1)
  also have "\<dots> = drop_bit 4 (sz + 15) * 16" by (simp add: push_bit_eq_mult)
  finally have "unat ((sz + 15) AND NOT 15) = (unat (drop_bit 4 (sz + 15)) * 16) mod 4294967296"
    by (simp add: unat_word_ariths)
  moreover have "unat (drop_bit 4 (sz + 15)) = (unat sz + 15) div 16"
    using assms by (simp add: unat_drop unat_add_u32)
  moreover have "(unat sz + 15) div 16 * 16 < 4294967296" using assms by linarith
  ultimately show ?thesis by simp
qed

lemma kmalloc_ok:
  assumes inv: "kheap_inv KT ext P B m" and sz: "0 < unat sz" "unat sz \<le> 0xFFFFEFC0"
  shows "kmalloc sz m = Some (0, m) \<and> unat (pmm_get_free_memory (page_frames m)) < unat sz + 4142 \<or>
    (\<exists>p n m'. kmalloc sz m = Some (p, m') \<and> p \<noteq> 0 \<and> B p = None \<and> unat sz \<le> n \<and>
      kheap_inv KT ext P (B(p \<mapsto> n)) m' \<and> kept P m m')"
proof -
  define s where "s = (sz + 15) AND NOT 15"
  have us: "unat s = (unat sz + 15) div 16 * 16" unfolding s_def using sz by (intro round_up_16) simp
  have s: "16 dvd unat s" "unat sz \<le> unat s" "unat s + 4127 < 4294967296" "unat s \<le> unat sz + 15"
    using sz unfolding us by simp_all
  have km: "kmalloc sz m = kmalloc_loop s m" using sz by (auto simp: kmalloc_def s_def)
  obtain xs where ok: "heap_ok xs m" using inv by (auto simp: kheap_inv_def)
  show ?thesis
  proof (cases "find (fits m s) xs")
    case (Some x)
    then have "heap_search m s (heap_head m) = Some (Found x)" using heap_search_list [OF ok] by simp
    then obtain n m' where r: "kmalloc_loop s m = Some (x + HDR, m')" "x + HDR \<noteq> 0" "B (x + HDR) = None"
      "unat s \<le> n" "kheap_inv KT ext P (B(x + HDR \<mapsto> n)) m'" "kept P m m'"
      using kmalloc_found [OF inv _ s(1)] by blast
    then have "unat sz \<le> n" using s(2) by simp
    then show ?thesis unfolding km using r by blast
  next
    case None
    then have nf: "heap_search m s (heap_head m) = Some Not_found" using heap_search_list [OF ok] by simp
    consider "heap_grow s m = Some (False, m)" "unat (pmm_get_free_memory (page_frames m)) < unat s + 4127"
      | m1 x where "heap_grow s m = Some (True, m1)" "kheap_inv KT ext P B m1" "kept P m m1"
        "heap_search m1 s (heap_head m1) = Some (Found x)"
      using heap_grow_ok [OF inv s(3)] by blast
    then show ?thesis
    proof cases
      case 1
      then show ?thesis using nf km s(4) by (simp add: kmalloc_loop.simps [of s m])
    next
      case 2
      then have km1: "kmalloc sz m = kmalloc_loop s m1" using nf km by (simp add: kmalloc_loop.simps [of s m])
      obtain n m' where r: "kmalloc_loop s m1 = Some (x + HDR, m')" "x + HDR \<noteq> 0" "B (x + HDR) = None"
        "unat s \<le> n" "kheap_inv KT ext P (B(x + HDR \<mapsto> n)) m'" "kept P m1 m'"
        using kmalloc_found [OF 2(2,4) s(1)] by blast
      then have "unat sz \<le> n" "kept P m m'" using s(2) kept_trans [OF 2(3)] by auto
      then show ?thesis unfolding km1 using r by blast
    qed
  qed
qed


subsection \<open>Releasing\<close>

lemma merge_next_ok:
  assumes ok: "heap_ok (as @ x # bs) m" and free: "blk_magic (hdr m x) = HEAP_MAGIC_FREE"
  obtains bs' where "heap_ok (as @ x # bs') (merge_next x m)" "mem_same m (merge_next x m)"
    "heap_blocks (hdr (merge_next x m)) (as @ x # bs') = heap_blocks (hdr m) (as @ x # bs)"
    "blk_magic (hdr (merge_next x m) x) = HEAP_MAGIC_FREE"
proof (cases "\<exists>n cs. bs = n # cs \<and> blk_is_free (hdr m n) \<noteq> 0 \<and> heap_blocks_adjacent m x n")
  case False
  note d = heap_okD [OF ok]
  have "blk_next (hdr m x) = hd (bs @ [0])" using d(1) by (simp add: linked_append)
  then have "merge_next x m = m" using False d(6) by (cases bs) (auto simp: merge_next_def Let_def)
  then show ?thesis using that [of bs] ok free by simp
next
  case True
  then obtain n cs where bs: "bs = n # cs" "blk_is_free (hdr m n) \<noteq> 0" "heap_blocks_adjacent m x n" by blast
  let ?h = "hdr m" and ?m = "merge_next x m"
  note d = heap_okD [OF ok [unfolded bs(1)]]
  have xin: "x \<in> set (as @ x # n # cs)" "n \<in> set (as @ x # n # cs)" by simp_all
  note lx = laid_in [OF d(4) xin(1)] and ln = laid_in [OF d(4) xin(2)]
  have ne: "n \<noteq> 0" "n \<noteq> x" "x \<notin> set as" "x \<notin> set cs" "n \<notin> set as" "n \<notin> set cs" using d(5,6) by auto
  have nf: "blk_magic (?h n) = HEAP_MAGIC_FREE" using bs(2) ln(4) by (auto simp: block_ok_def)
  have nx: "blk_next (?h x) = n" "blk_next (?h n) = hd (cs @ [0])" using d(1) by (simp_all add: linked_append)
  have adj: "unat n = unat x + 32 + unat (blk_size (?h x))"
  proof -
    have "unat x + 32 + unat (blk_size (?h x)) < 4294967296"
      using lx(2) unat_u32_less [of "current_heap_end m"] by linarith
    then show ?thesis using bs(3) by (auto simp: heap_blocks_adjacent_def unat_add_u32)
  qed
  have us: "unat (blk_size (?h x) + (blk_size (?h n) + HDR)) = unat (blk_size (?h x)) + unat (blk_size (?h n)) + 32"
    using ln(2) adj unat_u32_less [of "current_heap_end m"] by (simp add: unat_add_u32)
  define b where "b = hd (cs @ [0])"
  have bin: "b \<noteq> 0 \<Longrightarrow> b \<in> set cs" unfolding b_def by (cases cs) auto
  have b0: "b = 0 \<longleftrightarrow> cs = []" unfolding b_def using d(6) by (cases cs) auto
  have h: "hdr ?m y = (if y = b \<and> b \<noteq> 0 then (?h b)\<lparr>blk_prev := x\<rparr>
      else if y = x then (?h x)\<lparr>blk_size := blk_size (?h x) + (blk_size (?h n) + HDR), blk_next := b\<rparr>
      else ?h y)" for y
    unfolding merge_next_def Let_def nx b_def [symmetric] using bs ne bin b_def nx by auto
  have sel: "heap_head ?m = heap_head m" "current_heap_end ?m = current_heap_end m"
    "heap_tail ?m = (if cs = [] then x else heap_tail m)"
    unfolding merge_next_def Let_def nx using bs ne b0 [unfolded b_def] by auto
  have hx: "hdr ?m x = (?h x)\<lparr>blk_size := blk_size (?h x) + (blk_size (?h n) + HDR), blk_next := b\<rparr>"
    using h [of x] bin ne by auto
  have same: "y \<in> set as \<Longrightarrow> hdr ?m y = ?h y" for y using h [of y] ne bin d(5) b0 by auto
  have csm: "y \<in> set cs \<Longrightarrow> blk_size (hdr ?m y) = blk_size (?h y) \<and> blk_magic (hdr ?m y) = blk_magic (?h y) \<and>
      blk_is_free (hdr ?m y) = blk_is_free (?h y) \<and> blk_next (hdr ?m y) = blk_next (?h y)" for y
    using h [of y] ne by auto
  have "linked ?h n cs 0" using d(1) by (simp add: linked_append)
  then have "linked (hdr ?m) x cs 0"
  proof (rule chain_relink)
    show "distinct cs" using d(5) by simp
    fix c cs' assume c: "cs = c # cs'"
    then have "b = c" "c \<noteq> 0" using d(6) by (auto simp: b_def)
    then show "blk_prev (hdr ?m c) = x \<and> blk_next (hdr ?m c) = blk_next (?h c) \<and>
      (\<forall>y \<in> set cs'. blk_prev (hdr ?m y) = blk_prev (?h y) \<and> blk_next (hdr ?m y) = blk_next (?h y))"
      using h ne d(5) c by auto
  qed
  moreover note chain_before [OF d(1), of "hdr ?m", OF same]
  ultimately have ch: "linked (hdr ?m) 0 (as @ x # cs) 0" using hx by (simp add: linked_append b_def)
  have la: "laid (hdr ?m) 0xD0000000 (as @ x # cs) (unat (current_heap_end m))"
  proof -
    have "laid ?h (unat n + 32 + unat (blk_size (?h n))) cs (unat (current_heap_end m))"
      using laid_before(2) [OF d(4) refl] by simp
    moreover have "laid (hdr ?m) lo cs hi = laid ?h lo cs hi" for lo hi
      by (rule laid_cong) (use csm in \<open>auto simp: block_ok_def\<close>)
    moreover have "unat n + 32 + unat (blk_size (?h n)) = unat x + 32 + unat (blk_size (hdr ?m x))" using adj us hx by simp
    moreover have "16 dvd unat (blk_size (?h x)) + unat (blk_size (?h n)) + 32"
      using lx(4) ln(4) by (intro dvd_add) (auto simp: block_ok_def)
    ultimately show ?thesis
      using laid_before(1) [OF d(4), of "hdr ?m", OF same] lx free hx us by (simp add: laid_split block_ok_def)
  qed
  show ?thesis
  proof (rule that [of cs])
    show "heap_ok (as @ x # cs) ?m" using ch la d(2,3) sel by (auto simp: heap_ok_def hd_append)
    show "mem_same m ?m" by (simp add: merge_next_def Let_def)
    show "heap_blocks (hdr ?m) (as @ x # cs) = heap_blocks ?h (as @ x # bs)"
      by (rule heap_blocks_eqI) (use same csm hx free nf bs(1) in auto)
    show "blk_magic (hdr ?m x) = HEAP_MAGIC_FREE" using hx free by simp
  qed
qed

lemma merge_prev_ok:
  assumes ok: "heap_ok (as @ x # bs) m" and free: "blk_magic (hdr m x) = HEAP_MAGIC_FREE"
  obtains y m' as' bs' where "merge_prev x m = (y, m')" "heap_ok (as' @ y # bs') m'" "mem_same m m'"
    "heap_blocks (hdr m') (as' @ y # bs') = heap_blocks (hdr m) (as @ x # bs)" "blk_magic (hdr m' y) = HEAP_MAGIC_FREE"
proof -
  note d = heap_okD [OF ok]
  have xin: "x \<in> set (as @ x # bs)" by simp
  have pv: "blk_prev (hdr m x) = last (0 # as)" using d(1) by (simp add: linked_append)
  show thesis
  proof (cases "blk_prev (hdr m x) \<noteq> 0 \<and> blk_is_free (hdr m (blk_prev (hdr m x))) \<noteq> 0 \<and>
      heap_blocks_adjacent m (blk_prev (hdr m x)) x")
    case False
    then have "merge_prev x m = (x, m)" by (auto simp: merge_prev_def Let_def)
    then show ?thesis using that [of x m as bs] ok free by simp
  next
    case True
    then have "as \<noteq> []" using pv by auto
    then obtain cs v where as: "as = cs @ [v]" by (metis rev_exhaust)
    then have v: "blk_prev (hdr m x) = v" using pv by simp
    have ok2: "heap_ok (cs @ v # x # bs) m" using ok as by simp
    have vf: "blk_magic (hdr m v) = HEAP_MAGIC_FREE"
      using True v laid_in(4) [OF d(4), of v] as by (auto simp: block_ok_def)
    have "blk_next (hdr m v) = x" using heap_okD(1) [OF ok2] by (simp add: linked_append)
    moreover have "x \<noteq> 0" "x \<noteq> v" using d(5,6) as by auto
    moreover have "blk_is_free (hdr m x) = 1" using laid_in(4) [OF d(4) xin] free by (auto simp: block_ok_def)
    ultimately have "merge_prev x m = (v, merge_next v m)"
      using True v by (simp add: merge_prev_def merge_next_def Let_def)
    moreover obtain bs' where "heap_ok (cs @ v # bs') (merge_next v m)" "mem_same m (merge_next v m)"
      "heap_blocks (hdr (merge_next v m)) (cs @ v # bs') = heap_blocks (hdr m) (cs @ v # x # bs)"
      "blk_magic (hdr (merge_next v m) v) = HEAP_MAGIC_FREE"
      using merge_next_ok [OF ok2 vf] by blast
    ultimately show ?thesis using that [of v "merge_next v m" cs bs'] as by simp
  qed
qed

lemma shrink_tail_ok:
  assumes inv: "space_inv KT ext P m" "heap_mapped KT m N" and ok: "heap_ok (as @ y # bs) m"
    and free: "blk_magic (hdr m y) = HEAP_MAGIC_FREE"
  obtains xs' N' where "space_inv KT ext P (shrink_tail y m)" "heap_mapped KT (shrink_tail y m) N'"
    "heap_ok xs' (shrink_tail y m)" "kept P m (shrink_tail y m)"
    "heap_blocks (hdr (shrink_tail y m)) xs' = heap_blocks (hdr m) (as @ y # bs)"
proof (cases "y = heap_tail m \<and> 4096 \<le> blk_size (hdr m y)")
  case False
  then have "shrink_tail y m = m" by (auto simp: shrink_tail_def)
  then show ?thesis using that [of N "as @ y # bs"] inv ok by simp
next
  case True
  note final = that
  note d = heap_okD [OF ok]
  have bs: "bs = []"
  proof (rule ccontr)
    assume "bs \<noteq> []"
    then have "heap_tail m \<in> set bs" using d(3) by simp
    then show False using True d(5) by auto
  qed
  let ?h = "hdr m" and ?s = "blk_size (hdr m y)" and ?m = "shrink_tail y m"
  define k where "k = unat ?s div 4096"
  have yin: "y \<in> set (as @ y # bs)" by simp
  note ly = laid_in [OF d(4) yin]
  have ce: "unat (current_heap_end m) = 0xD0000000 + N * 4096" and N: "N \<le> 65536"
    using inv(2) unat_heap_va [of N] by (auto simp: heap_mapped_def)
  have kN: "k * 4096 \<le> unat ?s" by (simp add: k_def)
  have "k \<le> N" using ly(1,2) ce kN by linarith
  then obtain N' where N': "N = N' + k" by (metis le_add_diff_inverse2)
  define m1 where "m1 = (shrink_page ^^ k) m"
  have sp: "space_inv KT ext P m1" "heap_mapped KT m1 N'" "same_pages P m m1" "heap_same m m1"
    using shrink_pages_ok [OF inv(1), of N' k] inv(2) N' by (auto simp: m1_def)
  have uk: "unat (?s div 4096) = k" by (simp add: unat_div k_def)
  have hs: "hdr m1 = hdr m" "heap_head m1 = heap_head m" "heap_tail m1 = heap_tail m"
    using sp(4) by (simp_all add: heap_same_def)
  define r where "r = ?s - ?s div 4096 * 4096"
  have ur: "unat r = unat ?s - k * 4096"
  proof -
    have "unat (?s div 4096 * 4096) = k * 4096"
      using uk kN unat_u32_less [of ?s] by (simp add: unat_word_ariths)
    then show ?thesis unfolding r_def using kN by (simp add: unat_sub word_le_nat_alt)
  qed
  define m2 where "m2 = set_hdr y (\<lambda>b. b\<lparr>blk_size := blk_size b - ?s div 4096 * 4096\<rparr>) m1"
  have h2: "hdr m2 = ?h(y := (?h y)\<lparr>blk_size := r\<rparr>)" by (simp add: m2_def hs r_def)
  have ce2: "unat (current_heap_end m2) = 0xD0000000 + N' * 4096"
    using sp(2) unat_heap_va [of N'] N N' by (simp add: heap_mapped_def m2_def)
  have ms: "mem_same m1 m2" by (simp add: m2_def)
  have ya: "y \<notin> set as" "y \<noteq> 0" using d(5,6) by auto
  have same: "x \<in> set as \<Longrightarrow> hdr m2 x = ?h x" for x using ya h2 by auto
  have cas: "linked (hdr m2) 0 as y" "blk_prev (?h y) = last (0 # as)"
    using chain_before [OF d(1), of "hdr m2", OF same] by auto
  have las: "laid (hdr m2) 0xD0000000 as (unat y)"
    using laid_before(1) [OF d(4), of "hdr m2", OF same] by simp
  have top: "unat y + 32 + unat r \<le> unat (current_heap_end m2)" using ly(2) ce ce2 ur kN N' by (simp add: algebra_simps)
  have dr: "16 dvd unat r" unfolding ur using ly(4) by (intro dvd_diff_nat dvd_mult) (auto simp: block_ok_def)
  have eq: "?m = (if r < HDR then (if blk_prev (?h y) \<noteq> 0
      then (set_hdr (blk_prev (?h y)) (\<lambda>b. b\<lparr>blk_next := 0\<rparr>) m2)\<lparr>heap_tail := blk_prev (?h y)\<rparr>
      else m2\<lparr>heap_head := 0, heap_tail := 0\<rparr>) else m2)"
    unfolding shrink_tail_def if_P [OF True] Let_def uk m1_def [symmetric] m2_def [symmetric] by (simp add: h2)
  have mse: "mem_same m1 ?m" using ms by (simp add: eq)
  have out: thesis if "heap_ok xs' ?m" "heap_blocks (hdr ?m) xs' = heap_blocks ?h (as @ y # bs)" for xs'
    using final [of N' xs'] that mem_same_inv [OF mse] sp
      kept_trans [OF kept_pages [OF sp(3,4)] kept_mem [OF mse]] by simp
  show thesis
  proof (cases "r < HDR")
    case False
    have "blk_next (?h y) = 0" using d(1) bs by (simp add: linked_append)
    then have "heap_ok (as @ [y]) m2" unfolding heap_ok_def
      using cas las top dr free d(2) hs True bs h2 ly laid_split [of "hdr m2" _ as y "[]"] ya
      by (simp add: linked_append block_ok_def m2_def hd_append)
    moreover have "heap_blocks (hdr m2) (as @ [y]) = heap_blocks ?h (as @ y # bs)"
      by (rule heap_blocks_eqI) (use same h2 free bs in auto)
    ultimately show ?thesis using out [of "as @ [y]"] eq False by simp
  next
    case dropped: True
    show ?thesis
    proof (cases as rule: rev_cases)
      case Nil
      then have "?m = m2\<lparr>heap_head := 0, heap_tail := 0\<rparr>" using eq dropped cas(2) by simp
      moreover have "0xD0000000 \<le> unat (current_heap_end m2)" using ce2 by simp
      ultimately have "heap_ok [] ?m" by (simp add: heap_ok_def)
      moreover have "heap_blocks (hdr ?m) [] = heap_blocks ?h (as @ y # bs)"
        by (rule heap_blocks_eqI) (use Nil bs free in auto)
      ultimately show ?thesis by (rule out)
    next
      case (snoc cs v)
      have v: "blk_prev (?h y) = v" "v \<noteq> 0" "v \<notin> set cs" "v \<noteq> y" using cas(2) snoc d(5,6) by auto
      have m: "?m = (set_hdr v (\<lambda>b. b\<lparr>blk_next := 0\<rparr>) m2)\<lparr>heap_tail := v\<rparr>" using eq dropped v by simp
      have h: "hdr ?m = (hdr m2)(v := (?h v)\<lparr>blk_next := 0\<rparr>)" using m same [of v] snoc by simp
      have cs: "x \<in> set cs \<Longrightarrow> hdr ?m x = hdr m2 x" for x using h v by auto
      have "linked (hdr ?m) 0 cs v = linked (hdr m2) 0 cs v" by (rule linked_cong) (use cs in auto)
      moreover have "blk_prev (hdr m2 v) = last (0 # cs)" "linked (hdr m2) 0 cs v" using cas(1) snoc by (simp_all add: linked_append)
      ultimately have "linked (hdr ?m) 0 as 0" using h snoc same [of v] by (simp add: linked_append)
      moreover have "laid (hdr ?m) 0xD0000000 as (unat (current_heap_end m2))"
      proof -
        have "laid (hdr ?m) 0xD0000000 as (unat y) = laid (hdr m2) 0xD0000000 as (unat y)"
          by (rule laid_cong) (use h same [of v] snoc in \<open>auto simp: block_ok_def\<close>)
        then have "laid (hdr ?m) 0xD0000000 as (unat y)" using las by simp
        then show ?thesis by (rule laid_mono) (use top in simp)
      qed
      ultimately have "heap_ok as ?m" using d(2) hs snoc m by (auto simp: heap_ok_def hd_append m2_def)
      moreover have "heap_blocks (hdr ?m) as = heap_blocks ?h (as @ y # bs)"
        by (rule heap_blocks_eqI) (use h same cs snoc free bs in \<open>auto split: if_splits\<close>)
      ultimately show ?thesis by (rule out)
    qed
  qed
qed

lemma kfree_ok:
  assumes inv: "kheap_inv KT ext P B m" and p: "B p = Some n"
  obtains m' where "kfree p m = Some m'" "kheap_inv KT ext P (B(p := None)) m'" "kept P m m'"
proof -
  obtain N xs where si: "space_inv KT ext P m" and fr: "frames (page_frames m) \<le> 65536"
    and hm: "heap_mapped KT m N" and ok: "heap_ok xs m" and B: "B = heap_blocks (hdr m) xs"
    using inv by (auto simp: kheap_inv_def)
  define x where "x = p - HDR"
  have x: "x \<in> set xs" "blk_magic (hdr m x) = HEAP_MAGIC_ALLOCATED"
    using p B by (auto simp: heap_blocks_def x_def split: if_splits)
  have "blk_is_free (hdr m x) = 0" using laid_in(4) [OF heap_okD(4) [OF ok] x(1)] x(2) by (auto simp: block_ok_def)
  have pn: "p \<noteq> 0" using blocks_layout(2) [OF ok p [unfolded B]] by auto
  let ?m1 = "set_hdr x (\<lambda>b. b\<lparr>blk_is_free := 1, blk_magic := HEAP_MAGIC_FREE\<rparr>) m"
  have ok1: "heap_ok xs ?m1"
    by (rule heap_ok_tag [OF ok x(1)]) (use laid_in(4) [OF heap_okD(4) [OF ok] x(1)] in \<open>auto simp: block_ok_def\<close>)
  have b1: "heap_blocks (hdr ?m1) xs = B(p := None)" unfolding B by (auto simp: heap_blocks_def x_def fun_eq_iff)
  obtain as bs where xs: "xs = as @ x # bs" using split_list [OF x(1)] by blast
  have f1: "blk_magic (hdr ?m1 x) = HEAP_MAGIC_FREE" by simp
  obtain bs2 where m2: "heap_ok (as @ x # bs2) (merge_next x ?m1)" "mem_same ?m1 (merge_next x ?m1)"
    "heap_blocks (hdr (merge_next x ?m1)) (as @ x # bs2) = heap_blocks (hdr ?m1) (as @ x # bs)"
    "blk_magic (hdr (merge_next x ?m1) x) = HEAP_MAGIC_FREE"
    using merge_next_ok [OF ok1 [unfolded xs] f1] by blast
  obtain y m3 as3 bs3 where m3: "merge_prev x (merge_next x ?m1) = (y, m3)" "heap_ok (as3 @ y # bs3) m3"
    "mem_same (merge_next x ?m1) m3"
    "heap_blocks (hdr m3) (as3 @ y # bs3) = heap_blocks (hdr (merge_next x ?m1)) (as @ x # bs2)"
    "blk_magic (hdr m3 y) = HEAP_MAGIC_FREE"
    using merge_prev_ok [OF m2(1,4)] by blast
  have ms: "mem_same m m3" by (rule mem_same_trans [OF mem_same_trans [OF _ m2(2)] m3(3)]) simp
  note mi = mem_same_inv [OF ms]
  obtain xs' N' where s: "space_inv KT ext P (shrink_tail y m3)" "heap_mapped KT (shrink_tail y m3) N'"
    "heap_ok xs' (shrink_tail y m3)" "kept P m3 (shrink_tail y m3)"
    "heap_blocks (hdr (shrink_tail y m3)) xs' = heap_blocks (hdr m3) (as3 @ y # bs3)"
    using shrink_tail_ok [OF mi(1) [THEN iffD2, OF si] mi(2) [THEN iffD2, OF hm] m3(2,5)] by blast
  have k: "kept P m (shrink_tail y m3)" by (rule kept_trans [OF kept_mem [OF ms] s(4)])
  show thesis
  proof (rule that)
    show "kfree p m = Some (shrink_tail y m3)"
      using pn x(2) \<open>blk_is_free (hdr m x) = 0\<close> m3(1) by (simp add: kfree_def Let_def x_def [symmetric])
    show "kheap_inv KT ext P (B(p := None)) (shrink_tail y m3)"
      by (rule kheap_invI [OF s(1) _ s(2,3)]) (use k fr s(5) m3(4) m2(3) b1 xs in \<open>auto simp: kept_def\<close>)
  qed (rule k)
qed

end
