(* ===== verification/Memboot.thy ===== *)
theory Memboot
  imports Heaplist
begin

text \<open>
  The memory system after boot: \<^verbatim>\<open>init_paging\<close> and \<^verbatim>\<open>init_kheap\<close> establish the invariants of the
  theories Spaces and Heaplist, and from there the kernel heap keeps its promises through any
  sequence of calls.
\<close>

subsection \<open>Bringing paging up\<close>











subsection \<open>Bringing the heap up\<close>


subsection \<open>A heap as its callers see it\<close>










subsection \<open>Resizing\<close>




subsection \<open>From boot on\<close>


text \<open>
  A machine of 8 MB at power-on, for the witnesses: the 256 frames of low memory and one more
  are in use, the rest is free, and memory is clear.
\<close>

definition pmm_8mb :: pmm_state where
  "pmm_8mb = \<lparr>pmm_bitmap = map (\<lambda>i. if i < 8 then 0xFFFFFFFF else if i = 8 then 1 else 0) [0..<64],
     pmm_bitmap_size_words = 64, pmm_frames_count = 2048, used_memory = 257 * 4096,
     actual_total_memory = 0x800000, pmm_refcount = map (\<lambda>i. if i < 257 then 1 else 0) [0..<2048],
     lowest_free_idx = 8\<rparr>"

lemma pmm_8mb_sel [simp]:
  "pmm_frames_count pmm_8mb = 2048" "pmm_bitmap_size_words pmm_8mb = 64" "lowest_free_idx pmm_8mb = 8"
  "used_memory pmm_8mb = 257 * 4096" "actual_total_memory pmm_8mb = 0x800000"
  "length (pmm_bitmap pmm_8mb) = 64" "length (pmm_refcount pmm_8mb) = 2048"
  by (simp_all only: pmm_8mb_def pmm_state.simps length_map length_upt diff_zero)










subsection \<open>Properties\<close>









end
