(* ===== verification/Spec2Isabelle.thy ===== *)
theory Spec2Isabelle
  imports Pipe Pmm Atomic Diskkey Refuse Memboot
begin

text \<open>
  A verification of esdumanOS, a 32-bit x86 kernel with its own file system, shell and editor.
\<close>

end
